(* ===== verification/Prelude.thy ===== *)
theory Prelude
  imports Main "HOL-Library.Word"
begin

text \<open>
  Shared vocabulary of the development: the machine integer types of the Rust sources as
  words, the two ways a fallible function returns (a \<open>Result\<close> is a sum whose left
  side is the error; a method on \<open>&mut self\<close> returns the new state beside its result,
  also when it fails), byte-list slicing and in-place overwriting, big-endian numerals, and
  the generic list and word lemmas every component uses.
\<close>

section \<open>Machine types\<close>

type_synonym u8 = "8 word"
type_synonym u16 = "16 word"
type_synonym u32 = "32 word"
type_synonym u64 = "64 word"

text \<open>An \<open>i64\<close> is the 64-bit pattern; it is compared through \<open>sint\<close>.\<close>

type_synonym i64 = "64 word"
type_synonym bytes = "u8 list"

text \<open>
  Named collections: \<open>slice_simps\<close> for reading a byte list after overwriting it,
  \<open>result_simps\<close> for evaluating the two result monads.
\<close>

named_theorems slice_simps
named_theorems result_simps

section \<open>Results\<close>

text \<open>The question-mark operator on a pure \<open>Result\<close>.\<close>

definition rbind :: "'e + 'a \<Rightarrow> ('a \<Rightarrow> 'e + 'b) \<Rightarrow> 'e + 'b" where
  "rbind r f = (case r of Inl e \<Rightarrow> Inl e | Inr a \<Rightarrow> f a)"

text \<open>A method on \<open>&mut self\<close>: the state comes back on the error path too.\<close>

type_synonym ('s, 'e, 'a) smethod = "'s \<Rightarrow> ('e + 'a) \<times> 's"

definition sbind ::
    "('s, 'e, 'a) smethod \<Rightarrow> ('a \<Rightarrow> ('s, 'e, 'b) smethod) \<Rightarrow> ('s, 'e, 'b) smethod" where
  "sbind m f s = (case m s of (Inl e, s') \<Rightarrow> (Inl e, s') | (Inr a, s') \<Rightarrow> f a s')"

definition spure :: "'e + 'a \<Rightarrow> ('s, 'e, 'a) smethod" where
  "spure r s = (r, s)"

text \<open>
  A method with a loop that may run forever: \<open>None\<close> is the run that does not return.
\<close>

type_synonym ('s, 'e, 'a) dmethod = "'s \<Rightarrow> (('e + 'a) \<times> 's) option"

definition dbind ::
    "('s, 'e, 'a) dmethod \<Rightarrow> ('a \<Rightarrow> ('s, 'e, 'b) dmethod) \<Rightarrow> ('s, 'e, 'b) dmethod" where
  "dbind m f s =
     Option.bind (m s) (\<lambda>rs. case rs of (Inl e, s') \<Rightarrow> Some (Inl e, s') | (Inr a, s') \<Rightarrow> f a s')"

definition dlift :: "('s, 'e, 'a) smethod \<Rightarrow> ('s, 'e, 'a) dmethod" where
  "dlift m s = Some (m s)"

definition dpure :: "'e + 'a \<Rightarrow> ('s, 'e, 'a) dmethod" where
  "dpure r s = Some (r, s)"

lemma rbind_Inl [simp, result_simps]: "rbind (Inl e) f = Inl e"
  and rbind_Inr [simp, result_simps]: "rbind (Inr a) f = f a"
  by (simp_all add: rbind_def)

lemma rbind_eq_Inr: "rbind r f = Inr b \<longleftrightarrow> (\<exists>a. r = Inr a \<and> f a = Inr b)"
  by (cases r) auto

lemma sbind_ok [result_simps]: "m s = (Inr a, s') \<Longrightarrow> sbind m f s = f a s'"
  and sbind_err [result_simps]: "m s = (Inl e, s') \<Longrightarrow> sbind m f s = (Inl e, s')"
  by (simp_all add: sbind_def)

lemma sbind_spure [simp, result_simps]: "sbind (spure (Inr a)) f = f a"
  by (rule ext) (simp add: sbind_def spure_def)

lemma sbind_cases:
  assumes "sbind m f s = (r, t)"
  obtains (err) e where "m s = (Inl e, t)" "r = Inl e"
    | (ok) a s' where "m s = (Inr a, s')" "f a s' = (r, t)"
  using assms by (auto simp: sbind_def split: prod.splits sum.splits)

lemma dbind_ok [result_simps]: "m s = Some (Inr a, s') \<Longrightarrow> dbind m f s = f a s'"
  and dbind_err [result_simps]: "m s = Some (Inl e, s') \<Longrightarrow> dbind m f s = Some (Inl e, s')"
  by (simp_all add: dbind_def)

lemma dbind_dlift_ok [result_simps]: "m s = (Inr a, s') \<Longrightarrow> dbind (dlift m) f s = f a s'"
  and dbind_dlift_err [result_simps]: "m s = (Inl e, s') \<Longrightarrow> dbind (dlift m) f s = Some (Inl e, s')"
  by (simp_all add: dbind_def dlift_def)

lemma dbind_dpure_Inr [simp, result_simps]: "dbind (dpure (Inr a)) f s = f a s"
  and dbind_dpure_Inl [simp, result_simps]: "dbind (dpure (Inl e)) f s = Some (Inl e, s)"
  by (simp_all add: dbind_def dpure_def)

lemma dbind_mono [partial_function_mono]:
  assumes "mono_option (\<lambda>f. m f s)" and "\<And>a s'. mono_option (\<lambda>f. g f a s')"
  shows "mono_option (\<lambda>f. dbind (m f) (g f) s)"
  unfolding dbind_def
proof (rule bind_mono [OF assms(1)])
  fix y
  show "mono_option (\<lambda>f. case y of (Inl e, s') \<Rightarrow> Some (Inl e, s') | (Inr a, s') \<Rightarrow> g f a s')"
    using assms(2) by (cases y; cases "fst y") (auto simp: monotone_def flat_ord_def fun_ord_def)
qed

section \<open>Slices of byte buffers\<close>

text \<open>\<open>buf.get(lo..hi)\<close>: \<open>None\<close> unless the range lies inside the buffer.\<close>

definition get_range :: "'a list \<Rightarrow> nat \<Rightarrow> nat \<Rightarrow> 'a list option" where
  "get_range buf lo hi =
     (if lo \<le> hi \<and> hi \<le> length buf then Some (take (hi - lo) (drop lo buf)) else None)"

text \<open>The bytes \<open>at .. at + n\<close> of a buffer, and the buffer with bytes put there.\<close>

definition slice :: "'a list \<Rightarrow> nat \<Rightarrow> nat \<Rightarrow> 'a list" where
  "slice buf at n = take n (drop at buf)"

definition put_at :: "'a list \<Rightarrow> nat \<Rightarrow> 'a list \<Rightarrow> 'a list" where
  "put_at buf at bs = take at buf @ bs @ drop (at + length bs) buf"

lemma get_range_slice: "at + n \<le> length buf \<Longrightarrow> get_range buf at (at + n) = Some (slice buf at n)"
  and get_range_None: "length buf < at + n \<Longrightarrow> get_range buf at (at + n) = None"
  by (simp_all add: get_range_def slice_def)

lemma length_slice [simp, slice_simps]: "at + n \<le> length buf \<Longrightarrow> length (slice buf at n) = n"
  by (simp add: slice_def)

lemma length_put_at [simp, slice_simps]:
  "at + length bs \<le> length buf \<Longrightarrow> length (put_at buf at bs) = length buf"
  by (simp add: put_at_def)

lemma slice_put_at_same [slice_simps]:
  "at + length bs \<le> length buf \<Longrightarrow> slice (put_at buf at bs) at (length bs) = bs"
  by (simp add: slice_def put_at_def)

lemma slice_put_at_before [slice_simps]:
  "i + n \<le> at \<Longrightarrow> at + length bs \<le> length buf \<Longrightarrow> slice (put_at buf at bs) i n = slice buf i n"
  by (simp add: slice_def put_at_def take_drop)

lemma slice_put_at_after [slice_simps]:
  "at + length bs \<le> i \<Longrightarrow> at + length bs \<le> length buf \<Longrightarrow>
     slice (put_at buf at bs) i n = slice buf i n"
  by (simp add: slice_def put_at_def)

lemma slice_put_at_inside:
  assumes "at \<le> i" "i + n \<le> at + length bs" "at + length bs \<le> length buf"
  shows "slice (put_at buf at bs) i n = slice bs (i - at) n"
  using assms by (simp add: slice_def put_at_def)

lemma slice_take [slice_simps]: "at + n \<le> k \<Longrightarrow> slice (take k buf) at n = slice buf at n"
  by (simp add: slice_def take_drop min_def)

lemma slice_slice: "i + n \<le> m \<Longrightarrow> slice (slice buf at m) i n = slice buf (at + i) n"
  by (simp add: slice_def take_drop min_def add.commute add.left_commute)

lemma slice_append_left: "at + n \<le> length xs \<Longrightarrow> slice (xs @ ys) at n = slice xs at n"
  and slice_append_right: "length xs \<le> at \<Longrightarrow> slice (xs @ ys) at n = slice ys (at - length xs) n"
  by (simp_all add: slice_def)

lemma slice_full: "slice xs 0 (length xs) = xs"
  by (simp add: slice_def)

lemma nth_put_at:
  "at + length bs \<le> length buf \<Longrightarrow> i < length buf \<Longrightarrow>
     put_at buf at bs ! i = (if at \<le> i \<and> i < at + length bs then bs ! (i - at) else buf ! i)"
  by (auto simp: put_at_def nth_append min_def)

section \<open>Big-endian numerals\<close>

fun be_bytes :: "nat \<Rightarrow> nat \<Rightarrow> bytes" where
  "be_bytes 0 v = []"
| "be_bytes (Suc n) v = be_bytes n (v div 256) @ [word_of_nat v]"

definition be_nat :: "bytes \<Rightarrow> nat" where
  "be_nat bs = foldl (\<lambda>a b. a * 256 + unat b) 0 bs"

text \<open>\<open>to_be_bytes\<close> and \<open>from_be_bytes\<close> of the integer types, \<open>n\<close> bytes wide.\<close>

definition to_be_bytes :: "nat \<Rightarrow> 'a::len word \<Rightarrow> bytes" where
  "to_be_bytes n w = be_bytes n (unat w)"

definition from_be_bytes :: "bytes \<Rightarrow> 'a::len word" where
  "from_be_bytes bs = word_of_nat (be_nat bs)"

lemma length_be_bytes [simp]: "length (be_bytes n v) = n"
  by (induction n arbitrary: v) auto

lemma length_to_be_bytes [simp, slice_simps]: "length (to_be_bytes n w) = n"
  by (simp add: to_be_bytes_def)

lemma be_nat_snoc [simp]: "be_nat (bs @ [b]) = be_nat bs * 256 + unat b"
  and be_nat_Nil [simp]: "be_nat [] = 0"
  by (simp_all add: be_nat_def)

lemma unat_word_of_nat_u8: "unat (word_of_nat v :: u8) = v mod 256"
  by (simp add: unat_of_nat)

lemma be_nat_be_bytes: "be_nat (be_bytes n v) = v mod 256 ^ n"
proof (induction n arbitrary: v)
  case 0
  then show ?case by simp
next
  case (Suc n)
  have "be_nat (be_bytes (Suc n) v) = 256 * (v div 256 mod 256 ^ n) + v mod 256"
    using Suc by (simp add: unat_word_of_nat_u8)
  also have "\<dots> = v mod (256 * 256 ^ n)"
    by (simp add: mod_mult2_eq)
  finally show ?case by simp
qed

lemma be_nat_bound: "be_nat bs < 256 ^ length bs"
proof (induction bs rule: rev_induct)
  case Nil
  then show ?case by simp
next
  case (snoc b bs)
  have "unat b < 256" using unsigned_less [of b] by simp
  with snoc show ?case by simp
qed

lemma be_bytes_be_nat: "be_bytes (length bs) (be_nat bs) = bs"
proof (induction bs rule: rev_induct)
  case Nil
  then show ?case by simp
next
  case (snoc b bs)
  have b: "unat b < 256" using unsigned_less [of b] by simp
  have z: "(256 :: u8) = 0" by (simp add: word_unat_eq_iff)
  have "word_of_nat (be_nat bs * 256 + unat b) = b" by (simp add: z)
  with snoc b show ?case by simp
qed

lemma from_to_be_bytes:
  fixes w :: "'a::len word"
  assumes "LENGTH('a) = 8 * n"
  shows "from_be_bytes (to_be_bytes n w) = w"
proof -
  have "unat w < 256 ^ n"
    using unsigned_less [of w] assms by (simp add: power_mult)
  then show ?thesis
    by (simp add: from_be_bytes_def to_be_bytes_def be_nat_be_bytes)
qed

lemma to_from_be_bytes:
  assumes "LENGTH('a::len) = 8 * length bs"
  shows "to_be_bytes (length bs) (from_be_bytes bs :: 'a word) = bs"
proof -
  have "be_nat bs < 2 ^ LENGTH('a)"
    using be_nat_bound [of bs] assms by (simp add: power_mult)
  then show ?thesis
    by (simp add: from_be_bytes_def to_be_bytes_def unat_of_nat be_bytes_be_nat)
qed

lemma from_to_be_u8 [simp]: "from_be_bytes (to_be_bytes (Suc 0) (w :: u8)) = w"
  and from_to_be_u16 [simp]: "from_be_bytes (to_be_bytes 2 (w2 :: u16)) = w2"
  and from_to_be_u32 [simp]: "from_be_bytes (to_be_bytes 4 (w4 :: u32)) = w4"
  and from_to_be_u64 [simp]: "from_be_bytes (to_be_bytes 8 (w8 :: u64)) = w8"
  by (rule from_to_be_bytes, simp)+

section \<open>Validated newtypes\<close>

text \<open>
  The contract every newtype of the sources keeps (\<open>TryFrom\<close> is its only constructor):
  \<open>try_from\<close> accepts exactly the valid raw values, wraps them unchanged, and reports
  the rejected value otherwise.
\<close>

locale validated_newtype =
  fixes valid :: "'raw \<Rightarrow> bool"
    and mk :: "'raw \<Rightarrow> 't"
    and get :: "'t \<Rightarrow> 'raw"
    and reject :: "'raw \<Rightarrow> 'e"
    and try_from :: "'raw \<Rightarrow> 'e + 't"
  assumes get_mk: "get (mk v) = v"
    and try_from_valid: "valid v \<Longrightarrow> try_from v = Inr (mk v)"
    and try_from_invalid: "\<not> valid v \<Longrightarrow> try_from v = Inl (reject v)"
begin

lemma accepts_iff: "(\<exists>t. try_from v = Inr t) \<longleftrightarrow> valid v"
  by (cases "valid v") (simp_all add: try_from_valid try_from_invalid)

lemma get_of_accepted: "try_from v = Inr t \<Longrightarrow> get t = v \<and> valid v"
  by (cases "valid v") (auto simp: try_from_valid try_from_invalid get_mk)

lemma rejects_iff: "try_from v = Inl e \<longleftrightarrow> \<not> valid v \<and> e = reject v"
  by (cases "valid v") (auto simp: try_from_valid try_from_invalid)

lemma accepted_inj: "try_from v = Inr t \<Longrightarrow> try_from w = Inr t \<Longrightarrow> v = w"
  using get_of_accepted by metis

end

end
