(* ===== verification/Utf8.thy ===== *)
theory Utf8
  imports Prelude
begin

text \<open>
  The part of \<open>std::string::String\<close> the sources use. A \<open>String\<close> is its bytes, which
  are well-formed UTF-8 by construction: \<open>as_bytes\<close> is the identity, \<open>from_utf8\<close>
  accepts exactly the well-formed sequences, \<open>chars().count()\<close> counts scalar values.
  \<open>utf8_count\<close> follows the table of well-formed byte sequences of the Unicode standard
  (no overlong forms, no surrogates, nothing above U+10FFFF).
\<close>

type_synonym rstring = bytes

definition between :: "u8 \<Rightarrow> u8 \<Rightarrow> u8 \<Rightarrow> bool" where
  "between lo hi b \<longleftrightarrow> lo \<le> b \<and> b \<le> hi"

definition utf8_cont :: "u8 \<Rightarrow> bool" where
  "utf8_cont b \<longleftrightarrow> between 0x80 0xBF b"

definition utf8_lead3 :: "u8 \<Rightarrow> u8 \<Rightarrow> bool" where
  "utf8_lead3 a b \<longleftrightarrow>
     a = 0xE0 \<and> between 0xA0 0xBF b \<or> between 0xE1 0xEC a \<and> utf8_cont b \<or>
     a = 0xED \<and> between 0x80 0x9F b \<or> between 0xEE 0xEF a \<and> utf8_cont b"

definition utf8_lead4 :: "u8 \<Rightarrow> u8 \<Rightarrow> bool" where
  "utf8_lead4 a b \<longleftrightarrow>
     a = 0xF0 \<and> between 0x90 0xBF b \<or> between 0xF1 0xF3 a \<and> utf8_cont b \<or>
     a = 0xF4 \<and> between 0x80 0x8F b"

fun utf8_count :: "bytes \<Rightarrow> nat option" where
  "utf8_count [] = Some 0"
| "utf8_count (a # bs) =
     (if a \<le> 0x7F then map_option Suc (utf8_count bs)
      else case bs of [] \<Rightarrow> None | b # cs \<Rightarrow>
        if between 0xC2 0xDF a \<and> utf8_cont b then map_option Suc (utf8_count cs)
        else case cs of [] \<Rightarrow> None | c # ds \<Rightarrow>
          if utf8_lead3 a b \<and> utf8_cont c then map_option Suc (utf8_count ds)
          else case ds of [] \<Rightarrow> None | d # es \<Rightarrow>
            if utf8_lead4 a b \<and> utf8_cont c \<and> utf8_cont d then map_option Suc (utf8_count es)
            else None)"

definition utf8_valid :: "bytes \<Rightarrow> bool" where
  "utf8_valid bs \<longleftrightarrow> utf8_count bs \<noteq> None"

definition chars_count :: "rstring \<Rightarrow> nat" where
  "chars_count s = (case utf8_count s of Some n \<Rightarrow> n | None \<Rightarrow> 0)"

end
