(* ===== verification/Lexis.thy ===== *)
theory Lexis
  imports Utf8
begin

text \<open>
  The value and schema vocabulary of \<open>crates/lexis\<close>: the six SQL types and their
  comparability rule (\<open>types.rs\<close>), runtime values and their validated newtypes
  (\<open>value.rs\<close>), identifiers (\<open>identifier.rs\<close>), column and table definitions
  (\<open>schema.rs\<close>), the expression vocabulary (\<open>ast.rs\<close>) and \<open>LexisError\<close>
  (\<open>error.rs\<close>, without the source location).

  An \<open>f64\<close> is its IEEE-754 bit pattern. The validated newtypes interpret the locale
  \<open>validated_newtype\<close>.
\<close>

section \<open>Types (types.rs) and errors (error.rs)\<close>

datatype sql_type = TInteger | TReal | TText | TBlob | TBoolean | TDatetime

datatype lexis_error =
    EmptyIdentifier string
  | NanReal u64
  | TextMaxLenZero
  | TextMaxLenOnNonText sql_type
  | IncomparableTypes sql_type sql_type
  | EmptyColumnList rstring
  | DuplicateColumn rstring rstring
  | NullNotAllowed rstring
  | TypeMismatch rstring sql_type sql_type
  | TextTooLong rstring u32 nat

definition check_comparable :: "sql_type \<Rightarrow> sql_type \<Rightarrow> lexis_error + unit" where
  "check_comparable self other =
     (if self = other \<or>
         (case (self, other) of
            (TInteger, TReal) \<Rightarrow> True | (TReal, TInteger) \<Rightarrow> True | _ \<Rightarrow> False)
      then Inr () else Inl (IncomparableTypes self other))"

fun sql_type_display :: "sql_type \<Rightarrow> string" where
  "sql_type_display TInteger = ''INTEGER''"
| "sql_type_display TReal = ''REAL''"
| "sql_type_display TText = ''TEXT''"
| "sql_type_display TBlob = ''BLOB''"
| "sql_type_display TBoolean = ''BOOLEAN''"
| "sql_type_display TDatetime = ''DATETIME''"

section \<open>Values (value.rs)\<close>

unbundle bit_operations_syntax

definition f64_is_nan :: "u64 \<Rightarrow> bool" where
  "f64_is_nan bits \<longleftrightarrow>
     bits AND 0x7FF0000000000000 = 0x7FF0000000000000 \<and> bits AND 0x000FFFFFFFFFFFFF \<noteq> 0"

datatype real_value = RealValue (real_get: u64)

definition real_try_from :: "u64 \<Rightarrow> lexis_error + real_value" where
  "real_try_from v = (if \<not> f64_is_nan v then Inr (RealValue v) else Inl (NanReal v))"

datatype datetime_value = DateTimeValue (datetime_get: i64)

definition datetime_from :: "i64 \<Rightarrow> datetime_value" where
  "datetime_from v = DateTimeValue v"

datatype sql_value =
    Null
  | Integer i64
  | Real real_value
  | Text rstring
  | Blob bytes
  | Boolean bool
  | Datetime datetime_value

fun value_sql_type :: "sql_value \<Rightarrow> sql_type option" where
  "value_sql_type Null = None"
| "value_sql_type (Integer _) = Some TInteger"
| "value_sql_type (Real _) = Some TReal"
| "value_sql_type (Text _) = Some TText"
| "value_sql_type (Blob _) = Some TBlob"
| "value_sql_type (Boolean _) = Some TBoolean"
| "value_sql_type (Datetime _) = Some TDatetime"

definition is_null :: "sql_value \<Rightarrow> bool" where
  "is_null v = (case v of Null \<Rightarrow> True | _ \<Rightarrow> False)"

definition value_try_from_f64 :: "u64 \<Rightarrow> lexis_error + sql_value" where
  "value_try_from_f64 v = rbind (real_try_from v) (\<lambda>r. Inr (Real r))"

definition value_from_i64 :: "i64 \<Rightarrow> sql_value" where
  "value_from_i64 v = Integer v"

definition value_from_bool :: "bool \<Rightarrow> sql_value" where
  "value_from_bool v = Boolean v"

definition value_from_string :: "rstring \<Rightarrow> sql_value" where
  "value_from_string v = Text v"

definition value_from_bytes :: "bytes \<Rightarrow> sql_value" where
  "value_from_bytes v = Blob v"

definition value_from_datetime :: "datetime_value \<Rightarrow> sql_value" where
  "value_from_datetime v = Datetime v"

text \<open>What the Rust types guarantee of a value: a real is no NaN, a text is UTF-8.\<close>

fun value_wf :: "sql_value \<Rightarrow> bool" where
  "value_wf (Real r) = (\<not> f64_is_nan (real_get r))"
| "value_wf (Text s) = utf8_valid s"
| "value_wf _ = True"

section \<open>Identifiers (identifier.rs)\<close>

datatype column_name = ColumnName (column_as_str: rstring)

definition column_try_from :: "rstring \<Rightarrow> lexis_error + column_name" where
  "column_try_from v =
     (if v \<noteq> [] then Inr (ColumnName v) else Inl (EmptyIdentifier ''column''))"

datatype table_name = TableName (table_as_str: rstring)

definition table_try_from :: "rstring \<Rightarrow> lexis_error + table_name" where
  "table_try_from v =
     (if v \<noteq> [] then Inr (TableName v) else Inl (EmptyIdentifier ''table''))"

section \<open>Schema (schema.rs)\<close>

datatype nullability = Nullable | NotNull

datatype text_max_len = TextMaxLen (max_len_get: u32)

definition text_max_len_try_from :: "u32 \<Rightarrow> lexis_error + text_max_len" where
  "text_max_len_try_from v = (if v \<noteq> 0 then Inr (TextMaxLen v) else Inl TextMaxLenZero)"

record column_def =
  cd_name :: column_name
  cd_sql_type :: sql_type
  cd_nullability :: nullability
  cd_text_max_len :: "text_max_len option"

definition column_def_new ::
    "column_name \<Rightarrow> sql_type \<Rightarrow> nullability \<Rightarrow> text_max_len option \<Rightarrow> lexis_error + column_def" where
  "column_def_new name sql_type nullability text_max_len =
     (if text_max_len = None \<or> sql_type = TText
      then Inr \<lparr>cd_name = name, cd_sql_type = sql_type, cd_nullability = nullability,
                cd_text_max_len = text_max_len\<rparr>
      else Inl (TextMaxLenOnNonText sql_type))"

definition column_def_name :: "column_def \<Rightarrow> column_name" where
  [simp]: "column_def_name c = cd_name c"

definition column_def_sql_type :: "column_def \<Rightarrow> sql_type" where
  [simp]: "column_def_sql_type c = cd_sql_type c"

definition column_def_nullability :: "column_def \<Rightarrow> nullability" where
  [simp]: "column_def_nullability c = cd_nullability c"

definition column_def_text_max_len :: "column_def \<Rightarrow> text_max_len option" where
  [simp]: "column_def_text_max_len c = cd_text_max_len c"

text \<open>The part of \<open>check_value\<close> that runs once the value is known not to be \<open>NULL\<close>.\<close>

definition check_typed_value :: "column_def \<Rightarrow> sql_value \<Rightarrow> sql_type \<Rightarrow> lexis_error + unit" where
  "check_typed_value col v actual_type =
     (if actual_type \<noteq> cd_sql_type col
      then Inl (TypeMismatch (column_as_str (cd_name col)) (cd_sql_type col) actual_type)
      else case (v, cd_text_max_len col) of
        (Text text, Some max_len) \<Rightarrow>
          (let len = chars_count text
           in if len < 2 ^ 32 \<and> len \<le> unat (max_len_get max_len) then Inr ()
              else Inl (TextTooLong (column_as_str (cd_name col)) (max_len_get max_len) len))
      | _ \<Rightarrow> Inr ())"

fun check_value :: "column_def \<Rightarrow> sql_value \<Rightarrow> lexis_error + unit" where
  "check_value col Null =
     (if cd_nullability col = Nullable then Inr ()
      else Inl (NullNotAllowed (column_as_str (cd_name col))))"
| "check_value col (Integer i) = check_typed_value col (Integer i) TInteger"
| "check_value col (Real r) = check_typed_value col (Real r) TReal"
| "check_value col (Text s) = check_typed_value col (Text s) TText"
| "check_value col (Blob b) = check_typed_value col (Blob b) TBlob"
| "check_value col (Boolean b) = check_typed_value col (Boolean b) TBoolean"
| "check_value col (Datetime d) = check_typed_value col (Datetime d) TDatetime"

record table_def =
  td_name :: table_name
  td_columns :: "column_def list"

text \<open>The duplicate scan of \<open>TableDef::new\<close>; \<open>seen\<close> is the source's hash set.\<close>

fun check_duplicates :: "table_name \<Rightarrow> rstring list \<Rightarrow> column_def list \<Rightarrow> lexis_error + unit" where
  "check_duplicates name seen [] = Inr ()"
| "check_duplicates name seen (col # cols) =
     (let c = column_as_str (cd_name col)
      in if c \<notin> set seen then check_duplicates name (c # seen) cols
         else Inl (DuplicateColumn (table_as_str name) c))"

definition table_def_new :: "table_name \<Rightarrow> column_def list \<Rightarrow> lexis_error + table_def" where
  "table_def_new name columns =
     (if columns = [] then Inl (EmptyColumnList (table_as_str name))
      else rbind (check_duplicates name [] columns)
             (\<lambda>_. Inr \<lparr>td_name = name, td_columns = columns\<rparr>))"

definition table_def_name :: "table_def \<Rightarrow> table_name" where
  [simp]: "table_def_name t = td_name t"

definition table_def_columns :: "table_def \<Rightarrow> column_def list" where
  [simp]: "table_def_columns t = td_columns t"

definition table_column :: "table_def \<Rightarrow> rstring \<Rightarrow> column_def option" where
  "table_column t name = find (\<lambda>col. column_as_str (cd_name col) = name) (td_columns t)"

section \<open>Expressions (ast.rs)\<close>

datatype unary_operator = Not | Neg

datatype binary_operator = Eq | Ne | Lt | Le | Gt | Ge | And | Or | Add | Sub | Mul | Div | Mod

datatype expr =
    Literal sql_value
  | Column column_name
  | UnaryOp unary_operator expr
  | BinaryOp binary_operator expr expr
  | Cast expr sql_type
  | IsNull expr
  | IsNotNull expr

section \<open>Properties\<close>

interpretation real_newtype:
  validated_newtype "\<lambda>v. \<not> f64_is_nan v" RealValue real_get NanReal real_try_from
  by unfold_locales (simp_all add: real_try_from_def)

interpretation column_newtype:
  validated_newtype "\<lambda>v. v \<noteq> []" ColumnName column_as_str
    "\<lambda>_. EmptyIdentifier ''column''" column_try_from
  by unfold_locales (simp_all add: column_try_from_def)

interpretation table_newtype:
  validated_newtype "\<lambda>v. v \<noteq> []" TableName table_as_str
    "\<lambda>_. EmptyIdentifier ''table''" table_try_from
  by unfold_locales (simp_all add: table_try_from_def)

interpretation text_len_newtype:
  validated_newtype "\<lambda>v. v \<noteq> 0" TextMaxLen max_len_get "\<lambda>_. TextMaxLenZero" text_max_len_try_from
  by unfold_locales (simp_all add: text_max_len_try_from_def)

lemma check_value_typed:
  "value_sql_type v = Some ty \<Longrightarrow> check_value col v = check_typed_value col v ty"
  by (cases v) auto

lemma check_duplicates_Inr:
  "check_duplicates name seen cols = Inr () \<longleftrightarrow>
     distinct (map (column_as_str \<circ> cd_name) cols) \<and>
     set (map (column_as_str \<circ> cd_name) cols) \<inter> set seen = {}"
  by (induction cols arbitrary: seen) (auto simp: Let_def)

lemma check_duplicates_Inl:
  "check_duplicates name seen cols = Inl e \<Longrightarrow>
     \<exists>pre col post. cols = pre @ col # post \<and>
       column_as_str (cd_name col) \<in> set seen \<union> set (map (column_as_str \<circ> cd_name) pre) \<and>
       check_duplicates name seen pre = Inr () \<and>
       e = DuplicateColumn (table_as_str name) (column_as_str (cd_name col))"
proof (induction cols arbitrary: seen)
  case Nil
  then show ?case by simp
next
  case (Cons c cols)
  show ?case
  proof (cases "column_as_str (cd_name c) \<in> set seen")
    case True
    with Cons.prems have "e = DuplicateColumn (table_as_str name) (column_as_str (cd_name c))"
      by (simp add: Let_def)
    with True have "c # cols = [] @ c # cols \<and> column_as_str (cd_name c) \<in> set seen \<union> set (map (column_as_str \<circ> cd_name) []) \<and>
       check_duplicates name seen [] = Inr () \<and>
       e = DuplicateColumn (table_as_str name) (column_as_str (cd_name c))" by simp
    then show ?thesis by blast
  next
    case False
    with Cons.prems have "check_duplicates name (column_as_str (cd_name c) # seen) cols = Inl e"
      by (simp add: Let_def)
    from Cons.IH [OF this] obtain pre col post where *: "cols = pre @ col # post"
      "column_as_str (cd_name col) \<in>
         set (column_as_str (cd_name c) # seen) \<union> set (map (column_as_str \<circ> cd_name) pre)"
      "check_duplicates name (column_as_str (cd_name c) # seen) pre = Inr ()"
      "e = DuplicateColumn (table_as_str name) (column_as_str (cd_name col))" by blast
    with False show ?thesis
      by (intro exI [of _ "c # pre"] exI [of _ col] exI [of _ post]) (auto simp: Let_def)
  qed
qed

lemma find_distinct:
  "distinct (map f xs) \<Longrightarrow> x \<in> set xs \<Longrightarrow> find (\<lambda>y. f y = f x) xs = Some x"
  by (induction xs) auto

section \<open>Claims\<close>

lemma u32_length_bound: "n \<le> unat (w :: u32) \<Longrightarrow> n < 2 ^ 32"
proof -
  assume n: "n \<le> unat w"
  have "unat w < 2 ^ LENGTH(32)" by (rule unsigned_less)
  with n show "n < 2 ^ 32" by simp
qed

text \<open>A column definition is accepted unless it bounds the length of another type than \<open>TEXT\<close>.\<close>

lemma column_def_new_fields:
  "column_def_new name ty nl max_len = r \<Longrightarrow> (case r of
      Inr c \<Rightarrow> (max_len = None \<or> ty = TText) \<and> column_def_name c = name \<and> column_def_sql_type c = ty \<and>
        column_def_nullability c = nl \<and> column_def_text_max_len c = max_len
    | Inl e \<Rightarrow> max_len \<noteq> None \<and> ty \<noteq> TText \<and> e = TextMaxLenOnNonText ty)"
  by (auto simp: column_def_new_def split: if_splits)

text \<open>
  C36: a column accepts a value exactly when the schema says so: \<open>NULL\<close> needs a nullable
  column, any other value the column's own type, and text under a length limit at most that many
  characters (Unicode scalar values, not bytes).
\<close>
lemma check_value_accepts:
  "check_value col v = Inr () \<longleftrightarrow>
     (case value_sql_type v of
        None \<Rightarrow> cd_nullability col = Nullable
      | Some ty \<Rightarrow> ty = cd_sql_type col \<and>
          (case (v, cd_text_max_len col) of
             (Text s, Some m) \<Rightarrow> chars_count s \<le> unat (max_len_get m)
           | _ \<Rightarrow> True))"
  using u32_length_bound by (cases v) (auto simp: check_typed_value_def Let_def split: option.splits)

lemma find_None_iff_name: "find (\<lambda>col. f col = c) cols = None \<longleftrightarrow> c \<notin> set (map f cols)"
  by (auto simp: find_None_iff)

text \<open>
  C37: a table definition is built exactly for a nonempty list of columns with distinct names. If it
  is built it keeps the name and the columns in order, looking a column up by its name finds that
  very column, and any other name finds none. If it is refused, the list is empty and the error says
  so, or the error names the first column that has the name of an earlier one.
\<close>
lemma table_def_accepts:
  "case table_def_new name cols of
     Inr t \<Rightarrow> cols \<noteq> [] \<and> distinct (map (column_as_str \<circ> column_def_name) cols) \<and>
       table_def_name t = name \<and> table_def_columns t = cols \<and>
       list_all (\<lambda>col. table_column t (column_as_str (column_def_name col)) = Some col) cols \<and>
       (table_column t other = None \<longleftrightarrow> other \<notin> set (map (column_as_str \<circ> column_def_name) cols))
   | Inl e \<Rightarrow> cols = [] \<and> e = EmptyColumnList (table_as_str name) \<or>
       (\<exists>pre col post. cols = pre @ col # post \<and> distinct (map (column_as_str \<circ> column_def_name) pre) \<and>
          column_as_str (column_def_name col) \<in> set (map (column_as_str \<circ> column_def_name) pre) \<and>
          e = DuplicateColumn (table_as_str name) (column_as_str (column_def_name col)))"
proof -
  have nm: "column_as_str \<circ> column_def_name = column_as_str \<circ> cd_name" by (simp add: fun_eq_iff)
  show ?thesis
  proof (cases "table_def_new name cols")
    case (Inl e)
    show ?thesis
    proof (cases "cols = []")
      case False
      then have "check_duplicates name [] cols = Inl e"
        using Inl by (simp add: table_def_new_def rbind_def split: sum.splits)
      from check_duplicates_Inl [OF this] obtain pre col post where
        "cols = pre @ col # post" "column_as_str (cd_name col) \<in> set (map (column_as_str \<circ> cd_name) pre)"
        "distinct (map (column_as_str \<circ> cd_name) pre)" "e = DuplicateColumn (table_as_str name) (column_as_str (cd_name col))"
        by (auto simp: check_duplicates_Inr)
      then show ?thesis unfolding Inl sum.case nm column_def_name_def by blast
    qed (use Inl in \<open>simp add: table_def_new_def\<close>)
  next
    case (Inr t)
    then have "cols \<noteq> []" "distinct (map (column_as_str \<circ> cd_name) cols)" "td_name t = name" "td_columns t = cols"
      by (auto simp: table_def_new_def rbind_eq_Inr check_duplicates_Inr split: if_splits)
    then show ?thesis
      using find_distinct [of "column_as_str \<circ> cd_name" cols] find_None_iff_name [of "column_as_str \<circ> cd_name" other cols]
      unfolding Inr sum.case nm by (simp add: table_column_def list_all_iff)
  qed
qed

end
