(* ===== verification/Errors.thy ===== *)
theory Errors
  imports Prelude
begin

text \<open>
  The error types of \<open>crates/pinax/src/error.rs\<close>. The source location that snafu
  attaches to every variant carries no behaviour and is left out; every other field is kept,
  paths as strings, \<open>usize\<close> and \<open>u64\<close> lengths as \<open>nat\<close>.
\<close>

type_synonym path = string

text \<open>The part of \<open>std::io::ErrorKind\<close> the file model of the pager produces.\<close>

datatype io_error = IoAlreadyExists | IoNotFound | IoUnexpectedEof | IoOther

datatype permanent_error =
    InvalidPageSize u32
  | InvalidBufferPoolCapacity
  | AlreadyExists path
  | KeyAlreadyExists i64
  | KeyNotFound i64
  | PayloadTooLarge i64 nat

datatype fatal_error =
    Corruption u32 u64 u64
  | NoValidMetaPage path
  | FileTooSmall path nat nat
  | BufferBounds nat nat nat
  | UnexpectedPageType u32 string u8
  | InvalidRowEncoding string
  | PoolInvariantViolated
  | Io path io_error

datatype pinax_error = Permanent permanent_error | Fatal fatal_error

type_synonym 'a presult = "pinax_error + 'a"

end
