(* ===== verification/Messages.thy ===== *)
theory Messages
  imports Lexis Errors
begin

text \<open>
  The texts: the \<open>Display\<close> of the lexis newtypes (\<open>identifier.rs\<close>, \<open>value.rs\<close>)
  and the \<open>snafu(display(...))\<close> message of every variant of \<open>LexisError\<close> and
  \<open>PinaxError\<close>, as UTF-8. Integers are printed as the standard library does; the texts
  it makes of an \<open>f64\<close>, of a path under \<open>{:?}\<close> and of an \<open>io::Error\<close> are the parameters
  \<open>f64_text\<close>, \<open>path_text\<close> and \<open>io_text\<close>.
\<close>

section \<open>Numbers\<close>

definition ascii :: "string \<Rightarrow> rstring" where
  "ascii s = map of_char s"

definition digit :: "nat \<Rightarrow> u8" where
  "digit d = of_nat (if d < 10 then 48 + d else 87 + d)"

fun dec_nat :: "nat \<Rightarrow> rstring" where
  "dec_nat n = (if n < 10 then [digit n] else dec_nat (n div 10) @ [digit (n mod 10)])"

declare dec_nat.simps [simp del]

definition dec_int :: "int \<Rightarrow> rstring" where
  "dec_int i = (if i < 0 then ascii ''-'' else []) @ dec_nat (nat \<bar>i\<bar>)"

text \<open>\<open>{:016x}\<close> of a \<open>u64\<close>: sixteen digits, the leading zeros included.\<close>

fun hex_digits :: "nat \<Rightarrow> nat \<Rightarrow> rstring" where
  "hex_digits 0 n = []"
| "hex_digits (Suc k) n = hex_digits k (n div 16) @ [digit (n mod 16)]"

definition hex16 :: "u64 \<Rightarrow> rstring" where
  "hex16 w = hex_digits 16 (unat w)"

section \<open>Lexis\<close>

definition column_name_display :: "column_name \<Rightarrow> rstring" where
  "column_name_display c = column_as_str c"

definition column_name_as_ref :: "column_name \<Rightarrow> rstring" where
  "column_name_as_ref c = column_as_str c"

definition table_name_display :: "table_name \<Rightarrow> rstring" where
  "table_name_display t = table_as_str t"

definition table_name_as_ref :: "table_name \<Rightarrow> rstring" where
  "table_name_as_ref t = table_as_str t"

definition real_display :: "(u64 \<Rightarrow> rstring) \<Rightarrow> real_value \<Rightarrow> rstring" where
  "real_display f64_text r = f64_text (real_get r)"

definition i64_from_datetime :: "datetime_value \<Rightarrow> i64" where
  "i64_from_datetime d = datetime_get d"

definition datetime_display :: "datetime_value \<Rightarrow> rstring" where
  "datetime_display d = dec_int (sint (datetime_get d))"

fun lexis_error_display :: "(u64 \<Rightarrow> rstring) \<Rightarrow> lexis_error \<Rightarrow> rstring" where
  "lexis_error_display f64_text (EmptyIdentifier kind) = ascii kind @ ascii '' name must not be empty''"
| "lexis_error_display f64_text (NanReal v) = ascii ''REAL value must be finite and non-NaN, got '' @ f64_text v"
| "lexis_error_display f64_text TextMaxLenZero = ascii ''TEXT max length must be greater than zero''"
| "lexis_error_display f64_text (TextMaxLenOnNonText ty) =
     ascii ''max length is only valid for TEXT columns, got '' @ ascii (sql_type_display ty)"
| "lexis_error_display f64_text (IncomparableTypes l r) =
     ascii ''cannot compare '' @ ascii (sql_type_display l) @ ascii '' with '' @ ascii (sql_type_display r) @
     ascii '': explicit CAST required''"
| "lexis_error_display f64_text (EmptyColumnList table) =
     ascii ''table `'' @ table @ ascii ''` must declare at least one column''"
| "lexis_error_display f64_text (DuplicateColumn table column) =
     ascii ''table `'' @ table @ ascii ''` declares column `'' @ column @ ascii ''` more than once''"
| "lexis_error_display f64_text (NullNotAllowed column) = ascii ''column `'' @ column @ ascii ''` is NOT NULL''"
| "lexis_error_display f64_text (TypeMismatch column expected actual) =
     ascii ''column `'' @ column @ ascii ''` expects '' @ ascii (sql_type_display expected) @ ascii '', got '' @
     ascii (sql_type_display actual)"
| "lexis_error_display f64_text (TextTooLong column max_len actual_len) =
     ascii ''column `'' @ column @ ascii ''` exceeds max length '' @ dec_nat (unat max_len) @ ascii '' (got '' @
     dec_nat actual_len @ ascii '' characters)''"

section \<open>Pinax\<close>

fun permanent_display :: "(path \<Rightarrow> rstring) \<Rightarrow> permanent_error \<Rightarrow> rstring" where
  "permanent_display path_text (InvalidPageSize requested) =
     ascii ''page size '' @ dec_nat (unat requested) @ ascii '' is not one of the valid sizes 4096/8192/16384/32768/65536''"
| "permanent_display path_text InvalidBufferPoolCapacity = ascii ''buffer pool capacity must be at least 1 page''"
| "permanent_display path_text (AlreadyExists p) =
     ascii ''database file already exists at '' @ path_text p @ ascii ''; use Database::open''"
| "permanent_display path_text (KeyAlreadyExists key) =
     ascii ''key '' @ dec_int (sint key) @ ascii '' already exists; use update''"
| "permanent_display path_text (KeyNotFound key) = ascii ''key '' @ dec_int (sint key) @ ascii '' does not exist''"
| "permanent_display path_text (PayloadTooLarge key encoded_len) =
     ascii ''row for key '' @ dec_int (sint key) @ ascii '' encodes to '' @ dec_nat encoded_len @
     ascii '' bytes, exceeding u32::MAX''"

fun fatal_display :: "(path \<Rightarrow> rstring) \<Rightarrow> (io_error \<Rightarrow> rstring) \<Rightarrow> fatal_error \<Rightarrow> rstring" where
  "fatal_display path_text io_text (Corruption page_id expected actual) =
     ascii ''page '' @ dec_nat (unat page_id) @ ascii '' failed checksum verification: expected '' @ hex16 expected @
     ascii '', got '' @ hex16 actual"
| "fatal_display path_text io_text (NoValidMetaPage p) =
     ascii ''no valid meta page found in '' @ path_text p @ ascii '' (checked slots 0 and 1)''"
| "fatal_display path_text io_text (FileTooSmall p actual_len min_len) =
     path_text p @ ascii '' is '' @ dec_nat actual_len @ ascii '' bytes, shorter than the meta region ('' @
     dec_nat min_len @ ascii '')''"
| "fatal_display path_text io_text (BufferBounds at len buf_len) =
     ascii ''byte range ['' @ dec_nat at @ ascii '', '' @ dec_nat at @ ascii ''+'' @ dec_nat len @
     ascii '') is out of bounds for a '' @ dec_nat buf_len @ ascii ''-byte buffer''"
| "fatal_display path_text io_text (UnexpectedPageType page_id expected actual) =
     ascii ''page '' @ dec_nat (unat page_id) @ ascii '': expected page type '' @ ascii expected @ ascii '', got byte '' @
     dec_nat (unat actual)"
| "fatal_display path_text io_text (InvalidRowEncoding reason) = ascii ''row payload failed to decode: '' @ ascii reason"
| "fatal_display path_text io_text PoolInvariantViolated =
     ascii ''buffer pool recency queue underflowed capacity accounting''"
| "fatal_display path_text io_text (Io p source) = ascii ''I/O error on '' @ path_text p @ ascii '': '' @ io_text source"

text \<open>Both variants are \<open>snafu(transparent)\<close>.\<close>

fun pinax_error_display :: "(path \<Rightarrow> rstring) \<Rightarrow> (io_error \<Rightarrow> rstring) \<Rightarrow> pinax_error \<Rightarrow> rstring" where
  "pinax_error_display path_text io_text (Permanent e) = permanent_display path_text e"
| "pinax_error_display path_text io_text (Fatal e) = fatal_display path_text io_text e"

section \<open>Properties\<close>

text \<open>What is printed can be read back, so different numbers have different texts.\<close>

definition digits_value :: "nat \<Rightarrow> rstring \<Rightarrow> nat" where
  "digits_value base ds =
     foldl (\<lambda>n d. base * n + (if unat d < 58 then unat d - 48 else unat d - 87)) 0 ds"

lemma unat_digit: "d < 16 \<Longrightarrow> unat (digit d) = (if d < 10 then 48 + d else 87 + d)"
  by (simp add: digit_def unat_of_nat take_bit_nat_eq_self)

lemma digits_value_snoc: "d < 16 \<Longrightarrow> digits_value base (ds @ [digit d]) = base * digits_value base ds + d"
  by (simp add: digits_value_def unat_digit)

lemma digits_value_Nil: "digits_value base [] = 0"
  by (simp add: digits_value_def)

lemma dec_nat_value: "digits_value 10 (dec_nat n) = n"
proof (induction n rule: dec_nat.induct)
  case (1 n)
  show ?case
  proof (cases "n < 10")
    case True
    then have "dec_nat n = [] @ [digit n]" by (simp add: dec_nat.simps [of n])
    then show ?thesis using True by (simp only: digits_value_snoc digits_value_Nil)
  next
    case False
    then have "dec_nat n = dec_nat (n div 10) @ [digit (n mod 10)]" by (simp add: dec_nat.simps [of n])
    then show ?thesis using 1 [OF False] by (simp add: digits_value_snoc)
  qed
qed

lemma dec_nat_eq_iff [simp]: "dec_nat m = dec_nat n \<longleftrightarrow> m = n"
  by (metis dec_nat_value)

lemma hex_digits_value: "n < 16 ^ k \<Longrightarrow> digits_value 16 (hex_digits k n) = n"
proof (induction k arbitrary: n)
  case 0
  then show ?case by (simp add: digits_value_Nil)
next
  case (Suc k)
  have "n div 16 < 16 ^ k" using Suc.prems by (simp add: less_mult_imp_div_less)
  then show ?case using Suc.IH by (simp add: digits_value_snoc)
qed

lemma hex16_value: "digits_value 16 (hex16 w) = unat w"
proof -
  have "unat w < 2 ^ LENGTH(64)" by (rule unsigned_less)
  then show ?thesis unfolding hex16_def by (intro hex_digits_value) simp
qed

lemma hex16_eq_iff [simp]: "hex16 v = hex16 w \<longleftrightarrow> v = w"
  by (metis hex16_value word_unat_eq_iff)

lemma length_hex_digits [simp]: "length (hex_digits k n) = k"
  by (induction k arbitrary: n) simp_all

lemma length_hex16 [simp]: "length (hex16 w) = 16"
  by (simp add: hex16_def)

text \<open>A corruption message names both checksums in full.\<close>

lemma corruption_text_checksums:
  "fatal_display path_text io_text (Corruption pid expected actual) =
     fatal_display path_text io_text (Corruption pid expected' actual') \<longleftrightarrow>
   expected = expected' \<and> actual = actual'"
  by (simp add: append_eq_append_conv)

lemma key_not_found_text:
  "pinax_error_display path_text io_text (Permanent (KeyNotFound 7)) = ascii ''key 7 does not exist''"
  by (simp add: ascii_def dec_int_def dec_nat.simps [of 7] digit_def)

end
