(* ===== verification/Codec.thy ===== *)
theory Codec
  imports Errors
begin

text \<open>
  \<open>crates/pinax/src/codec.rs\<close>: bounds-checked big-endian access to page buffers. A read
  returns the value or \<open>BufferBounds\<close>; a write returns the changed buffer or the same
  error. The locale \<open>field_codec\<close> states once what a fixed-width field accessor promises
  (a read returns what was last written at that offset, a write elsewhere does not disturb
  it, the length never changes, an access fails exactly when it leaves the buffer); the four
  unsigned accessors of the source interpret it.
\<close>

section \<open>Operations\<close>

definition buffer_bounds :: "nat \<Rightarrow> nat \<Rightarrow> nat \<Rightarrow> pinax_error" where
  "buffer_bounds at len buf_len = Fatal (BufferBounds at len buf_len)"

definition read_bytes :: "nat \<Rightarrow> bytes \<Rightarrow> nat \<Rightarrow> bytes presult" where
  "read_bytes n buf at =
     (case get_range buf at (at + n) of
        None \<Rightarrow> Inl (buffer_bounds at n (length buf))
      | Some s \<Rightarrow> Inr s)"

definition write_bytes :: "bytes \<Rightarrow> nat \<Rightarrow> bytes \<Rightarrow> bytes presult" where
  "write_bytes buf at bs =
     (if at + length bs \<le> length buf then Inr (put_at buf at bs)
      else Inl (buffer_bounds at (length bs) (length buf)))"

definition read_u8 :: "bytes \<Rightarrow> nat \<Rightarrow> u8 presult" where
  "read_u8 buf at = rbind (read_bytes 1 buf at) (\<lambda>bs. Inr (bs ! 0))"

definition write_u8 :: "bytes \<Rightarrow> nat \<Rightarrow> u8 \<Rightarrow> bytes presult" where
  "write_u8 buf at v = write_bytes buf at [v]"

definition read_u16 :: "bytes \<Rightarrow> nat \<Rightarrow> u16 presult" where
  "read_u16 buf at = rbind (read_bytes 2 buf at) (\<lambda>bs. Inr (from_be_bytes bs))"

definition write_u16 :: "bytes \<Rightarrow> nat \<Rightarrow> u16 \<Rightarrow> bytes presult" where
  "write_u16 buf at v = write_bytes buf at (to_be_bytes 2 v)"

definition read_u32 :: "bytes \<Rightarrow> nat \<Rightarrow> u32 presult" where
  "read_u32 buf at = rbind (read_bytes 4 buf at) (\<lambda>bs. Inr (from_be_bytes bs))"

definition write_u32 :: "bytes \<Rightarrow> nat \<Rightarrow> u32 \<Rightarrow> bytes presult" where
  "write_u32 buf at v = write_bytes buf at (to_be_bytes 4 v)"

definition read_u64 :: "bytes \<Rightarrow> nat \<Rightarrow> u64 presult" where
  "read_u64 buf at = rbind (read_bytes 8 buf at) (\<lambda>bs. Inr (from_be_bytes bs))"

definition write_u64 :: "bytes \<Rightarrow> nat \<Rightarrow> u64 \<Rightarrow> bytes presult" where
  "write_u64 buf at v = write_bytes buf at (to_be_bytes 8 v)"

definition read_i64 :: "bytes \<Rightarrow> nat \<Rightarrow> i64 presult" where
  "read_i64 buf at = rbind (read_bytes 8 buf at) (\<lambda>bs. Inr (from_be_bytes bs))"

definition read_vec :: "bytes \<Rightarrow> nat \<Rightarrow> nat \<Rightarrow> bytes presult" where
  "read_vec buf at len =
     (case get_range buf at (at + len) of
        None \<Rightarrow> Inl (buffer_bounds at len (length buf))
      | Some s \<Rightarrow> Inr s)"

section \<open>The contract of a fixed-width field\<close>

lemma read_bytes_ok: "at + n \<le> length buf \<Longrightarrow> read_bytes n buf at = Inr (slice buf at n)"
  and read_bytes_err:
    "length buf < at + n \<Longrightarrow> read_bytes n buf at = Inl (buffer_bounds at n (length buf))"
  by (simp_all add: read_bytes_def get_range_slice get_range_None)

lemma read_vec_ok: "at + n \<le> length buf \<Longrightarrow> read_vec buf at n = Inr (slice buf at n)"
  and read_vec_err:
    "length buf < at + n \<Longrightarrow> read_vec buf at n = Inl (buffer_bounds at n (length buf))"
  by (simp_all add: read_vec_def get_range_slice get_range_None)

lemma write_bytes_ok: "at + length bs \<le> length buf \<Longrightarrow> write_bytes buf at bs = Inr (put_at buf at bs)"
  and write_bytes_err: "length buf < at + length bs \<Longrightarrow>
    write_bytes buf at bs = Inl (buffer_bounds at (length bs) (length buf))"
  by (simp_all add: write_bytes_def)

locale field_codec =
  fixes width :: nat
    and dec :: "bytes \<Rightarrow> 'v"
    and enc :: "'v \<Rightarrow> bytes"
    and rd :: "bytes \<Rightarrow> nat \<Rightarrow> 'v presult"
    and wr :: "bytes \<Rightarrow> nat \<Rightarrow> 'v \<Rightarrow> bytes presult"
  assumes enc_length: "length (enc v) = width"
    and dec_enc: "dec (enc v) = v"
    and rd_read: "rd buf at = rbind (read_bytes width buf at) (\<lambda>bs. Inr (dec bs))"
    and wr_write: "wr buf at v = write_bytes buf at (enc v)"
begin

lemma rd_ok: "at + width \<le> length buf \<Longrightarrow> rd buf at = Inr (dec (slice buf at width))"
  by (simp add: rd_read read_bytes_ok)

lemma rd_err: "length buf < at + width \<Longrightarrow> rd buf at = Inl (buffer_bounds at width (length buf))"
  by (simp add: rd_read read_bytes_err)

lemma wr_ok: "at + width \<le> length buf \<Longrightarrow> wr buf at v = Inr (put_at buf at (enc v))"
  by (simp add: wr_write write_bytes_ok enc_length)

lemma wr_err: "length buf < at + width \<Longrightarrow> wr buf at v = Inl (buffer_bounds at width (length buf))"
  by (simp add: wr_write write_bytes_err enc_length)

lemma wr_Inr_iff:
  "wr buf at v = Inr buf' \<longleftrightarrow> at + width \<le> length buf \<and> buf' = put_at buf at (enc v)"
  by (cases "at + width \<le> length buf") (auto simp: wr_ok wr_err)

lemma wr_length: "wr buf at v = Inr buf' \<Longrightarrow> length buf' = length buf"
  by (auto simp: wr_Inr_iff enc_length)

lemma rd_after_wr:
  assumes "wr buf at v = Inr buf'"
  shows "rd buf' at = Inr v"
proof -
  have buf': "at + length (enc v) \<le> length buf" "buf' = put_at buf at (enc v)"
    using assms by (simp_all add: wr_Inr_iff enc_length)
  then have "slice buf' at width = enc v"
    using slice_put_at_same [of at "enc v" buf] by (simp add: enc_length)
  with buf' show ?thesis by (simp add: rd_ok enc_length dec_enc)
qed

lemma rd_after_wr_elsewhere:
  assumes "wr buf at v = Inr buf'" and "i + width \<le> at \<or> at + width \<le> i"
  shows "rd buf' i = rd buf i"
proof (cases "i + width \<le> length buf")
  case True
  have "slice (put_at buf at (enc v)) i width = slice buf i width"
    using assms by (auto simp: wr_Inr_iff slice_simps enc_length)
  with assms(1) True show ?thesis by (auto simp: wr_Inr_iff rd_ok enc_length)
next
  case False
  with assms(1) show ?thesis by (auto simp: wr_Inr_iff rd_err enc_length)
qed

lemma wr_twice: "wr buf at v = Inr buf' \<Longrightarrow> wr buf' at w = wr buf at w"
  by (auto simp: wr_Inr_iff wr_ok enc_length put_at_def min_def)

end

lemma hd_slice_1: "at + 1 \<le> length buf \<Longrightarrow> slice buf at 1 ! 0 = buf ! at"
  by (simp add: slice_def)

interpretation codec_u8: field_codec 1 "\<lambda>bs. bs ! 0" "\<lambda>v. [v]" read_u8 write_u8
  by unfold_locales (simp_all add: read_u8_def write_u8_def)

interpretation codec_u16: field_codec 2 from_be_bytes "to_be_bytes 2 :: u16 \<Rightarrow> bytes" read_u16 write_u16
  by unfold_locales (simp_all add: read_u16_def write_u16_def)

interpretation codec_u32: field_codec 4 from_be_bytes "to_be_bytes 4 :: u32 \<Rightarrow> bytes" read_u32 write_u32
  by unfold_locales (simp_all add: read_u32_def write_u32_def)

interpretation codec_u64: field_codec 8 from_be_bytes "to_be_bytes 8 :: u64 \<Rightarrow> bytes" read_u64 write_u64
  by unfold_locales (simp_all add: read_u64_def write_u64_def)

text \<open>The value of a field in bounds, as a total function of the buffer.\<close>

definition u8_at :: "bytes \<Rightarrow> nat \<Rightarrow> u8" where
  "u8_at buf at = slice buf at 1 ! 0"

definition u16_at :: "bytes \<Rightarrow> nat \<Rightarrow> u16" where
  "u16_at buf at = from_be_bytes (slice buf at 2)"

definition u32_at :: "bytes \<Rightarrow> nat \<Rightarrow> u32" where
  "u32_at buf at = from_be_bytes (slice buf at 4)"

definition u64_at :: "bytes \<Rightarrow> nat \<Rightarrow> u64" where
  "u64_at buf at = from_be_bytes (slice buf at 8)"

lemmas field_at_defs = u8_at_def u16_at_def u32_at_def u64_at_def

lemma read_i64_u64: "read_i64 = read_u64"
  by (intro ext) (simp add: read_i64_def read_u64_def)

lemma read_u8_ok: "at + 1 \<le> length buf \<Longrightarrow> read_u8 buf at = Inr (u8_at buf at)"
  and read_u16_ok: "at + 2 \<le> length buf \<Longrightarrow> read_u16 buf at = Inr (u16_at buf at)"
  and read_u32_ok: "at + 4 \<le> length buf \<Longrightarrow> read_u32 buf at = Inr (u32_at buf at)"
  and read_u64_ok: "at + 8 \<le> length buf \<Longrightarrow> read_u64 buf at = Inr (u64_at buf at)"
  and read_i64_ok: "at + 8 \<le> length buf \<Longrightarrow> read_i64 buf at = Inr (u64_at buf at)"
  by (simp_all only: codec_u8.rd_ok codec_u16.rd_ok codec_u32.rd_ok codec_u64.rd_ok
      read_i64_u64 field_at_defs)

lemmas read_oks = read_u8_ok read_u16_ok read_u32_ok read_u64_ok read_i64_ok read_vec_ok
lemmas write_oks = codec_u8.wr_ok codec_u16.wr_ok codec_u32.wr_ok codec_u64.wr_ok write_bytes_ok

lemma field_at_put_same [slice_simps]:
  "at + 1 \<le> length buf \<Longrightarrow> u8_at (put_at buf at [b]) at = b"
  "at + 2 \<le> length buf \<Longrightarrow> u16_at (put_at buf at (to_be_bytes 2 w2)) at = w2"
  "at + 4 \<le> length buf \<Longrightarrow> u32_at (put_at buf at (to_be_bytes 4 w4)) at = w4"
  "at + 8 \<le> length buf \<Longrightarrow> u64_at (put_at buf at (to_be_bytes 8 w8)) at = w8"
  using slice_put_at_same [of at "[b]" buf] slice_put_at_same [of at "to_be_bytes 2 w2" buf]
    slice_put_at_same [of at "to_be_bytes 4 w4" buf] slice_put_at_same [of at "to_be_bytes 8 w8" buf]
  by (simp_all add: field_at_defs)

lemma field_at_put_other:
  assumes "at + length bs \<le> length buf"
  shows "i + 1 \<le> at \<or> at + length bs \<le> i \<Longrightarrow> u8_at (put_at buf at bs) i = u8_at buf i"
    and "i + 2 \<le> at \<or> at + length bs \<le> i \<Longrightarrow> u16_at (put_at buf at bs) i = u16_at buf i"
    and "i + 4 \<le> at \<or> at + length bs \<le> i \<Longrightarrow> u32_at (put_at buf at bs) i = u32_at buf i"
    and "i + 8 \<le> at \<or> at + length bs \<le> i \<Longrightarrow> u64_at (put_at buf at bs) i = u64_at buf i"
  using assms by (auto simp: field_at_defs slice_simps)

lemma field_at_take:
  "i + 1 \<le> k \<Longrightarrow> u8_at (take k buf) i = u8_at buf i"
  "i + 2 \<le> k \<Longrightarrow> u16_at (take k buf) i = u16_at buf i"
  "i + 4 \<le> k \<Longrightarrow> u32_at (take k buf) i = u32_at buf i"
  "i + 8 \<le> k \<Longrightarrow> u64_at (take k buf) i = u64_at buf i"
  by (simp_all add: field_at_defs slice_take)

section \<open>Claims\<close>

text \<open>
  A \<open>u32\<close> written at an offset is read back from there, only fields that
  overlap it change, the buffer keeps its length, and the write fails exactly when the field leaves
  the buffer.
\<close>
lemma write_u32_read:
  "(case write_u32 buf at v of
      Inl e \<Rightarrow> length buf < at + 4 \<and> e = buffer_bounds at 4 (length buf)
    | Inr buf' \<Rightarrow> at + 4 \<le> length buf \<and> length buf' = length buf \<and> read_u32 buf' at = Inr v \<and>
        {i. read_u32 buf' i \<noteq> read_u32 buf i} \<subseteq> {i. at < i + 4 \<and> i < at + 4})"
proof (cases "at + 4 \<le> length buf")
  case True
  then obtain buf' where b: "write_u32 buf at v = Inr buf'" by (simp add: codec_u32.wr_ok)
  with True show ?thesis
    using codec_u32.rd_after_wr [OF b] codec_u32.wr_length [OF b] codec_u32.rd_after_wr_elsewhere [OF b] by (simp add: subset_iff) (meson not_le)
qed (simp add: codec_u32.wr_err)

end
