(* ===== verification/Page.thy ===== *)
theory Page
  imports Codec
begin

text \<open>
  \<open>crates/pinax/src/page.rs\<close>: the page size newtype, the layout constants and the
  checksum trailer. The hash itself (\<open>xxhash_rust::xxh3::xxh3_64\<close>) is a third-party
  function; every definition that needs it takes it as the argument \<open>xxh\<close>.
\<close>

unbundle bit_operations_syntax

section \<open>Constants\<close>

definition CHECKSUM_LEN :: nat where "CHECKSUM_LEN = 8"
definition checksum_len_u32 :: u32 where "checksum_len_u32 = 8"
definition checksum_len_u16 :: u16 where "checksum_len_u16 = 8"
definition MIN_PAGE_SIZE :: u32 where "MIN_PAGE_SIZE = 4096"
definition MAX_PAGE_SIZE :: u32 where "MAX_PAGE_SIZE = 65536"
definition META_SLOT_LEN :: u64 where "META_SLOT_LEN = 4096"
definition META_REGION_LEN :: u64 where "META_REGION_LEN = META_SLOT_LEN * 2"
definition FIRST_DATA_PAGE_ID :: u32 where "FIRST_DATA_PAGE_ID = 2"
definition EMPTY_TREE_ROOT :: u32 where "EMPTY_TREE_ROOT = 0"
definition PAGE_TYPE_LEAF :: u8 where "PAGE_TYPE_LEAF = 1"
definition PAGE_TYPE_INTERIOR :: u8 where "PAGE_TYPE_INTERIOR = 2"
definition PAGE_TYPE_OVERFLOW :: u8 where "PAGE_TYPE_OVERFLOW = 3"

lemmas page_consts = CHECKSUM_LEN_def checksum_len_u32_def checksum_len_u16_def
  MIN_PAGE_SIZE_def MAX_PAGE_SIZE_def META_SLOT_LEN_def META_REGION_LEN_def
  FIRST_DATA_PAGE_ID_def EMPTY_TREE_ROOT_def
  PAGE_TYPE_LEAF_def PAGE_TYPE_INTERIOR_def PAGE_TYPE_OVERFLOW_def

section \<open>PageSize\<close>

datatype page_size = PageSize (page_bytes: u32)

definition DEFAULT_PAGE_SIZE :: page_size where
  "DEFAULT_PAGE_SIZE = PageSize 4096"

text \<open>\<open>u32::saturating_sub\<close>, and \<open>u32::is_power_of_two\<close> (one bit set).\<close>

definition saturating_sub :: "'a::len word \<Rightarrow> 'a word \<Rightarrow> 'a word" where
  "saturating_sub a b = (if b \<le> a then a - b else 0)"

definition is_power_of_two :: "u32 \<Rightarrow> bool" where
  "is_power_of_two w \<longleftrightarrow> length (filter (bit w) [0..<32]) = 1"

definition bytes_usize :: "page_size \<Rightarrow> nat" where
  "bytes_usize ps = unat (page_bytes ps)"

definition usable_space :: "page_size \<Rightarrow> u32" where
  "usable_space ps = page_bytes ps - checksum_len_u32"

definition max_local :: "page_size \<Rightarrow> u32" where
  "max_local ps = saturating_sub (usable_space ps) 35"

definition page_size_try_from :: "u32 \<Rightarrow> page_size presult" where
  "page_size_try_from v =
     (if is_power_of_two v \<and> MIN_PAGE_SIZE \<le> v \<and> v \<le> MAX_PAGE_SIZE
      then Inr (PageSize v) else Inl (Permanent (InvalidPageSize v)))"

section \<open>Checksums\<close>

definition compute_checksum :: "(bytes \<Rightarrow> u64) \<Rightarrow> bytes \<Rightarrow> u64" where
  "compute_checksum xxh buf =
     (let content_len = length buf - CHECKSUM_LEN;
          content = (case get_range buf 0 content_len of Some c \<Rightarrow> c | None \<Rightarrow> buf)
      in xxh content)"

definition stamp_checksum :: "(bytes \<Rightarrow> u64) \<Rightarrow> bytes \<Rightarrow> bytes presult" where
  "stamp_checksum xxh buf =
     (let checksum = compute_checksum xxh buf; at = length buf - CHECKSUM_LEN
      in write_u64 buf at checksum)"

definition verify_checksum :: "(bytes \<Rightarrow> u64) \<Rightarrow> bytes \<Rightarrow> (u64 \<times> u64) + unit" where
  "verify_checksum xxh buf =
     (let expected = (case read_u64 buf (length buf - CHECKSUM_LEN) of Inr v \<Rightarrow> v | Inl _ \<Rightarrow> 0);
          actual = compute_checksum xxh buf
      in if expected = actual then Inr () else Inl (expected, actual))"

section \<open>Lemmas\<close>

text \<open>The five sizes the format permits.\<close>

definition valid_page_size :: "u32 \<Rightarrow> bool" where
  "valid_page_size v \<longleftrightarrow> v \<in> {4096, 8192, 16384, 32768, 65536}"

lemma filter_single:
  assumes "length (filter P xs) = 1"
  obtains k where "k \<in> set xs" "\<And>n. n \<in> set xs \<Longrightarrow> P n \<longleftrightarrow> n = k"
proof -
  from assms obtain k where k: "filter P xs = [k]"
    by (auto simp: length_Suc_conv)
  have "n \<in> set xs \<Longrightarrow> P n \<longleftrightarrow> n = k" for n
  proof -
    assume "n \<in> set xs"
    then have "P n \<longleftrightarrow> n \<in> set (filter P xs)" by simp
    also have "\<dots> \<longleftrightarrow> n = k" by (simp add: k)
    finally show ?thesis .
  qed
  moreover have "k \<in> set (filter P xs)" by (simp add: k)
  then have "k \<in> set xs" by simp
  ultimately show thesis using that by blast
qed

lemma is_power_of_two_cases:
  assumes "is_power_of_two w"
  obtains k where "k < 32" "w = 2 ^ k"
proof -
  have "length (filter (bit w) [0..<32]) = 1" using assms by (simp add: is_power_of_two_def)
  then obtain k where "k \<in> set [0..<32]" "\<And>n. n \<in> set [0..<32] \<Longrightarrow> bit w n \<longleftrightarrow> n = k"
    by (rule filter_single) blast
  then have k: "k < 32" "\<And>n. n < 32 \<Longrightarrow> bit w n \<longleftrightarrow> n = k" by simp_all
  have "w = 2 ^ k"
    by (rule bit_word_eqI) (use k in \<open>auto simp: bit_exp_iff\<close>)
  with k(1) that show thesis by blast
qed

lemma page_size_try_from_valid: "valid_page_size v \<Longrightarrow> page_size_try_from v = Inr (PageSize v)"
proof -
  assume "valid_page_size v"
  then have "is_power_of_two v \<and> MIN_PAGE_SIZE \<le> v \<and> v \<le> MAX_PAGE_SIZE"
    unfolding valid_page_size_def by (elim insertE; simp add: is_power_of_two_def page_consts) (code_simp+)
  then show ?thesis by (simp add: page_size_try_from_def)
qed

lemma pow2_page_sizes:
  assumes "k < (32::nat)" "(4096 :: u32) \<le> 2 ^ k" "2 ^ k \<le> (65536 :: u32)"
  shows "valid_page_size (2 ^ k)"
proof -
  have "(2::nat) ^ k < 2 ^ 32" using assms(1) by (rule power_strict_increasing) simp
  then have "unat (of_nat (2 ^ k) :: u32) = 2 ^ k" by (simp add: unat_of_nat del: of_nat_power)
  then have "unat (2 ^ k :: u32) = 2 ^ k" by simp
  then have nat: "(4096::nat) \<le> 2 ^ k" "2 ^ k \<le> (65536::nat)"
    using assms(2,3) by (simp_all add: word_le_nat_alt)
  have "\<not> k < 12"
  proof
    assume "k < 12"
    then have "(2::nat) ^ k < 2 ^ 12" by (rule power_strict_increasing) simp
    with nat(1) show False by simp
  qed
  moreover have "\<not> 16 < k"
  proof
    assume "16 < k"
    then have "(2::nat) ^ 16 < 2 ^ k" by (rule power_strict_increasing) simp
    with nat(2) show False by simp
  qed
  ultimately have "k = 12 \<or> k = 13 \<or> k = 14 \<or> k = 15 \<or> k = 16" by arith
  then show ?thesis by (auto simp: valid_page_size_def)
qed

lemma page_size_try_from_invalid:
  "\<not> valid_page_size v \<Longrightarrow> page_size_try_from v = Inl (Permanent (InvalidPageSize v))"
  by (auto simp: page_size_try_from_def page_consts elim!: is_power_of_two_cases
      dest: pow2_page_sizes)

interpretation page_size_newtype:
  validated_newtype valid_page_size PageSize page_bytes
    "\<lambda>v. Permanent (InvalidPageSize v)" page_size_try_from
  by unfold_locales (simp_all add: page_size_try_from_valid page_size_try_from_invalid)

lemma valid_page_size_cases:
  assumes "valid_page_size (page_bytes ps)"
  obtains "bytes_usize ps = 4096" | "bytes_usize ps = 8192" | "bytes_usize ps = 16384"
    | "bytes_usize ps = 32768" | "bytes_usize ps = 65536"
  using assms by (auto simp: valid_page_size_def bytes_usize_def)

lemma valid_page_size_bounds:
  assumes "valid_page_size (page_bytes ps)"
  shows "4096 \<le> bytes_usize ps" "bytes_usize ps \<le> 65536"
  using assms by (auto elim: valid_page_size_cases)

lemma unat_usable_space:
  "8 \<le> bytes_usize ps \<Longrightarrow> unat (usable_space ps) = bytes_usize ps - 8"
  by (simp add: usable_space_def bytes_usize_def page_consts unat_sub word_le_nat_alt)

lemma unat_max_local:
  "43 \<le> bytes_usize ps \<Longrightarrow> unat (max_local ps) = bytes_usize ps - 43"
  using unat_usable_space [of ps]
  by (simp add: max_local_def saturating_sub_def word_le_nat_alt unat_sub)

text \<open>What a page carries besides its trailer.\<close>

definition page_body :: "bytes \<Rightarrow> bytes" where
  "page_body buf = take (length buf - 8) buf"

lemma compute_checksum_body: "compute_checksum xxh buf = xxh (page_body buf)"
  by (simp add: compute_checksum_def get_range_def page_body_def page_consts)

lemma stamp_checksum_ok:
  "8 \<le> length buf \<Longrightarrow>
     stamp_checksum xxh buf = Inr (page_body buf @ to_be_bytes 8 (xxh (page_body buf)))"
  by (simp add: stamp_checksum_def codec_u64.wr_ok page_consts put_at_def
      compute_checksum_body page_body_def)

lemma stamp_checksum_err: "length buf < 8 \<Longrightarrow> stamp_checksum xxh buf = Inl (buffer_bounds 0 8 (length buf))"
  by (simp add: stamp_checksum_def codec_u64.wr_err page_consts)

lemma verify_checksum_long:
  "8 \<le> length buf \<Longrightarrow>
     verify_checksum xxh buf = (if u64_at buf (length buf - 8) = xxh (page_body buf) then Inr ()
       else Inl (u64_at buf (length buf - 8), xxh (page_body buf)))"
  by (simp add: verify_checksum_def read_u64_ok compute_checksum_body page_consts Let_def)

lemma stamped:
  assumes "stamp_checksum xxh buf = Inr buf'"
  shows "length buf' = length buf" "page_body buf' = page_body buf" "verify_checksum xxh buf' = Inr ()"
proof -
  have 8: "8 \<le> length buf" using assms by (cases "8 \<le> length buf") (simp_all add: stamp_checksum_err)
  then have buf': "buf' = page_body buf @ to_be_bytes 8 (xxh (page_body buf))"
    using assms by (simp add: stamp_checksum_ok)
  have len: "length (page_body buf) = length buf - 8" by (simp add: page_body_def)
  show l: "length buf' = length buf" using 8 by (simp add: buf' len)
  show b: "page_body buf' = page_body buf"
    unfolding page_body_def [of buf'] by (simp only: l) (simp add: buf' len)
  have "u64_at buf' (length buf' - 8) = xxh (page_body buf)"
    by (simp add: l u64_at_def buf' slice_def len)
  then show "verify_checksum xxh buf' = Inr ()"
    using 8 by (simp add: verify_checksum_long l b)
qed

section \<open>Claims\<close>

text \<open>Exactly the five powers of two from 4096 to 65536 are accepted as page sizes.\<close>
lemma page_sizes_accepted:
  "page_size_try_from v =
     (if v \<in> {4096, 8192, 16384, 32768, 65536} then Inr (PageSize v) else Inl (Permanent (InvalidPageSize v)))"
  using page_size_try_from_valid page_size_try_from_invalid by (auto simp: valid_page_size_def)

text \<open>
  A stamped page verifies and differs from the page it was made from in the eight trailer
  bytes only; stamping fails exactly on a buffer with no room for the trailer.
\<close>
lemma stamped_page_verifies:
  "(case stamp_checksum xxh buf of
      Inl e \<Rightarrow> length buf < 8
    | Inr buf' \<Rightarrow> 8 \<le> length buf \<and> verify_checksum xxh buf' = Inr () \<and> length buf' = length buf \<and>
        page_body buf' = page_body buf)"
proof (cases "8 \<le> length buf")
  case True
  then obtain buf' where "stamp_checksum xxh buf = Inr buf'" by (simp add: stamp_checksum_ok)
  with True stamped [OF this] show ?thesis by simp
qed (simp add: stamp_checksum_err)

end
