(* ===== verification/File_Model.thy ===== *)
theory File_Model
  imports Errors
begin

text \<open>
  The part of \<open>std::fs\<close> the pager uses. A file has the bytes that are on stable
  storage, the writes issued since the last successful sync, and a schedule of I/O faults:
  every call takes the next entry, \<open>Some k\<close> makes it fail (a write then has transferred
  its first \<open>k\<close> bytes), \<open>None\<close> or an exhausted schedule lets it succeed. Every I/O
  error path of the code is thereby a run of the model.

  A crash keeps, byte by byte, either what was on stable storage or what some unsynced write
  put there (\<open>crash_image\<close>): unsynced writes may be lost, reordered or torn at any byte.
  A sync that fails leaves the writes unsynced.
\<close>

section \<open>Files\<close>

record dbfile =
  f_durable :: bytes
  f_pending :: "(nat \<times> bytes) list"
  f_faults :: "nat option list"

definition overwrite :: "bytes \<Rightarrow> nat \<Rightarrow> bytes \<Rightarrow> bytes" where
  "overwrite c off bs =
     (if bs = [] then c
      else put_at (c @ replicate (off + length bs - length c) 0) off bs)"

definition apply_writes :: "bytes \<Rightarrow> (nat \<times> bytes) list \<Rightarrow> bytes" where
  "apply_writes c ws = foldl (\<lambda>c (off, bs). overwrite c off bs) c ws"

text \<open>What a read sees: the stable bytes with every write so far applied.\<close>

definition contents :: "dbfile \<Rightarrow> bytes" where
  "contents f = apply_writes (f_durable f) (f_pending f)"

definition io_tick :: "dbfile \<Rightarrow> nat option \<times> dbfile" where
  "io_tick f =
     (case f_faults f of [] \<Rightarrow> (None, f) | x # xs \<Rightarrow> (x, f\<lparr>f_faults := xs\<rparr>))"

definition push_write :: "nat \<Rightarrow> bytes \<Rightarrow> dbfile \<Rightarrow> dbfile" where
  "push_write off bs f = f\<lparr>f_pending := f_pending f @ [(off, bs)]\<rparr>"

definition write_all_at :: "bytes \<Rightarrow> nat \<Rightarrow> (dbfile, io_error, unit) smethod" where
  "write_all_at bs off f =
     (case io_tick f of
        (None, f') \<Rightarrow> (Inr (), push_write off bs f')
      | (Some k, f') \<Rightarrow> (Inl IoOther, push_write off (take k bs) f'))"

definition read_exact_at :: "nat \<Rightarrow> nat \<Rightarrow> (dbfile, io_error, bytes) smethod" where
  "read_exact_at n off f =
     (case io_tick f of
        (None, f') \<Rightarrow>
          (case get_range (contents f') off (off + n) of
             Some bs \<Rightarrow> (Inr bs, f') | None \<Rightarrow> (Inl IoUnexpectedEof, f'))
      | (Some k, f') \<Rightarrow> (Inl IoOther, f'))"

definition file_len :: "(dbfile, io_error, nat) smethod" where
  "file_len f =
     (case io_tick f of
        (None, f') \<Rightarrow> (Inr (length (contents f')), f')
      | (Some k, f') \<Rightarrow> (Inl IoOther, f'))"

text \<open>\<open>set_len\<close>: growing fills with zeros, shrinking drops what lies past the end.\<close>

definition set_len :: "nat \<Rightarrow> (dbfile, io_error, unit) smethod" where
  "set_len n f =
     (case io_tick f of
        (None, f') \<Rightarrow>
          (let len = length (contents f')
           in if len \<le> n then (Inr (), push_write len (replicate (n - len) 0) f')
              else (Inr (), f'\<lparr>f_durable := take n (f_durable f'),
                               f_pending := map (\<lambda>(off, bs). (off, take (n - off) bs)) (f_pending f')\<rparr>))
      | (Some k, f') \<Rightarrow> (Inl IoOther, f'))"

definition file_sync :: "(dbfile, io_error, unit) smethod" where
  "file_sync f =
     (case io_tick f of
        (None, f') \<Rightarrow> (Inr (), f'\<lparr>f_durable := contents f', f_pending := []\<rparr>)
      | (Some k, f') \<Rightarrow> (Inl IoOther, f'))"

section \<open>Directories\<close>

text \<open>
  The files by path, a schedule of faults for the calls that open one (\<open>True\<close> fails),
  and the fault schedule a newly created file gets.
\<close>

record filesystem =
  fs_files :: "path \<Rightarrow> dbfile option"
  fs_open_faults :: "bool list"
  fs_new_faults :: "nat option list"

definition open_tick :: "filesystem \<Rightarrow> bool \<times> filesystem" where
  "open_tick fs =
     (case fs_open_faults fs of [] \<Rightarrow> (False, fs) | x # xs \<Rightarrow> (x, fs\<lparr>fs_open_faults := xs\<rparr>))"

definition put_file :: "path \<Rightarrow> dbfile \<Rightarrow> filesystem \<Rightarrow> filesystem" where
  "put_file p f fs = fs\<lparr>fs_files := (fs_files fs)(p := Some f)\<rparr>"

definition open_create_new :: "path \<Rightarrow> (filesystem, io_error, dbfile) smethod" where
  "open_create_new p fs =
     (case open_tick fs of
        (True, fs') \<Rightarrow> (Inl IoOther, fs')
      | (False, fs') \<Rightarrow>
          (case fs_files fs' p of
             Some f \<Rightarrow> (Inl IoAlreadyExists, fs')
           | None \<Rightarrow>
               (let f = \<lparr>f_durable = [], f_pending = [], f_faults = fs_new_faults fs'\<rparr>
                in (Inr f, put_file p f fs'))))"

definition open_existing :: "path \<Rightarrow> (filesystem, io_error, dbfile) smethod" where
  "open_existing p fs =
     (case open_tick fs of
        (True, fs') \<Rightarrow> (Inl IoOther, fs')
      | (False, fs') \<Rightarrow>
          (case fs_files fs' p of Some f \<Rightarrow> (Inr f, fs') | None \<Rightarrow> (Inl IoNotFound, fs')))"

section \<open>Crashes\<close>

definition byte_at :: "bytes \<Rightarrow> nat \<Rightarrow> u8" where
  "byte_at c i = (if i < length c then c ! i else 0)"

definition writes_at :: "(nat \<times> bytes) list \<Rightarrow> nat \<Rightarrow> u8 list" where
  "writes_at ws i =
     map (\<lambda>(off, bs). bs ! (i - off)) (filter (\<lambda>(off, bs). off \<le> i \<and> i < off + length bs) ws)"

definition crash_image :: "dbfile \<Rightarrow> bytes \<Rightarrow> bool" where
  "crash_image f c \<longleftrightarrow>
     length (f_durable f) \<le> length c \<and> length c \<le> length (contents f) \<and>
     list_all (\<lambda>i. c ! i = byte_at (f_durable f) i \<or> c ! i \<in> set (writes_at (f_pending f) i))
       [0..<length c]"

text \<open>The file a crash leaves, with a fresh fault schedule for the next run.\<close>

definition after_crash :: "bytes \<Rightarrow> nat option list \<Rightarrow> dbfile" where
  "after_crash c fl = \<lparr>f_durable = c, f_pending = [], f_faults = fl\<rparr>"

section \<open>Lemmas\<close>

definition fault_free :: "dbfile \<Rightarrow> bool" where
  "fault_free f \<longleftrightarrow> list_all (\<lambda>x. x = None) (f_faults f)"

lemma length_overwrite: "length (overwrite c off bs) = (if bs = [] then length c else max (length c) (off + length bs))"
  by (auto simp: overwrite_def)

lemma slice_pad: "i + n \<le> length c \<Longrightarrow> slice (c @ p) i n = slice c i n"
  by (simp add: slice_append_left)

lemma slice_overwrite_other:
  assumes "i + n \<le> off \<or> off + length bs \<le> i" "i + n \<le> length c"
  shows "slice (overwrite c off bs) i n = slice c i n"
  using assms by (auto simp: overwrite_def slice_simps slice_pad)

lemma slice_overwrite_same: "slice (overwrite c off bs) off (length bs) = bs"
  by (simp add: overwrite_def slice_put_at_same) (simp add: slice_def)

lemma apply_writes_Nil [simp]: "apply_writes c [] = c"
  and apply_writes_snoc [simp]: "apply_writes c (ws @ [(off, bs)]) = overwrite (apply_writes c ws) off bs"
  by (simp_all add: apply_writes_def)

lemma io_tick_fields:
  assumes "io_tick f = (x, f')"
  shows "f_durable f' = f_durable f" "f_pending f' = f_pending f" "contents f' = contents f"
    "fault_free f \<Longrightarrow> x = None \<and> fault_free f'"
  using assms by (auto simp: io_tick_def contents_def fault_free_def split: list.splits)

lemma io_tick_fault_free:
  assumes "fault_free f"
  obtains f' where "io_tick f = (None, f')" "fault_free f'" "contents f' = contents f"
    "f_durable f' = f_durable f" "f_pending f' = f_pending f"
  using assms io_tick_fields [of f "fst (io_tick f)" "snd (io_tick f)"]
  by (metis prod.collapse)

lemma contents_push_write [simp]: "contents (push_write off bs f) = overwrite (contents f) off bs"
  and durable_push_write [simp]: "f_durable (push_write off bs f) = f_durable f"
  and pending_push_write [simp]: "f_pending (push_write off bs f) = f_pending f @ [(off, bs)]"
  and fault_free_push_write [simp]: "fault_free (push_write off bs f) = fault_free f"
  by (simp_all add: push_write_def contents_def fault_free_def)

lemma write_all_at_fault_free:
  assumes "fault_free f"
  obtains f' where "write_all_at bs off f = (Inr (), f')" "fault_free f'"
    "contents f' = overwrite (contents f) off bs" "f_durable f' = f_durable f"
    "f_pending f' = f_pending f @ [(off, bs)]"
  using assms by (rule io_tick_fault_free) (use that in \<open>simp add: write_all_at_def\<close>)

lemma read_exact_at_fault_free:
  assumes "fault_free f" "off + n \<le> length (contents f)"
  obtains f' where "read_exact_at n off f = (Inr (slice (contents f) off n), f')" "fault_free f'"
    "contents f' = contents f" "f_durable f' = f_durable f" "f_pending f' = f_pending f"
  using assms(1) by (rule io_tick_fault_free)
    (use that assms(2) in \<open>simp add: read_exact_at_def get_range_slice\<close>)

lemma file_len_fault_free:
  assumes "fault_free f"
  obtains f' where "file_len f = (Inr (length (contents f)), f')" "fault_free f'"
    "contents f' = contents f" "f_durable f' = f_durable f" "f_pending f' = f_pending f"
  using assms by (rule io_tick_fault_free) (use that in \<open>simp add: file_len_def\<close>)

lemma file_sync_fault_free:
  assumes "fault_free f"
  obtains f' where "file_sync f = (Inr (), f')" "fault_free f'"
    "contents f' = contents f" "f_durable f' = contents f" "f_pending f' = []"
  using assms by (rule io_tick_fault_free)
    (use that in \<open>simp add: file_sync_def fault_free_def contents_def\<close>)

lemma contents_synced: "f_pending f = [] \<Longrightarrow> contents f = f_durable f"
  by (simp add: contents_def)

lemma contents_after_crash [simp]: "contents (after_crash c fl) = c"
  by (simp add: contents_def after_crash_def)

text \<open>A synced file has one crash image: itself.\<close>

lemma crash_image_synced:
  assumes "f_pending f = []" "crash_image f c"
  shows "c = contents f"
proof (rule nth_equalityI)
  show len: "length c = length (contents f)"
    using assms by (auto simp: crash_image_def contents_synced)
  fix i
  assume "i < length c"
  with assms len show "c ! i = contents f ! i"
    by (auto simp: crash_image_def list_all_iff writes_at_def byte_at_def contents_synced)
qed

text \<open>A region no unsynced write touches comes through every crash.\<close>

definition untouched :: "(nat \<times> bytes) list \<Rightarrow> nat \<Rightarrow> nat \<Rightarrow> bool" where
  "untouched ws lo n \<longleftrightarrow> list_all (\<lambda>(off, bs). off + length bs \<le> lo \<or> lo + n \<le> off) ws"

lemma untouched_snoc [simp]:
  "untouched (ws @ [(off, bs)]) lo n \<longleftrightarrow> untouched ws lo n \<and> (off + length bs \<le> lo \<or> lo + n \<le> off)"
  by (simp add: untouched_def)

lemma untouched_Nil [simp]: "untouched [] lo n"
  by (simp add: untouched_def)

lemma writes_at_untouched: "untouched ws lo n \<Longrightarrow> lo \<le> i \<Longrightarrow> i < lo + n \<Longrightarrow> writes_at ws i = []"
  by (auto simp: untouched_def writes_at_def filter_empty_conv list_all_iff)

lemma crash_image_untouched:
  assumes "crash_image f c" "untouched (f_pending f) lo n" "lo + n \<le> length (f_durable f)"
  shows "slice c lo n = slice (f_durable f) lo n"
proof (rule nth_equalityI)
  have len: "length (f_durable f) \<le> length c" using assms(1) by (simp add: crash_image_def)
  then show "length (slice c lo n) = length (slice (f_durable f) lo n)"
    using assms(3) by simp
  fix i
  assume "i < length (slice c lo n)"
  then have i: "i < n" using assms(3) len by simp
  have "writes_at (f_pending f) (lo + i) = []"
    using assms(2) i by (intro writes_at_untouched) auto
  moreover have "c ! (lo + i) = byte_at (f_durable f) (lo + i) \<or>
      c ! (lo + i) \<in> set (writes_at (f_pending f) (lo + i))"
    using assms i len by (simp add: crash_image_def list_all_iff)
  ultimately have "c ! (lo + i) = f_durable f ! (lo + i)"
    using assms(3) i by (simp add: byte_at_def)
  then show "slice c lo n ! i = slice (f_durable f) lo n ! i"
    using i assms(3) len by (simp add: slice_def)
qed

lemma contents_untouched:
  assumes "untouched ws lo n" "lo + n \<le> length c"
  shows "slice (apply_writes c ws) lo n = slice c lo n \<and> lo + n \<le> length (apply_writes c ws)"
  using assms
proof (induction ws rule: rev_induct)
  case Nil
  then show ?case by simp
next
  case (snoc w ws)
  obtain off bs where w: "w = (off, bs)" by fastforce
  from snoc have IH: "slice (apply_writes c ws) lo n = slice c lo n" "lo + n \<le> length (apply_writes c ws)"
    by (auto simp: w)
  have "slice (overwrite (apply_writes c ws) off bs) lo n = slice (apply_writes c ws) lo n"
    using snoc.prems IH(2) by (intro slice_overwrite_other) (auto simp: w)
  with IH show ?case by (auto simp: w length_overwrite)
qed

lemma file_sync_cases:
  assumes "file_sync f = (r, f')"
  obtains (ok) "r = Inr ()" "f_durable f' = contents f" "f_pending f' = []"
    | (failed) e where "r = Inl e" "f_durable f' = f_durable f" "f_pending f' = f_pending f"
  using assms io_tick_fields(1,2,3) [of f "fst (io_tick f)" "snd (io_tick f)"]
  by (cases "io_tick f"; cases "fst (io_tick f)") (auto simp: file_sync_def)

lemma write_all_at_cases:
  assumes "write_all_at bs off f = (r, f')"
  obtains (ok) "r = Inr ()" "f_durable f' = f_durable f" "f_pending f' = f_pending f @ [(off, bs)]"
    | (failed) e k where "r = Inl e" "f_durable f' = f_durable f" "f_pending f' = f_pending f @ [(off, take k bs)]"
  using assms io_tick_fields(1,2) [of f "fst (io_tick f)" "snd (io_tick f)"]
  by (cases "io_tick f"; cases "fst (io_tick f)") (auto simp: write_all_at_def)

lemma crash_image_one_write:
  assumes "crash_image f c" "f_pending f = [(off, bs)]" "off + n \<le> length (f_durable f)"
    and "i < n"
  shows "slice c off n ! i = slice (f_durable f) off n ! i \<or> i < length bs \<and> slice c off n ! i = bs ! i"
proof -
  have len: "length (f_durable f) \<le> length c" using assms(1) by (simp add: crash_image_def)
  have "c ! (off + i) = byte_at (f_durable f) (off + i) \<or> c ! (off + i) \<in> set (writes_at (f_pending f) (off + i))"
    using assms len by (simp add: crash_image_def list_all_iff)
  then have "c ! (off + i) = f_durable f ! (off + i) \<or> i < length bs \<and> c ! (off + i) = bs ! i"
    using assms by (auto simp: byte_at_def writes_at_def split: if_splits)
  then show ?thesis using assms len by (simp add: slice_def)
qed

text \<open>A directory with no files, in which every call succeeds.\<close>

definition empty_fs :: filesystem where
  "empty_fs = \<lparr>fs_files = (\<lambda>_. None), fs_open_faults = [], fs_new_faults = []\<rparr>"

lemma empty_fs_sel [simp]:
  "fs_open_faults empty_fs = []" "fs_files empty_fs path = None" "fs_new_faults empty_fs = []"
  by (simp_all add: empty_fs_def)

lemma length_apply_writes: "length c \<le> length (apply_writes c ws)"
proof (induction ws rule: rev_induct)
  case (snoc w ws)
  then show ?case by (cases w) (auto simp: length_overwrite)
qed simp

lemma crash_image_lost: "crash_image f (f_durable f)"
  using length_apply_writes by (auto simp: crash_image_def list_all_iff byte_at_def contents_def)

end
