(* ===== verification/Pager.thy ===== *)
theory Pager
  imports Page File_Model
begin

text \<open>
  \<open>crates/pinax/src/pager.rs\<close>: the file-backed page store with two meta slots. The
  pager record holds the open file beside the fields of the Rust struct; every method that
  performs I/O returns the new pager also when it fails, so what a failed call leaves in
  memory and in the file is part of the model.
\<close>

section \<open>Meta slots\<close>

definition META_MAGIC :: bytes where "META_MAGIC = [0x50, 0x4E, 0x58, 0x31]"
definition META_FORMAT_VERSION :: u16 where "META_FORMAT_VERSION = 1"
definition OFFSET_MAGIC :: nat where "OFFSET_MAGIC = 0"
definition OFFSET_VERSION :: nat where "OFFSET_VERSION = 4"
definition OFFSET_PAGE_SIZE :: nat where "OFFSET_PAGE_SIZE = 6"
definition OFFSET_TXN_ID :: nat where "OFFSET_TXN_ID = 10"
definition OFFSET_ROOT :: nat where "OFFSET_ROOT = 18"
definition OFFSET_PAGE_COUNT :: nat where "OFFSET_PAGE_COUNT = 22"
definition OFFSET_FREELIST_HEAD :: nat where "OFFSET_FREELIST_HEAD = 26"

lemmas meta_consts = META_MAGIC_def META_FORMAT_VERSION_def OFFSET_MAGIC_def OFFSET_VERSION_def
  OFFSET_PAGE_SIZE_def OFFSET_TXN_ID_def OFFSET_ROOT_def OFFSET_PAGE_COUNT_def
  OFFSET_FREELIST_HEAD_def

record meta_content =
  mc_page_size :: page_size
  mc_txn_id :: u64
  mc_root_page_id :: u32
  mc_page_count :: u32

text \<open>\<open>Result::ok\<close> followed by the question mark on an \<open>Option\<close>.\<close>

definition ok_bind :: "'e + 'a \<Rightarrow> ('a \<Rightarrow> 'b option) \<Rightarrow> 'b option" where
  "ok_bind r f = (case r of Inl _ \<Rightarrow> None | Inr a \<Rightarrow> f a)"

definition decode_meta_slot :: "bytes \<Rightarrow> meta_content option" where
  "decode_meta_slot buf =
     Option.bind (get_range buf OFFSET_MAGIC (OFFSET_MAGIC + 4)) (\<lambda>magic.
       if magic \<noteq> META_MAGIC then None
       else ok_bind (read_u32 buf OFFSET_PAGE_SIZE) (\<lambda>page_size_raw.
            ok_bind (page_size_try_from page_size_raw) (\<lambda>page_size.
            ok_bind (read_u64 buf OFFSET_TXN_ID) (\<lambda>txn_id.
            ok_bind (read_u32 buf OFFSET_ROOT) (\<lambda>root_page_id.
            ok_bind (read_u32 buf OFFSET_PAGE_COUNT) (\<lambda>page_count.
              Some \<lparr>mc_page_size = page_size, mc_txn_id = txn_id,
                    mc_root_page_id = root_page_id, mc_page_count = page_count\<rparr>))))))"

definition encode_meta_slot :: "(bytes \<Rightarrow> u64) \<Rightarrow> meta_content \<Rightarrow> bytes presult" where
  "encode_meta_slot xxh content =
     (let slot_len = unat META_SLOT_LEN; buf = replicate slot_len 0
      in rbind (if OFFSET_MAGIC + 4 \<le> length buf then Inr (put_at buf OFFSET_MAGIC META_MAGIC)
                else Inl (buffer_bounds OFFSET_MAGIC 4 slot_len)) (\<lambda>buf.
         rbind (write_u16 buf OFFSET_VERSION META_FORMAT_VERSION) (\<lambda>buf.
         rbind (write_u32 buf OFFSET_PAGE_SIZE (page_bytes (mc_page_size content))) (\<lambda>buf.
         rbind (write_u64 buf OFFSET_TXN_ID (mc_txn_id content)) (\<lambda>buf.
         rbind (write_u32 buf OFFSET_ROOT (mc_root_page_id content)) (\<lambda>buf.
         rbind (write_u32 buf OFFSET_PAGE_COUNT (mc_page_count content)) (\<lambda>buf.
         rbind (write_u32 buf OFFSET_FREELIST_HEAD 0) (\<lambda>buf.
           stamp_checksum xxh buf))))))))"

section \<open>The pager\<close>

record pager =
  p_file :: dbfile
  p_path :: path
  p_page_size :: page_size
  p_active_slot :: u8
  p_txn_id :: u64
  p_root_page_id :: u32
  p_page_count :: u32

definition pager_page_size :: "pager \<Rightarrow> page_size" where
  [simp]: "pager_page_size pg = p_page_size pg"

definition pager_root_page_id :: "pager \<Rightarrow> u32" where
  [simp]: "pager_root_page_id pg = p_root_page_id pg"

definition pager_page_count :: "pager \<Rightarrow> u32" where
  [simp]: "pager_page_count pg = p_page_count pg"

text \<open>\<open>.context(IoSnafu { path })\<close> on a file call, and the same on the pager's own file.\<close>

definition io_at :: "path \<Rightarrow> (dbfile, io_error, 'a) smethod \<Rightarrow> (dbfile, pinax_error, 'a) smethod" where
  "io_at path m f =
     (case m f of (Inl e, f') \<Rightarrow> (Inl (Fatal (Io path e)), f') | (Inr a, f') \<Rightarrow> (Inr a, f'))"

definition pager_io :: "(dbfile, io_error, 'a) smethod \<Rightarrow> (pager, pinax_error, 'a) smethod" where
  "pager_io m pg =
     (case io_at (p_path pg) m (p_file pg) of (r, f') \<Rightarrow> (r, pg\<lparr>p_file := f'\<rparr>))"

definition create_meta :: "(bytes \<Rightarrow> u64) \<Rightarrow> path \<Rightarrow> page_size \<Rightarrow> (dbfile, pinax_error, unit) smethod" where
  "create_meta xxh path page_size =
     sbind (spure (encode_meta_slot xxh
        \<lparr>mc_page_size = page_size, mc_txn_id = 0, mc_root_page_id = EMPTY_TREE_ROOT,
         mc_page_count = FIRST_DATA_PAGE_ID\<rparr>)) (\<lambda>slot.
     sbind (io_at path (write_all_at slot 0)) (\<lambda>_.
     sbind (io_at path (set_len (unat META_REGION_LEN))) (\<lambda>_.
       io_at path file_sync)))"

definition pager_create ::
    "(bytes \<Rightarrow> u64) \<Rightarrow> path \<Rightarrow> page_size \<Rightarrow> (filesystem, pinax_error, pager) smethod" where
  "pager_create xxh path page_size fs =
     (case open_create_new path fs of
        (Inl IoAlreadyExists, fs') \<Rightarrow> (Inl (Permanent (AlreadyExists path)), fs')
      | (Inl e, fs') \<Rightarrow> (Inl (Fatal (Io path e)), fs')
      | (Inr f, fs') \<Rightarrow>
          (case create_meta xxh path page_size f of
             (Inl e, f') \<Rightarrow> (Inl e, put_file path f' fs')
           | (Inr _, f') \<Rightarrow>
               (Inr \<lparr>p_file = f', p_path = path, p_page_size = page_size, p_active_slot = 0,
                     p_txn_id = 0, p_root_page_id = EMPTY_TREE_ROOT,
                     p_page_count = FIRST_DATA_PAGE_ID\<rparr>, put_file path f' fs')))"

text \<open>\<open>verify_checksum(slot).ok().and_then(|()| decode_meta_slot(slot))\<close>.\<close>

definition usable_slot :: "(bytes \<Rightarrow> u64) \<Rightarrow> bytes \<Rightarrow> meta_content option" where
  "usable_slot xxh slot = ok_bind (verify_checksum xxh slot) (\<lambda>_. decode_meta_slot slot)"

definition select_meta ::
    "path \<Rightarrow> meta_content option \<Rightarrow> meta_content option \<Rightarrow> (u8 \<times> meta_content) presult" where
  "select_meta path valid_a valid_b =
     (case (valid_a, valid_b) of
        (Some a, Some b) \<Rightarrow> if mc_txn_id b > mc_txn_id a then Inr (1, b) else Inr (0, a)
      | (Some a, None) \<Rightarrow> Inr (0, a)
      | (None, Some b) \<Rightarrow> Inr (1, b)
      | (None, None) \<Rightarrow> Inl (Fatal (NoValidMetaPage path)))"

definition read_meta :: "(bytes \<Rightarrow> u64) \<Rightarrow> path \<Rightarrow> (dbfile, pinax_error, u8 \<times> meta_content) smethod" where
  "read_meta xxh path =
     sbind (io_at path file_len) (\<lambda>actual_len.
     sbind (spure (if actual_len \<ge> unat META_REGION_LEN then Inr ()
        else Inl (Fatal (FileTooSmall path actual_len (unat META_REGION_LEN))))) (\<lambda>_.
     sbind (io_at path (read_exact_at (unat META_SLOT_LEN) 0)) (\<lambda>slot_a.
     sbind (io_at path (read_exact_at (unat META_SLOT_LEN) (unat META_SLOT_LEN))) (\<lambda>slot_b.
       spure (select_meta path (usable_slot xxh slot_a) (usable_slot xxh slot_b))))))"

definition pager_open :: "(bytes \<Rightarrow> u64) \<Rightarrow> path \<Rightarrow> (filesystem, pinax_error, pager) smethod" where
  "pager_open xxh path fs =
     (case open_existing path fs of
        (Inl e, fs') \<Rightarrow> (Inl (Fatal (Io path e)), fs')
      | (Inr f, fs') \<Rightarrow>
          (case read_meta xxh path f of
             (Inl e, f') \<Rightarrow> (Inl e, put_file path f' fs')
           | (Inr (active_slot, content), f') \<Rightarrow>
               (Inr \<lparr>p_file = f', p_path = path, p_page_size = mc_page_size content,
                     p_active_slot = active_slot, p_txn_id = mc_txn_id content,
                     p_root_page_id = mc_root_page_id content,
                     p_page_count = mc_page_count content\<rparr>, put_file path f' fs')))"

definition file_offset :: "pager \<Rightarrow> u32 \<Rightarrow> u64" where
  "file_offset pg pid =
     (let index = ucast (saturating_sub pid FIRST_DATA_PAGE_ID) :: u64
      in META_REGION_LEN + index * ucast (page_bytes (p_page_size pg)))"

definition read_data_page :: "(bytes \<Rightarrow> u64) \<Rightarrow> u32 \<Rightarrow> (pager, pinax_error, bytes) smethod" where
  "read_data_page xxh pid pg =
     sbind (pager_io (read_exact_at (bytes_usize (p_page_size pg)) (unat (file_offset pg pid)))) (\<lambda>buf.
       spure (case verify_checksum xxh buf of
                Inr _ \<Rightarrow> Inr buf
              | Inl (expected, actual) \<Rightarrow> Inl (Fatal (Corruption pid expected actual)))) pg"

text \<open>The buffer is borrowed mutably: it comes back stamped, also when the write fails.\<close>

definition write_data_page ::
    "(bytes \<Rightarrow> u64) \<Rightarrow> u32 \<Rightarrow> bytes \<Rightarrow> pager \<Rightarrow> (unit presult \<times> bytes) \<times> pager" where
  "write_data_page xxh pid buf pg =
     (case stamp_checksum xxh buf of
        Inl e \<Rightarrow> ((Inl e, buf), pg)
      | Inr buf' \<Rightarrow>
          (case pager_io (write_all_at buf' (unat (file_offset pg pid))) pg of
             (r, pg') \<Rightarrow> ((r, buf'), pg')))"

definition sync_data :: "(pager, pinax_error, unit) smethod" where
  "sync_data = pager_io file_sync"

definition pager_commit :: "(bytes \<Rightarrow> u64) \<Rightarrow> u32 \<Rightarrow> u32 \<Rightarrow> (pager, pinax_error, unit) smethod" where
  "pager_commit xxh new_root new_page_count =
     sbind sync_data (\<lambda>_ pg.
       let target_slot = 1 - p_active_slot pg;
           content = \<lparr>mc_page_size = p_page_size pg, mc_txn_id = p_txn_id pg + 1,
                      mc_root_page_id = new_root, mc_page_count = new_page_count\<rparr>
       in sbind (spure (encode_meta_slot xxh content)) (\<lambda>slot_buf.
          let offset = ucast target_slot * META_SLOT_LEN :: u64
          in sbind (pager_io (write_all_at slot_buf (unat offset))) (\<lambda>_.
             sbind (pager_io file_sync) (\<lambda>_ pg.
               (Inr (), pg\<lparr>p_active_slot := target_slot, p_txn_id := p_txn_id pg + 1,
                           p_root_page_id := new_root, p_page_count := new_page_count\<rparr>)))) pg)"

definition expect_page_type :: "u32 \<Rightarrow> bytes \<Rightarrow> u8 \<Rightarrow> string \<Rightarrow> unit presult" where
  "expect_page_type pid buf expected_byte expected_label =
     rbind (read_u8 buf 0) (\<lambda>actual.
       if actual = expected_byte then Inr ()
       else Inl (Fatal (UnexpectedPageType pid expected_label actual)))"

section \<open>Lemmas on meta slots\<close>

lemma ok_bind_simps [simp]: "ok_bind (Inl e) f = None" "ok_bind (Inr a) f = f a"
  by (simp_all add: ok_bind_def)

text \<open>The slot before its checksum is stamped.\<close>

definition meta_body :: "meta_content \<Rightarrow> bytes" where
  "meta_body c =
     (let b0 = put_at (replicate 4096 0) 0 META_MAGIC;
          b1 = put_at b0 4 (to_be_bytes 2 (1 :: u16));
          b2 = put_at b1 6 (to_be_bytes 4 (page_bytes (mc_page_size c)));
          b3 = put_at b2 10 (to_be_bytes 8 (mc_txn_id c));
          b4 = put_at b3 18 (to_be_bytes 4 (mc_root_page_id c));
          b5 = put_at b4 22 (to_be_bytes 4 (mc_page_count c));
          b6 = put_at b5 26 (to_be_bytes 4 (0 :: u32))
      in take 4088 b6)"

lemma length_META_MAGIC [simp]: "length META_MAGIC = 4"
  by (simp add: META_MAGIC_def)

lemma length_meta_body [simp]: "length (meta_body c) = 4088"
  by (simp add: meta_body_def Let_def slice_simps)

lemma encode_meta_slot_eq:
  "encode_meta_slot xxh c = Inr (meta_body c @ to_be_bytes 8 (xxh (meta_body c)))"
  by (simp add: encode_meta_slot_def Let_def write_oks meta_consts page_consts slice_simps
      stamp_checksum_ok page_body_def meta_body_def)

lemma meta_body_fields:
  "slice (meta_body c) 0 4 = META_MAGIC"
  "u32_at (meta_body c) 6 = page_bytes (mc_page_size c)"
  "u64_at (meta_body c) 10 = mc_txn_id c"
  "u32_at (meta_body c) 18 = mc_root_page_id c"
  "u32_at (meta_body c) 22 = mc_page_count c"
proof -
  show "slice (meta_body c) 0 4 = META_MAGIC"
    using slice_put_at_same [of 0 META_MAGIC "replicate 4096 0"]
    by (simp add: meta_body_def Let_def slice_simps)
qed (simp_all add: meta_body_def Let_def slice_simps field_at_take field_at_put_other)

definition encoded_slot :: "(bytes \<Rightarrow> u64) \<Rightarrow> meta_content \<Rightarrow> bytes" where
  "encoded_slot xxh c = meta_body c @ to_be_bytes 8 (xxh (meta_body c))"

lemma length_encoded_slot [simp]: "length (encoded_slot xxh c) = 4096"
  by (simp add: encoded_slot_def)

lemma encode_meta_slot_Inr: "encode_meta_slot xxh c = Inr (encoded_slot xxh c)"
  by (simp add: encode_meta_slot_eq encoded_slot_def)

lemma page_body_encoded_slot: "page_body (encoded_slot xxh c) = meta_body c"
  by (simp add: page_body_def encoded_slot_def)

lemma verify_encoded_slot: "verify_checksum xxh (encoded_slot xxh c) = Inr ()"
  by (simp add: verify_checksum_long page_body_encoded_slot)
    (simp add: encoded_slot_def u64_at_def slice_def)

lemma field_at_append:
  "i + 4 \<le> length xs \<Longrightarrow> u32_at (xs @ ys) i = u32_at xs i"
  "i + 8 \<le> length xs \<Longrightarrow> u64_at (xs @ ys) i = u64_at xs i"
  by (simp_all add: field_at_defs slice_append_left)

lemma decode_encoded_slot:
  assumes "valid_page_size (page_bytes (mc_page_size c))"
  shows "decode_meta_slot (encoded_slot xxh c) = Some c"
proof -
  have "get_range (encoded_slot xxh c) 0 4 = Some META_MAGIC"
    using get_range_slice [of 0 4 "encoded_slot xxh c"] meta_body_fields(1) [of c]
    by (simp add: encoded_slot_def slice_append_left)
  moreover have "page_size_try_from (page_bytes (mc_page_size c)) = Inr (mc_page_size c)"
    using assms by (simp add: page_size_try_from_valid)
  moreover have "u32_at (encoded_slot xxh c) 6 = page_bytes (mc_page_size c)"
    "u64_at (encoded_slot xxh c) 10 = mc_txn_id c" "u32_at (encoded_slot xxh c) 18 = mc_root_page_id c"
    "u32_at (encoded_slot xxh c) 22 = mc_page_count c"
    by (simp_all add: encoded_slot_def field_at_append meta_body_fields)
  ultimately show ?thesis
    by (simp add: decode_meta_slot_def meta_consts read_oks)
qed

lemma usable_encoded_slot:
  "valid_page_size (page_bytes (mc_page_size c)) \<Longrightarrow> usable_slot xxh (encoded_slot xxh c) = Some c"
  by (simp add: usable_slot_def verify_encoded_slot decode_encoded_slot)

lemma zero_slot_unusable: "usable_slot xxh (replicate 4096 0) = None"
proof -
  have "hd (replicate 4 (0::u8)) \<noteq> hd META_MAGIC" by (simp add: META_MAGIC_def)
  then have "replicate 4 (0::u8) \<noteq> META_MAGIC" by metis
  then have "get_range (replicate 4096 (0::u8)) 0 (0 + 4) \<noteq> Some META_MAGIC"
    by (subst get_range_slice) (simp_all add: slice_def)
  then show ?thesis
    by (auto simp: usable_slot_def ok_bind_def decode_meta_slot_def meta_consts get_range_def split: sum.splits)
qed

section \<open>Reopening\<close>

definition meta_of :: "pager \<Rightarrow> meta_content" where
  "meta_of pg = \<lparr>mc_page_size = p_page_size pg, mc_txn_id = p_txn_id pg,
     mc_root_page_id = p_root_page_id pg, mc_page_count = p_page_count pg\<rparr>"

lemma meta_of_sel [simp]:
  "mc_page_size (meta_of pg) = p_page_size pg" "mc_txn_id (meta_of pg) = p_txn_id pg"
  "mc_root_page_id (meta_of pg) = p_root_page_id pg" "mc_page_count (meta_of pg) = p_page_count pg"
  by (simp_all add: meta_of_def)

text \<open>What \<open>Pager::open\<close> finds in a file whose bytes are \<open>c\<close>, without I/O faults.\<close>

definition reopen :: "(bytes \<Rightarrow> u64) \<Rightarrow> path \<Rightarrow> bytes \<Rightarrow> pager presult" where
  "reopen xxh path c =
     fst (pager_open xxh path \<lparr>fs_files = (\<lambda>_. None)(path := Some (after_crash c [])),
       fs_open_faults = [], fs_new_faults = []\<rparr>)"

definition opens_to :: "(bytes \<Rightarrow> u64) \<Rightarrow> path \<Rightarrow> bytes \<Rightarrow> u8 \<Rightarrow> meta_content \<Rightarrow> bool" where
  "opens_to xxh path c slot m \<longleftrightarrow> 8192 \<le> length c \<and>
     select_meta path (usable_slot xxh (slice c 0 4096)) (usable_slot xxh (slice c 4096 4096)) = Inr (slot, m)"

lemma io_at_ok: "m f = (Inr a, f') \<Longrightarrow> io_at path m f = (Inr a, f')"
  and io_at_err: "m f = (Inl e, f') \<Longrightarrow> io_at path m f = (Inl (Fatal (Io path e)), f')"
  by (simp_all add: io_at_def)

lemma pager_io_ok: "m (p_file pg) = (Inr a, f') \<Longrightarrow> pager_io m pg = (Inr a, pg\<lparr>p_file := f'\<rparr>)"
  and pager_io_err:
    "m (p_file pg) = (Inl e, f') \<Longrightarrow> pager_io m pg = (Inl (Fatal (Io (p_path pg) e)), pg\<lparr>p_file := f'\<rparr>)"
  by (simp_all add: pager_io_def io_at_def)

lemma read_meta_fault_free:
  assumes "fault_free f" "8192 \<le> length (contents f)"
  obtains f' where "read_meta xxh path f =
      (select_meta path (usable_slot xxh (slice (contents f) 0 4096)) (usable_slot xxh (slice (contents f) 4096 4096)), f')"
    "fault_free f'" "contents f' = contents f" "f_durable f' = f_durable f" "f_pending f' = f_pending f"
proof -
  from assms(1) obtain f1 where f1: "file_len f = (Inr (length (contents f)), f1)" "fault_free f1"
    "contents f1 = contents f" "f_durable f1 = f_durable f" "f_pending f1 = f_pending f"
    by (rule file_len_fault_free)
  have len: "0 + 4096 \<le> length (contents f1)" "4096 + 4096 \<le> length (contents f1)"
    using assms(2) f1 by simp_all
  from f1(2) len(1) obtain f2 where f2: "read_exact_at 4096 0 f1 = (Inr (slice (contents f1) 0 4096), f2)"
    "fault_free f2" "contents f2 = contents f1" "f_durable f2 = f_durable f1" "f_pending f2 = f_pending f1"
    by (rule read_exact_at_fault_free)
  have len2: "4096 + 4096 \<le> length (contents f2)" using len f2 by simp
  from f2(2) len2 obtain f3 where f3: "read_exact_at 4096 4096 f2 = (Inr (slice (contents f2) 4096 4096), f3)"
    "fault_free f3" "contents f3 = contents f2" "f_durable f3 = f_durable f2" "f_pending f3 = f_pending f2"
    by (rule read_exact_at_fault_free)
  show thesis
  proof (rule that)
    show "read_meta xxh path f =
      (select_meta path (usable_slot xxh (slice (contents f) 0 4096)) (usable_slot xxh (slice (contents f) 4096 4096)), f3)"
      using assms(2) f1 f2 f3
      by (simp add: read_meta_def sbind_def spure_def io_at_def page_consts)
  qed (use f1 f2 f3 in simp_all)
qed

lemma pager_open_opens_to:
  assumes "fs_open_faults fs = []" "fs_files fs path = Some f" "fault_free f"
    and "opens_to xxh path (contents f) slot m"
  obtains pg fs' where "pager_open xxh path fs = (Inr pg, fs')" "meta_of pg = m"
    "p_active_slot pg = slot" "p_path pg = path" "contents (p_file pg) = contents f"
    "f_durable (p_file pg) = f_durable f" "f_pending (p_file pg) = f_pending f" "fault_free (p_file pg)"
proof -
  from assms(4) have len: "8192 \<le> length (contents f)" and
    sel: "select_meta path (usable_slot xxh (slice (contents f) 0 4096))
        (usable_slot xxh (slice (contents f) 4096 4096)) = Inr (slot, m)"
    by (simp_all add: opens_to_def)
  from assms(3) len obtain f' where f': "read_meta xxh path f = (Inr (slot, m), f')" "fault_free f'"
    "contents f' = contents f" "f_durable f' = f_durable f" "f_pending f' = f_pending f"
    by (rule read_meta_fault_free [where xxh = xxh and path = path]) (simp add: sel)
  have "open_existing path fs = (Inr f, fs)"
    using assms(1,2) by (simp add: open_existing_def open_tick_def)
  with f' that show thesis
    by (simp add: pager_open_def meta_of_def)
qed

lemma reopen_opens_to:
  assumes "opens_to xxh path c slot m"
  obtains pg where "reopen xxh path c = Inr pg" "meta_of pg = m" "p_active_slot pg = slot"
    "p_path pg = path" "contents (p_file pg) = c" "f_durable (p_file pg) = c" "f_pending (p_file pg) = []"
    "fault_free (p_file pg)"
proof -
  let ?fs = "\<lparr>fs_files = (\<lambda>_. None)(path := Some (after_crash c [])), fs_open_faults = [], fs_new_faults = []\<rparr>"
  have "opens_to xxh path (contents (after_crash c [])) slot m" using assms by simp
  moreover have "fs_open_faults ?fs = []" "fs_files ?fs path = Some (after_crash c [])"
    "fault_free (after_crash c [])"
    by (simp_all add: fault_free_def after_crash_def)
  ultimately obtain pg fs' where "pager_open xxh path ?fs = (Inr pg, fs')" "meta_of pg = m"
    "p_active_slot pg = slot" "p_path pg = path" "contents (p_file pg) = contents (after_crash c [])"
    "f_durable (p_file pg) = f_durable (after_crash c [])" "f_pending (p_file pg) = f_pending (after_crash c [])"
    "fault_free (p_file pg)"
    by (elim pager_open_opens_to)
  with that show thesis by (simp add: reopen_def after_crash_def contents_def)
qed

section \<open>The invariant between operations\<close>

definition slot_pos :: "u8 \<Rightarrow> nat" where
  "slot_pos s = unat s * 4096"

text \<open>A slot that is unusable or carries a transaction before \<open>t\<close>.\<close>

definition older_slot :: "(bytes \<Rightarrow> u64) \<Rightarrow> bytes \<Rightarrow> u64 \<Rightarrow> bool" where
  "older_slot xxh slot t \<longleftrightarrow>
     (case usable_slot xxh slot of None \<Rightarrow> True | Some m \<Rightarrow> mc_txn_id m < t)"

text \<open>
  Between operations: the active slot is on stable storage and encodes the pager's fields, no
  unsynced write touches the meta region, and the other slot is unusable or carries an older
  transaction.
\<close>

definition pager_inv :: "(bytes \<Rightarrow> u64) \<Rightarrow> pager \<Rightarrow> bool" where
  "pager_inv xxh pg \<longleftrightarrow>
     valid_page_size (page_bytes (p_page_size pg)) \<and> p_active_slot pg \<in> {0, 1} \<and>
     8192 \<le> length (f_durable (p_file pg)) \<and> untouched (f_pending (p_file pg)) 0 8192 \<and>
     slice (f_durable (p_file pg)) (slot_pos (p_active_slot pg)) 4096 = encoded_slot xxh (meta_of pg) \<and>
     older_slot xxh (slice (f_durable (p_file pg)) (slot_pos (1 - p_active_slot pg)) 4096) (p_txn_id pg)"

lemma untouched_part: "untouched ws 0 8192 \<Longrightarrow> lo + n \<le> 8192 \<Longrightarrow> untouched ws lo n"
  by (fastforce simp: untouched_def list_all_iff)

lemma select_active_0:
  assumes "usable_slot xxh a = Some m"
    and "older_slot xxh b (mc_txn_id m)"
  shows "select_meta path (usable_slot xxh a) (usable_slot xxh b) = Inr (0, m)"
    and "select_meta path (usable_slot xxh b) (usable_slot xxh a) = Inr (1, m)"
  using assms by (auto simp: select_meta_def older_slot_def split: option.splits)

text \<open>A file whose slot \<open>s\<close> encodes \<open>m\<close> and whose other slot is older.\<close>

definition slots_ok :: "(bytes \<Rightarrow> u64) \<Rightarrow> bytes \<Rightarrow> u8 \<Rightarrow> meta_content \<Rightarrow> bool" where
  "slots_ok xxh c s m \<longleftrightarrow> 8192 \<le> length c \<and> s \<in> {0, 1} \<and> valid_page_size (page_bytes (mc_page_size m)) \<and>
     slice c (slot_pos s) 4096 = encoded_slot xxh m \<and> older_slot xxh (slice c (slot_pos (1 - s)) 4096) (mc_txn_id m)"

lemma opens_to_slots: "slots_ok xxh c s m \<Longrightarrow> opens_to xxh path c s m"
  using usable_encoded_slot [of m xxh]
  by (auto simp: slots_ok_def opens_to_def slot_pos_def intro: select_active_0)

lemma pager_inv_slots_ok:
  assumes "pager_inv xxh pg" "8192 \<le> length c"
    and "\<And>lo. lo + 4096 \<le> 8192 \<Longrightarrow> slice c lo 4096 = slice (f_durable (p_file pg)) lo 4096"
  shows "slots_ok xxh c (p_active_slot pg) (meta_of pg)"
  using assms by (auto simp: slots_ok_def pager_inv_def slot_pos_def)

lemma pager_inv_contents:
  assumes "pager_inv xxh pg"
  shows "opens_to xxh path (contents (p_file pg)) (p_active_slot pg) (meta_of pg)"
proof (rule opens_to_slots, rule pager_inv_slots_ok [OF assms])
  have u: "untouched (f_pending (p_file pg)) 0 8192" "8192 \<le> length (f_durable (p_file pg))"
    using assms by (simp_all add: pager_inv_def)
  then show "8192 \<le> length (contents (p_file pg))"
    using contents_untouched [of "f_pending (p_file pg)" 0 8192 "f_durable (p_file pg)"]
    by (simp add: contents_def)
  fix lo :: nat
  assume "lo + 4096 \<le> 8192"
  then show "slice (contents (p_file pg)) lo 4096 = slice (f_durable (p_file pg)) lo 4096"
    using contents_untouched [OF untouched_part [OF u(1)], of lo 4096 "f_durable (p_file pg)"] u(2)
    by (simp add: contents_def)
qed

lemma pager_inv_crash:
  assumes "pager_inv xxh pg" "crash_image (p_file pg) c"
  shows "slots_ok xxh c (p_active_slot pg) (meta_of pg)"
proof (rule pager_inv_slots_ok [OF assms(1)])
  have u: "untouched (f_pending (p_file pg)) 0 8192" "8192 \<le> length (f_durable (p_file pg))"
    using assms by (simp_all add: pager_inv_def)
  then show "8192 \<le> length c" using assms(2) by (simp add: crash_image_def)
  fix lo :: nat
  assume "lo + 4096 \<le> 8192"
  then show "slice c lo 4096 = slice (f_durable (p_file pg)) lo 4096"
    using crash_image_untouched [OF assms(2) untouched_part [OF u(1)], of lo 4096] u(2) by simp
qed

section \<open>Commit\<close>

definition next_meta :: "pager \<Rightarrow> u32 \<Rightarrow> u32 \<Rightarrow> meta_content" where
  "next_meta pg new_root new_page_count =
     \<lparr>mc_page_size = p_page_size pg, mc_txn_id = p_txn_id pg + 1,
      mc_root_page_id = new_root, mc_page_count = new_page_count\<rparr>"

lemma next_meta_file [simp]: "next_meta (pg\<lparr>p_file := f\<rparr>) = next_meta pg"
  by (intro ext) (simp add: next_meta_def)

lemma slot_offset: "s \<in> {0, 1} \<Longrightarrow> unat (ucast (1 - s :: u8) * META_SLOT_LEN :: u64) = slot_pos (1 - s)"
  by (auto simp: slot_pos_def page_consts)

lemma pager_commit_outcomes:
  assumes "pager_commit xxh root count pg = (r, pg')" "p_active_slot pg \<in> {0, 1}"
  obtains (unsynced) e where "r = Inl e" "pg' = pg\<lparr>p_file := p_file pg'\<rparr>"
      "f_durable (p_file pg') = f_durable (p_file pg)" "f_pending (p_file pg') = f_pending (p_file pg)"
    | (torn) e k where "r = Inl e" "pg' = pg\<lparr>p_file := p_file pg'\<rparr>"
      "f_durable (p_file pg') = contents (p_file pg)"
      "f_pending (p_file pg') = [(slot_pos (1 - p_active_slot pg), take k (encoded_slot xxh (next_meta pg root count)))]"
    | (committed) "r = Inr ()" "meta_of pg' = next_meta pg root count" "p_active_slot pg' = 1 - p_active_slot pg"
      "p_path pg' = p_path pg" "f_pending (p_file pg') = []"
      "f_durable (p_file pg') = overwrite (contents (p_file pg)) (slot_pos (1 - p_active_slot pg))
         (encoded_slot xxh (next_meta pg root count))"
proof -
  let ?pos = "slot_pos (1 - p_active_slot pg)"
  let ?slot = "encoded_slot xxh (next_meta pg root count)"
  obtain r1 f1 where s1: "file_sync (p_file pg) = (r1, f1)" by fastforce
  obtain r2 f2 where s2: "write_all_at ?slot ?pos f1 = (r2, f2)" by fastforce
  obtain r3 f3 where s3: "file_sync f2 = (r3, f3)" by fastforce
  note defs = pager_commit_def sync_data_def sbind_def spure_def pager_io_def io_at_def
    encode_meta_slot_Inr next_meta_def [symmetric] slot_offset [OF assms(2)] Let_def
  from s1 show thesis
  proof (cases rule: file_sync_cases)
    case (failed e)
    with assms(1) s1 show thesis by (intro unsynced) (auto simp: defs)
  next
    case ok1: ok
    from s2 show thesis
    proof (cases rule: write_all_at_cases)
      case (failed e k)
      with assms(1) s1 s2 ok1 show thesis by (intro torn) (auto simp: defs)
    next
      case ok2: ok
      from s3 show thesis
      proof (cases rule: file_sync_cases)
        case (failed e)
        with assms(1) s1 s2 s3 ok1 ok2 show thesis
          by (intro torn [of _ 4096]) (auto simp: defs)
      next
        case ok
        have "contents f2 = overwrite (contents (p_file pg)) ?pos ?slot"
          using ok1 ok2 by (simp add: contents_def apply_writes_def)
        with ok assms(1) s1 s2 s3 ok1 ok2 show thesis
          by (intro committed) (auto simp: defs meta_of_def)
      qed
    qed
  qed
qed

text \<open>
  A slot torn between \<open>old\<close> and \<open>new\<close> is noticed: every byte-wise mixture that
  still verifies is one of the two. This is what the code expects of the hash.
\<close>

definition torn_mix :: "bytes \<Rightarrow> bytes \<Rightarrow> bytes \<Rightarrow> bool" where
  "torn_mix old new s \<longleftrightarrow>
     length s = length new \<and> list_all (\<lambda>i. s ! i = old ! i \<or> s ! i = new ! i) [0..<length new]"

definition torn_detected :: "(bytes \<Rightarrow> u64) \<Rightarrow> bytes \<Rightarrow> bytes \<Rightarrow> bool" where
  "torn_detected xxh old new \<longleftrightarrow>
     (\<forall>s. torn_mix old new s \<longrightarrow> verify_checksum xxh s = Inr () \<longrightarrow> s = old \<or> s = new)"

lemma u8_slot_flip: "s \<in> {0, 1} \<Longrightarrow> 1 - s \<in> {0, 1 :: u8} \<and> 1 - (1 - s) = s"
  by auto

lemma slot_regions:
  "s \<in> {0, 1} \<Longrightarrow> slot_pos s + 4096 \<le> slot_pos (1 - s) \<or> slot_pos (1 - s) + 4096 \<le> slot_pos s"
  "s \<in> {0, 1} \<Longrightarrow> slot_pos s + 4096 \<le> 8192"
  by (auto simp: slot_pos_def)

lemma txn_less_next: "t \<noteq> - 1 \<Longrightarrow> t < t + (1 :: u64)"
proof -
  assume "t \<noteq> - 1"
  then have "1 + t \<noteq> 0" by (simp add: add_eq_0_iff)
  then show ?thesis by (simp add: word_less_nat_alt unatSuc add.commute)
qed

lemma next_meta_sel [simp]:
  "mc_page_size (next_meta pg r n) = p_page_size pg" "mc_txn_id (next_meta pg r n) = p_txn_id pg + 1"
  "mc_root_page_id (next_meta pg r n) = r" "mc_page_count (next_meta pg r n) = n"
  by (simp_all add: next_meta_def)

lemma pager_inv_meta_region:
  assumes "pager_inv xxh pg" "lo + n \<le> 8192"
  shows "slice (contents (p_file pg)) lo n = slice (f_durable (p_file pg)) lo n"
  using assms contents_untouched [OF untouched_part [of "f_pending (p_file pg)" lo n], of "f_durable (p_file pg)"]
  by (simp add: pager_inv_def contents_def)

lemma pager_inv_length:
  assumes "pager_inv xxh pg"
  shows "8192 \<le> length (contents (p_file pg))"
  using assms contents_untouched [of "f_pending (p_file pg)" 0 8192 "f_durable (p_file pg)"]
  by (simp add: pager_inv_def contents_def)

lemma pager_inv_active:
  assumes "pager_inv xxh pg"
  shows "p_active_slot pg \<in> {0, 1}" "valid_page_size (page_bytes (p_page_size pg))"
    "slice (contents (p_file pg)) (slot_pos (p_active_slot pg)) 4096 = encoded_slot xxh (meta_of pg)"
proof -
  show act: "p_active_slot pg \<in> {0, 1}" "valid_page_size (page_bytes (p_page_size pg))"
    using assms by (simp_all add: pager_inv_def)
  show "slice (contents (p_file pg)) (slot_pos (p_active_slot pg)) 4096 = encoded_slot xxh (meta_of pg)"
    using pager_inv_meta_region [OF assms slot_regions(2) [OF act(1)]] assms
    by (simp add: pager_inv_def)
qed

lemma older_slot_active:
  assumes "pager_inv xxh pg" "p_txn_id pg \<noteq> - 1"
    "s = slice (contents (p_file pg)) (slot_pos (p_active_slot pg)) 4096"
  shows "older_slot xxh s (p_txn_id pg + 1)"
proof -
  have "s = encoded_slot xxh (meta_of pg)"
    using assms(3) pager_inv_active(3) [OF assms(1)] by simp
  moreover have "usable_slot xxh (encoded_slot xxh (meta_of pg)) = Some (meta_of pg)"
    using assms(1) by (intro usable_encoded_slot) (simp add: pager_inv_def)
  ultimately show ?thesis using txn_less_next [OF assms(2)] by (simp add: older_slot_def)
qed

lemma commit_keeps_inv:
  assumes inv: "pager_inv xxh pg" and txn: "p_txn_id pg \<noteq> - 1"
    and commit: "pager_commit xxh root count pg = (Inr (), pg')"
  shows "pager_inv xxh pg'" "meta_of pg' = next_meta pg root count" "f_pending (p_file pg') = []"
    "p_path pg' = p_path pg"
    "8192 \<le> lo \<Longrightarrow> lo + n \<le> length (contents (p_file pg)) \<Longrightarrow>
       slice (contents (p_file pg')) lo n = slice (contents (p_file pg)) lo n \<and>
       lo + n \<le> length (contents (p_file pg'))"
proof -
  let ?a = "p_active_slot pg" and ?c = "contents (p_file pg)"
  let ?slot = "encoded_slot xxh (next_meta pg root count)"
  have act: "?a \<in> {0, 1}" using inv by (simp add: pager_inv_def)
  note reg = slot_regions [OF act] slot_regions(2) [OF conjunct1 [OF u8_slot_flip [OF act]]]
  have len: "8192 \<le> length ?c" using inv by (rule pager_inv_length)
  from commit act have fin: "meta_of pg' = next_meta pg root count" "p_active_slot pg' = 1 - ?a"
    "p_path pg' = p_path pg" "f_pending (p_file pg') = []"
    "f_durable (p_file pg') = overwrite ?c (slot_pos (1 - ?a)) ?slot"
    by (auto elim: pager_commit_outcomes)
  have target: "slice (f_durable (p_file pg')) (slot_pos (1 - ?a)) 4096 = ?slot"
    using slice_overwrite_same [of ?c "slot_pos (1 - ?a)" ?slot] by (simp add: fin)
  have other: "slice (f_durable (p_file pg')) (slot_pos ?a) 4096 = slice ?c (slot_pos ?a) 4096"
    unfolding fin using reg len by (intro slice_overwrite_other) auto
  have "p_page_size pg' = p_page_size pg" "p_txn_id pg' = p_txn_id pg + 1"
    using arg_cong [OF fin(1), of mc_page_size] arg_cong [OF fin(1), of mc_txn_id] by simp_all
  moreover have "older_slot xxh (slice (f_durable (p_file pg')) (slot_pos ?a) 4096) (p_txn_id pg + 1)"
    using older_slot_active [OF inv txn other] .
  moreover have "8192 \<le> length (f_durable (p_file pg'))"
    using len by (auto simp: fin length_overwrite)
  ultimately show "pager_inv xxh pg'"
    using inv act target u8_slot_flip [OF act] by (simp add: pager_inv_def fin)
  show "meta_of pg' = next_meta pg root count" "f_pending (p_file pg') = []" "p_path pg' = p_path pg"
    by (fact fin)+
  assume "8192 \<le> lo" "lo + n \<le> length ?c"
  then show "slice (contents (p_file pg')) lo n = slice ?c lo n \<and> lo + n \<le> length (contents (p_file pg'))"
    using reg by (auto simp: fin contents_synced length_overwrite intro!: slice_overwrite_other)
qed

lemma torn_commit_slots:
  assumes inv: "pager_inv xxh pg" and txn: "p_txn_id pg \<noteq> - 1"
    and torn: "torn_detected xxh (slice (f_durable (p_file pg)) (slot_pos (1 - p_active_slot pg)) 4096)
      (encoded_slot xxh (next_meta pg root count))"
    and dur: "f_durable f = contents (p_file pg)"
    and pend: "f_pending f = [(slot_pos (1 - p_active_slot pg), take k (encoded_slot xxh (next_meta pg root count)))]"
    and crash: "crash_image f c"
  shows "slots_ok xxh c (p_active_slot pg) (meta_of pg) \<or>
    slots_ok xxh c (1 - p_active_slot pg) (next_meta pg root count)"
proof -
  let ?a = "p_active_slot pg" and ?pos = "slot_pos (1 - p_active_slot pg)"
  let ?new = "encoded_slot xxh (next_meta pg root count)"
  let ?s = "slice c ?pos 4096"
  have act: "?a \<in> {0, 1}" using inv by (simp add: pager_inv_def)
  note reg = slot_regions [OF act] slot_regions(2) [OF conjunct1 [OF u8_slot_flip [OF act]]]
  have len: "8192 \<le> length (f_durable f)" unfolding dur using inv by (rule pager_inv_length)
  then have clen: "8192 \<le> length c" using crash by (simp add: crash_image_def)
  have old: "slice (f_durable f) ?pos 4096 = slice (f_durable (p_file pg)) ?pos 4096"
    unfolding dur using inv reg(3) by (rule pager_inv_meta_region)
  have active: "slice c (slot_pos ?a) 4096 = encoded_slot xxh (meta_of pg)"
  proof -
    have "slice c (slot_pos ?a) 4096 = slice (f_durable f) (slot_pos ?a) 4096"
      using crash reg len by (intro crash_image_untouched) (auto simp: pend untouched_def)
    also have "\<dots> = encoded_slot xxh (meta_of pg)"
      unfolding dur using inv by (rule pager_inv_active)
    finally show ?thesis .
  qed
  have slen: "length ?s = 4096" using clen reg(3) by simp
  have "torn_mix (slice (f_durable (p_file pg)) ?pos 4096) ?new ?s"
    using crash_image_one_write [OF crash pend, of 4096] reg(3) len slen
    by (force simp: torn_mix_def list_all_iff old)
  with torn have mix: "verify_checksum xxh ?s = Inr () \<Longrightarrow>
      ?s = slice (f_durable (p_file pg)) ?pos 4096 \<or> ?s = ?new"
    by (simp add: torn_detected_def)
  have valid: "valid_page_size (page_bytes (p_page_size pg))" using inv by (simp add: pager_inv_def)
  show ?thesis
  proof (cases "?s = ?new")
    case True
    have "older_slot xxh (slice c (slot_pos ?a) 4096) (p_txn_id pg + 1)"
      using inv txn by (rule older_slot_active) (simp add: active pager_inv_active(3) [OF inv])
    then have "slots_ok xxh c (1 - ?a) (next_meta pg root count)"
      using clen True valid u8_slot_flip [OF act] by (simp add: slots_ok_def)
    then show ?thesis ..
  next
    case False
    have "older_slot xxh ?s (p_txn_id pg)"
    proof (cases "verify_checksum xxh ?s")
      case Inl
      then show ?thesis by (simp add: older_slot_def usable_slot_def)
    next
      case (Inr u)
      with mix False have "?s = slice (f_durable (p_file pg)) ?pos 4096" by simp
      with inv show ?thesis by (simp add: pager_inv_def)
    qed
    then have "slots_ok xxh c ?a (meta_of pg)"
      using clen act valid active by (simp add: slots_ok_def)
    then show ?thesis ..
  qed
qed

section \<open>Creating a database file\<close>

definition fresh_meta :: "page_size \<Rightarrow> meta_content" where
  "fresh_meta ps = \<lparr>mc_page_size = ps, mc_txn_id = 0, mc_root_page_id = EMPTY_TREE_ROOT,
     mc_page_count = FIRST_DATA_PAGE_ID\<rparr>"

lemma overwrite_append: "bs \<noteq> [] \<Longrightarrow> overwrite c (length c) bs = c @ bs"
  by (simp add: overwrite_def put_at_def)

lemma set_len_grow:
  assumes "fault_free f" "length (contents f) < n"
  obtains f' where "set_len n f = (Inr (), f')" "fault_free f'"
    "contents f' = contents f @ replicate (n - length (contents f)) 0"
  using assms(1) by (rule io_tick_fault_free)
    (use that assms(2) in \<open>simp add: set_len_def overwrite_append Let_def\<close>)

lemma create_meta_fault_free:
  assumes "fault_free f" "contents f = []"
  obtains f' where "create_meta xxh path ps f = (Inr (), f')" "fault_free f'" "f_pending f' = []"
    "f_durable f' = encoded_slot xxh (fresh_meta ps) @ replicate 4096 0"
proof -
  let ?slot = "encoded_slot xxh (fresh_meta ps)"
  have ne: "?slot \<noteq> []" using length_encoded_slot [of xxh "fresh_meta ps"] by (metis list.size(3) zero_neq_numeral)
  from assms(1) obtain f1 where f1: "write_all_at ?slot 0 f = (Inr (), f1)" "fault_free f1"
    "contents f1 = overwrite (contents f) 0 ?slot" by (rule write_all_at_fault_free) blast
  then have c1: "contents f1 = ?slot" using overwrite_append [OF ne, of "[]"] assms(2) by simp
  then have "length (contents f1) < 8192" by simp
  with f1(2) obtain f2 where f2: "set_len 8192 f1 = (Inr (), f2)" "fault_free f2"
    "contents f2 = contents f1 @ replicate (8192 - length (contents f1)) 0" by (rule set_len_grow)
  from f2(2) obtain f3 where f3: "file_sync f2 = (Inr (), f3)" "fault_free f3" "contents f3 = contents f2"
    "f_durable f3 = contents f2" "f_pending f3 = []" by (rule file_sync_fault_free)
  have "encode_meta_slot xxh \<lparr>mc_page_size = ps, mc_txn_id = 0, mc_root_page_id = EMPTY_TREE_ROOT,
     mc_page_count = FIRST_DATA_PAGE_ID\<rparr> = Inr ?slot"
    by (simp add: fresh_meta_def encode_meta_slot_Inr)
  with f1 f2 f3 c1 that show thesis
    by (simp add: create_meta_def sbind_def spure_def io_at_def page_consts)
qed

lemma pager_create_fault_free:
  assumes "fs_open_faults fs = []" "fs_files fs path = None" "list_all (\<lambda>x. x = None) (fs_new_faults fs)"
    and "valid_page_size (page_bytes ps)"
  obtains pg fs' where "pager_create xxh path ps fs = (Inr pg, fs')" "pager_inv xxh pg"
    "meta_of pg = fresh_meta ps" "p_active_slot pg = 0" "p_path pg = path" "f_pending (p_file pg) = []"
    "fault_free (p_file pg)" "fs_files fs' path = Some (p_file pg)"
    "f_durable (p_file pg) = encoded_slot xxh (fresh_meta ps) @ replicate 4096 0"
proof -
  let ?f = "\<lparr>f_durable = [], f_pending = [], f_faults = fs_new_faults fs\<rparr>"
  have "fault_free ?f" "contents ?f = []" using assms(3) by (simp_all add: fault_free_def contents_def)
  then obtain f' where f': "create_meta xxh path ps ?f = (Inr (), f')" "fault_free f'" "f_pending f' = []"
    "f_durable f' = encoded_slot xxh (fresh_meta ps) @ replicate 4096 0"
    by (rule create_meta_fault_free)
  let ?pg = "\<lparr>p_file = f', p_path = path, p_page_size = ps, p_active_slot = 0, p_txn_id = 0,
    p_root_page_id = EMPTY_TREE_ROOT, p_page_count = FIRST_DATA_PAGE_ID\<rparr>"
  have m: "meta_of ?pg = fresh_meta ps" by (simp add: meta_of_def fresh_meta_def)
  have "older_slot xxh (replicate 4096 0) 0" by (simp add: older_slot_def zero_slot_unusable)
  then have inv: "pager_inv xxh ?pg"
    using f' assms(4) by (simp add: pager_inv_def m slot_pos_def slice_def)
  have create: "pager_create xxh path ps fs = (Inr ?pg, put_file path f' (put_file path ?f fs))"
    using assms(1,2) f'(1) by (simp add: pager_create_def open_create_new_def open_tick_def Let_def)
  show thesis
    by (rule that [OF create inv m]) (simp_all add: put_file_def f'(2-4))
qed

section \<open>Data pages\<close>

lemma unat_mult_u64:
  fixes a b :: u64
  assumes "unat a * unat b < 2 ^ 64"
  shows "unat (a * b) = unat a * unat b"
  using assms by (simp add: unat_word_ariths)

lemma unat_ucast_u32: "unat (ucast (w :: u32) :: u64) = unat w"
proof -
  have "unat w < 2 ^ LENGTH(32)" by (rule unsigned_less)
  then have "unat w < 2 ^ 64" by simp
  then show ?thesis by (simp add: unsigned_ucast_eq take_bit_nat_eq_self_iff)
qed

lemma unat_file_offset:
  assumes "valid_page_size (page_bytes (p_page_size pg))"
  shows "unat (file_offset pg pid) = 8192 + (unat pid - 2) * bytes_usize (p_page_size pg)"
proof -
  let ?i = "saturating_sub pid FIRST_DATA_PAGE_ID"
  have i: "unat ?i = unat pid - 2"
    by (simp add: saturating_sub_def page_consts word_le_nat_alt unat_sub)
  have ps: "bytes_usize (p_page_size pg) \<le> 65536" using valid_page_size_bounds [OF assms] by simp
  have "unat ?i < 2 ^ LENGTH(32)" by (rule unsigned_less)
  then have prod: "unat ?i * bytes_usize (p_page_size pg) \<le> (2 ^ 32 - 1) * 65536"
    using ps by (intro mult_mono) auto
  then have p: "unat (ucast ?i * ucast (page_bytes (p_page_size pg)) :: u64) =
      unat ?i * bytes_usize (p_page_size pg)"
    by (subst unat_mult_u64) (auto simp: unat_ucast_u32 bytes_usize_def)
  have "unat (8192 + ucast ?i * ucast (page_bytes (p_page_size pg)) :: u64) =
      8192 + unat ?i * bytes_usize (p_page_size pg)"
    using prod by (subst unat_word_ariths) (simp add: p)
  then show ?thesis by (simp only: i) (simp add: file_offset_def page_consts Let_def)
qed

text \<open>
  The page a read would return, if its bytes are in the file and the checksum holds. The page
  ids below the first data page all lie at the first data page's offset.
\<close>

definition page_at :: "pager \<Rightarrow> u32 \<Rightarrow> bytes" where
  "page_at pg pid = slice (contents (p_file pg)) (unat (file_offset pg pid)) (bytes_usize (p_page_size pg))"

definition page_in_file :: "pager \<Rightarrow> u32 \<Rightarrow> bool" where
  "page_in_file pg pid \<longleftrightarrow>
     unat (file_offset pg pid) + bytes_usize (p_page_size pg) \<le> length (contents (p_file pg))"

definition disk_page :: "(bytes \<Rightarrow> u64) \<Rightarrow> pager \<Rightarrow> u32 \<Rightarrow> bytes option" where
  "disk_page xxh pg pid =
     (if page_in_file pg pid \<and> verify_checksum xxh (page_at pg pid) = Inr ()
      then Some (page_body (page_at pg pid)) else None)"

text \<open>Two pagers that differ in the fault schedule and the unsynced writes only.\<close>

definition same_pager :: "pager \<Rightarrow> pager \<Rightarrow> bool" where
  "same_pager pg pg' \<longleftrightarrow> pg' = pg\<lparr>p_file := p_file pg'\<rparr>"

lemma same_pager_refl [simp]: "same_pager pg pg"
  by (simp add: same_pager_def)

lemma same_pager_trans: "same_pager a b \<Longrightarrow> same_pager b c \<Longrightarrow> same_pager a c"
  unfolding same_pager_def by (metis pager.update_convs(1) pager.surjective pager.ext_inject)

lemma same_pager_file [simp]: "same_pager pg (pg\<lparr>p_file := f\<rparr>)"
  by (simp add: same_pager_def)

lemma same_pager_sel:
  assumes "same_pager pg pg'"
  shows "p_page_size pg' = p_page_size pg" "p_path pg' = p_path pg" "p_active_slot pg' = p_active_slot pg"
    "p_txn_id pg' = p_txn_id pg" "p_root_page_id pg' = p_root_page_id pg" "p_page_count pg' = p_page_count pg"
    "meta_of pg' = meta_of pg" "file_offset pg' = file_offset pg"
proof -
  obtain f where pg': "pg' = pg\<lparr>p_file := f\<rparr>" using assms unfolding same_pager_def by blast
  show "p_page_size pg' = p_page_size pg" "p_path pg' = p_path pg" "p_active_slot pg' = p_active_slot pg"
    "p_txn_id pg' = p_txn_id pg" "p_root_page_id pg' = p_root_page_id pg" "p_page_count pg' = p_page_count pg"
    "meta_of pg' = meta_of pg" "file_offset pg' = file_offset pg"
    by (auto simp: pg' meta_of_def file_offset_def)
qed

lemma length_page_at: "page_in_file pg pid \<Longrightarrow> length (page_at pg pid) = bytes_usize (p_page_size pg)"
  by (simp add: page_at_def page_in_file_def)

lemma disk_page_cong:
  assumes "same_pager pg pg'" "contents (p_file pg') = contents (p_file pg)"
  shows "disk_page xxh pg' = disk_page xxh pg"
  by (intro ext) (simp add: disk_page_def page_at_def page_in_file_def same_pager_sel [OF assms(1)] assms(2))

lemma io_tick_same:
  "io_tick f = (x, f') \<Longrightarrow> contents f' = contents f \<and> f_durable f' = f_durable f \<and> f_pending f' = f_pending f"
  using io_tick_fields by blast

text \<open>A read changes nothing but the fault schedule, and what it returns is what is on disk.\<close>

lemma read_exact_at_result:
  assumes "read_exact_at n off f = (r, f')"
  shows "contents f' = contents f" "f_durable f' = f_durable f" "f_pending f' = f_pending f"
    and "r = Inr buf \<Longrightarrow> off + n \<le> length (contents f) \<and> buf = slice (contents f) off n"
  using assms io_tick_same [of f "fst (io_tick f)" "snd (io_tick f)"]
  by (auto simp: read_exact_at_def get_range_def slice_def split: prod.splits option.splits if_splits)

lemma read_data_page_result:
  assumes "read_data_page xxh pid pg = (r, pg')"
  shows "same_pager pg pg'" "contents (p_file pg') = contents (p_file pg)"
    "f_durable (p_file pg') = f_durable (p_file pg)" "f_pending (p_file pg') = f_pending (p_file pg)"
    and "r = Inr buf \<Longrightarrow> disk_page xxh pg pid = Some (page_body buf) \<and>
      length buf = bytes_usize (p_page_size pg) \<and> verify_checksum xxh buf = Inr ()"
proof -
  let ?n = "bytes_usize (p_page_size pg)" and ?off = "unat (file_offset pg pid)"
  obtain r1 f1 where rd: "read_exact_at ?n ?off (p_file pg) = (r1, f1)" by fastforce
  note R = read_exact_at_result [OF rd]
  have pg': "pg' = pg\<lparr>p_file := f1\<rparr>"
    using assms rd by (auto simp: read_data_page_def sbind_def spure_def pager_io_def io_at_def split: sum.splits)
  then show "same_pager pg pg'" "contents (p_file pg') = contents (p_file pg)"
    "f_durable (p_file pg') = f_durable (p_file pg)" "f_pending (p_file pg') = f_pending (p_file pg)"
    using R(1-3) by simp_all
  assume "r = Inr buf"
  with assms rd have r1: "r1 = Inr buf" "verify_checksum xxh buf = Inr ()"
    by (auto simp: read_data_page_def sbind_def spure_def pager_io_def io_at_def split: sum.splits)
  then show "disk_page xxh pg pid = Some (page_body buf) \<and>
      length buf = ?n \<and> verify_checksum xxh buf = Inr ()"
    using R(4) [of buf] by (auto simp: disk_page_def page_in_file_def page_at_def)
qed

lemma read_data_page_fault_free:
  assumes "fault_free (p_file pg)" "page_in_file pg pid"
  obtains f' where "fault_free f'" "read_data_page xxh pid pg =
    (case verify_checksum xxh (page_at pg pid) of
       Inr _ \<Rightarrow> Inr (page_at pg pid)
     | Inl (expected, actual) \<Rightarrow> Inl (Fatal (Corruption pid expected actual)), pg\<lparr>p_file := f'\<rparr>)"
proof -
  from assms obtain f' where
    "read_exact_at (bytes_usize (p_page_size pg)) (unat (file_offset pg pid)) (p_file pg) = (Inr (page_at pg pid), f')"
    "fault_free f'"
    unfolding page_in_file_def page_at_def by (rule read_exact_at_fault_free)
  with that show thesis
    by (simp add: read_data_page_def sbind_def spure_def pager_io_def io_at_def)
qed

lemma read_data_page_disk:
  assumes "fault_free (p_file pg)" "disk_page xxh pg pid = Some b"
  obtains f' where "fault_free f'" "read_data_page xxh pid pg = (Inr (page_at pg pid), pg\<lparr>p_file := f'\<rparr>)"
    "page_body (page_at pg pid) = b"
proof -
  from assms(2) have d: "page_in_file pg pid" "verify_checksum xxh (page_at pg pid) = Inr ()"
    "page_body (page_at pg pid) = b"
    by (auto simp: disk_page_def split: if_splits)
  from assms(1) d(1) obtain f' where "fault_free f'" "read_data_page xxh pid pg =
    (case verify_checksum xxh (page_at pg pid) of
       Inr _ \<Rightarrow> Inr (page_at pg pid)
     | Inl (expected, actual) \<Rightarrow> Inl (Fatal (Corruption pid expected actual)), pg\<lparr>p_file := f'\<rparr>)"
    by (rule read_data_page_fault_free)
  with d that show thesis by simp
qed

text \<open>
  A write, whatever becomes of it: one more unsynced write inside the page's own region, the
  whole stamped buffer if the call succeeds.
\<close>

lemma write_data_page_outcome:
  assumes "write_data_page xxh pid buf pg = ((r, buf'), pg')" "8 \<le> length buf"
  obtains bs where "same_pager pg pg'" "length buf' = length buf" "page_body buf' = page_body buf"
    "verify_checksum xxh buf' = Inr ()" "length bs \<le> length buf" "r = Inr () \<Longrightarrow> bs = buf'"
    "f_durable (p_file pg') = f_durable (p_file pg)"
    "f_pending (p_file pg') = f_pending (p_file pg) @ [(unat (file_offset pg pid), bs)]"
proof -
  let ?off = "unat (file_offset pg pid)"
  obtain sb where sb: "stamp_checksum xxh buf = Inr sb" using stamp_checksum_ok [OF assms(2)] by blast
  note st = stamped [OF sb]
  obtain r1 f1 where wr: "write_all_at sb ?off (p_file pg) = (r1, f1)" by fastforce
  then have res: "buf' = sb" "pg' = pg\<lparr>p_file := f1\<rparr>" "r = Inr () \<Longrightarrow> r1 = Inr ()"
    using assms(1) sb
    by (auto simp: write_data_page_def pager_io_def io_at_def split: sum.splits)
  from wr show thesis
  proof (cases rule: write_all_at_cases)
    case ok
    show thesis by (rule that [of sb]) (simp_all add: res(1,2) st ok)
  next
    case (failed e k)
    show thesis by (rule that [of "take k sb"]) (use res(3) in \<open>simp_all add: res(1,2) st failed\<close>)
  qed
qed

lemma write_data_page_fault_free:
  assumes "fault_free (p_file pg)" "8 \<le> length buf"
  obtains buf' pg' where "write_data_page xxh pid buf pg = ((Inr (), buf'), pg')" "fault_free (p_file pg')"
proof -
  obtain sb where sb: "stamp_checksum xxh buf = Inr sb" using stamp_checksum_ok [OF assms(2)] by blast
  from assms(1) obtain f1 where "write_all_at sb (unat (file_offset pg pid)) (p_file pg) = (Inr (), f1)" "fault_free f1"
    by (rule write_all_at_fault_free)
  then show thesis
    by (intro that [of sb "pg\<lparr>p_file := f1\<rparr>"]) (simp_all add: write_data_page_def sb pager_io_def io_at_def)
qed

lemma page_region_before:
  assumes "valid_page_size (page_bytes (p_page_size pg))" "2 \<le> unat pid" "unat pid < unat pid'"
  shows "unat (file_offset pg pid) + bytes_usize (p_page_size pg) \<le> unat (file_offset pg pid')"
proof -
  have "Suc (unat pid - 2) * bytes_usize (p_page_size pg) \<le> (unat pid' - 2) * bytes_usize (p_page_size pg)"
    using assms(2,3) by (intro mult_le_mono1) simp
  then show ?thesis by (simp add: unat_file_offset [OF assms(1)])
qed

lemma page_regions_disjoint:
  assumes "valid_page_size (page_bytes (p_page_size pg))" "2 \<le> unat pid" "2 \<le> unat pid'" "pid \<noteq> pid'"
  shows "unat (file_offset pg pid) + bytes_usize (p_page_size pg) \<le> unat (file_offset pg pid') \<or>
    unat (file_offset pg pid') + bytes_usize (p_page_size pg) \<le> unat (file_offset pg pid)"
  using assms(4) page_region_before [OF assms(1,2)] page_region_before [OF assms(1,3)]
  by (metis linorder_neqE_nat word_unat_eq_iff)

lemma contents_of_pending:
  assumes "f_durable f' = f_durable f" "f_pending f' = f_pending f @ [(off, bs)]"
  shows "contents f' = overwrite (contents f) off bs"
  using assms by (simp add: contents_def)

lemma disk_page_write_other:
  assumes "valid_page_size (page_bytes (p_page_size pg))" "2 \<le> unat pid" "2 \<le> unat pid'" "pid \<noteq> pid'"
    and "same_pager pg pg'" "contents (p_file pg') = overwrite (contents (p_file pg)) (unat (file_offset pg pid)) bs"
    and "length bs \<le> bytes_usize (p_page_size pg)" "disk_page xxh pg pid' = Some b"
  shows "disk_page xxh pg' pid' = Some b"
proof -
  have inf: "page_in_file pg pid'" using assms(8) by (auto simp: disk_page_def split: if_splits)
  have "page_at pg' pid' = page_at pg pid'"
    using page_regions_disjoint [OF assms(1-4)] assms(7) inf
    unfolding page_at_def same_pager_sel [OF assms(5)] assms(6) page_in_file_def
    by (intro slice_overwrite_other) auto
  moreover have "page_in_file pg' pid'"
    using inf unfolding page_in_file_def same_pager_sel [OF assms(5)] assms(6)
    by (auto simp: length_overwrite)
  ultimately show ?thesis using assms(8) by (simp add: disk_page_def inf split: if_splits)
qed

lemma disk_page_written:
  assumes "same_pager pg pg'" "contents (p_file pg') = overwrite (contents (p_file pg)) (unat (file_offset pg pid)) buf"
    and "length buf = bytes_usize (p_page_size pg)" "buf \<noteq> []" "verify_checksum xxh buf = Inr ()"
  shows "disk_page xxh pg' pid = Some (page_body buf)"
proof -
  have "page_at pg' pid = buf"
    unfolding page_at_def same_pager_sel [OF assms(1)] assms(2) assms(3) [symmetric]
    by (rule slice_overwrite_same)
  moreover have "page_in_file pg' pid"
    unfolding page_in_file_def same_pager_sel [OF assms(1)] assms(2) assms(3) [symmetric]
    using assms(4) by (simp add: length_overwrite)
  ultimately show ?thesis using assms(5) by (simp add: disk_page_def)
qed

text \<open>No data write touches the meta region, so the invariant is kept whatever fails.\<close>

lemma write_data_page_keeps_inv:
  assumes "write_data_page xxh pid buf pg = ((r, buf'), pg')" "8 \<le> length buf" "pager_inv xxh pg"
  shows "pager_inv xxh pg'"
proof -
  from assms(1,2) obtain bs where "same_pager pg pg'" "f_durable (p_file pg') = f_durable (p_file pg)"
    "f_pending (p_file pg') = f_pending (p_file pg) @ [(unat (file_offset pg pid), bs)]"
    by (rule write_data_page_outcome)
  moreover have "8192 \<le> unat (file_offset pg pid)"
    using assms(3) unat_file_offset [of pg pid] by (simp add: pager_inv_def)
  ultimately show ?thesis using assms(3) by (simp add: pager_inv_def same_pager_sel)
qed

lemma read_data_page_keeps_inv:
  assumes "read_data_page xxh pid pg = (r, pg')" "pager_inv xxh pg"
  shows "pager_inv xxh pg'"
  using assms(2) read_data_page_result(1,3,4) [OF assms(1)] by (simp add: pager_inv_def same_pager_sel)

text \<open>A commit writes below the data pages only.\<close>

lemma disk_page_below:
  assumes "valid_page_size (page_bytes (p_page_size pg))" "p_page_size pg' = p_page_size pg"
    and "contents (p_file pg') = overwrite (contents (p_file pg)) off bs" "off + length bs \<le> 8192"
    and "disk_page xxh pg pid = Some b"
  shows "disk_page xxh pg' pid = Some b"
proof -
  have fo: "file_offset pg' = file_offset pg" by (simp add: file_offset_def assms(2) fun_eq_iff)
  have inf: "page_in_file pg pid" using assms(5) by (auto simp: disk_page_def split: if_splits)
  have off: "8192 \<le> unat (file_offset pg pid)" by (simp add: unat_file_offset [OF assms(1)])
  have "page_at pg' pid = page_at pg pid"
    using inf off assms(4) unfolding page_at_def fo assms(2,3) page_in_file_def
    by (intro slice_overwrite_other) auto
  moreover have "page_in_file pg' pid"
    using inf unfolding page_in_file_def fo assms(2,3) by (auto simp: length_overwrite)
  ultimately show ?thesis using assms(5) by (simp add: disk_page_def inf split: if_splits)
qed

lemma pager_commit_pages:
  assumes "pager_commit xxh root count pg = (r, pg')" "p_active_slot pg \<in> {0, 1}"
    and "valid_page_size (page_bytes (p_page_size pg))"
  shows "p_page_size pg' = p_page_size pg" "disk_page xxh pg pid = Some b \<Longrightarrow> disk_page xxh pg' pid = Some b"
proof -
  let ?pos = "slot_pos (1 - p_active_slot pg)" and ?slot = "encoded_slot xxh (next_meta pg root count)"
  have pos: "?pos + 4096 \<le> 8192" using slot_regions(2) [OF conjunct1 [OF u8_slot_flip [OF assms(2)]]] .
  have "p_page_size pg' = p_page_size pg \<and> (\<exists>off bs. off + length bs \<le> 8192 \<and>
      contents (p_file pg') = overwrite (contents (p_file pg)) off bs)"
    using assms(1,2)
  proof (cases rule: pager_commit_outcomes)
    case (unsynced e)
    then have "contents (p_file pg') = overwrite (contents (p_file pg)) 0 []" by (simp add: contents_def overwrite_def)
    then show ?thesis using unsynced(2) same_pager_sel(1) [of pg pg'] unfolding same_pager_def by force
  next
    case (torn e k)
    then have "contents (p_file pg') = overwrite (contents (p_file pg)) ?pos (take k ?slot)"
      by (simp add: contents_def apply_writes_def)
    moreover have "?pos + length (take k ?slot) \<le> 8192" using pos by simp
    ultimately show ?thesis using torn(2) same_pager_sel(1) [of pg pg'] unfolding same_pager_def by blast
  next
    case committed
    then have "contents (p_file pg') = overwrite (contents (p_file pg)) ?pos ?slot"
      by (simp add: contents_synced)
    moreover have "p_page_size pg' = p_page_size pg" using arg_cong [OF committed(2), of mc_page_size] by simp
    ultimately show ?thesis using pos by (metis length_encoded_slot)
  qed
  then show "p_page_size pg' = p_page_size pg" "disk_page xxh pg pid = Some b \<Longrightarrow> disk_page xxh pg' pid = Some b"
    using disk_page_below [OF assms(3)] by blast+
qed

lemma pager_commit_fault_free:
  assumes "fault_free (p_file pg)"
  obtains pg' where "pager_commit xxh root count pg = (Inr (), pg')" "fault_free (p_file pg')"
proof -
  let ?slot = "encoded_slot xxh (next_meta pg root count)"
  let ?off = "unat (ucast (1 - p_active_slot pg) * META_SLOT_LEN :: u64)"
  from assms obtain f1 where f1: "file_sync (p_file pg) = (Inr (), f1)" "fault_free f1" by (rule file_sync_fault_free)
  from f1(2) obtain f2 where f2: "write_all_at ?slot ?off f1 = (Inr (), f2)" "fault_free f2"
    by (rule write_all_at_fault_free)
  from f2(2) obtain f3 where f3: "file_sync f2 = (Inr (), f3)" "fault_free f3" by (rule file_sync_fault_free)
  from f1 f2 f3 that show thesis
    by (simp add: pager_commit_def sync_data_def sbind_def spure_def pager_io_def io_at_def
        encode_meta_slot_Inr next_meta_def [symmetric] Let_def)
qed

section \<open>Claims\<close>

lemma created_pager:
  assumes "valid_page_size (page_bytes ps)"
  obtains pg fs' where "pager_create xxh path ps empty_fs = (Inr pg, fs')" "pager_inv xxh pg"
    "meta_of pg = fresh_meta ps" "p_active_slot pg = 0" "f_pending (p_file pg) = []" "fault_free (p_file pg)"
    "fs_files fs' path = Some (p_file pg)" "f_durable (p_file pg) = encoded_slot xxh (fresh_meta ps) @ replicate 4096 0"
    "p_path pg = path"
  by (rule pager_create_fault_free [of empty_fs path ps xxh]) (use assms that in simp_all)

lemma default_page_size: "valid_page_size (page_bytes DEFAULT_PAGE_SIZE)"
  by (simp add: valid_page_size_def DEFAULT_PAGE_SIZE_def)

text \<open>
  C32: a meta slot that was encoded is read back as the same content: it fills exactly one slot, its
  checksum verifies and its fields decode.
\<close>
lemma meta_slot_round_trip:
  assumes "valid_page_size (page_bytes (mc_page_size c))"
  shows "\<exists>slot. encode_meta_slot xxh c = Inr slot \<and> length slot = unat META_SLOT_LEN \<and> usable_slot xxh slot = Some c"
  using usable_encoded_slot [OF assms] by (simp add: encode_meta_slot_Inr page_consts)

lemma meta_slot_round_trip_witness:
  "\<exists>slot. encode_meta_slot (\<lambda>_. 0) (fresh_meta DEFAULT_PAGE_SIZE) = Inr slot \<and> length slot = unat META_SLOT_LEN \<and>
     usable_slot (\<lambda>_. 0) slot = Some (fresh_meta DEFAULT_PAGE_SIZE)"
  by (rule meta_slot_round_trip) (simp add: fresh_meta_def default_page_size)

text \<open>
  C30: a database file that was created opens, and opening finds what creating left: the page
  size asked for, transaction 0, an empty tree and no data page.
\<close>
lemma create_then_open:
  assumes "fs_open_faults fs = []" "fs_files fs path = None" "list_all (\<lambda>x. x = None) (fs_new_faults fs)"
    and "valid_page_size (page_bytes ps)"
  shows "\<exists>pg fs1 pg' fs2. pager_create xxh path ps fs = (Inr pg, fs1) \<and> pager_open xxh path fs1 = (Inr pg', fs2) \<and>
    p_page_size pg' = ps \<and> p_txn_id pg' = 0 \<and> p_root_page_id pg' = EMPTY_TREE_ROOT \<and>
    p_page_count pg' = FIRST_DATA_PAGE_ID \<and> p_active_slot pg' = 0"
proof -
  from assms obtain pg fs1 where c: "pager_create xxh path ps fs = (Inr pg, fs1)" "pager_inv xxh pg"
    "meta_of pg = fresh_meta ps" "p_active_slot pg = 0" "fault_free (p_file pg)" "fs_files fs1 path = Some (p_file pg)"
    by (rule pager_create_fault_free [where xxh = xxh])
  have "fs_open_faults fs1 = []" using c(1) assms(1,2)
    by (auto simp: pager_create_def open_create_new_def open_tick_def put_file_def Let_def split: prod.splits sum.splits)
  with c pager_inv_contents [OF c(2), of path] obtain pg' fs2 where "pager_open xxh path fs1 = (Inr pg', fs2)"
    "meta_of pg' = fresh_meta ps" "p_active_slot pg' = 0"
    using pager_open_opens_to by (metis (no_types))
  with c(1) show ?thesis by (auto simp: meta_of_def fresh_meta_def)
qed

lemma create_then_open_witness:
  "\<exists>pg fs1 pg' fs2. pager_create (\<lambda>_. 0) ''db'' (PageSize 8192) empty_fs = (Inr pg, fs1) \<and>
     pager_open (\<lambda>_. 0) ''db'' fs1 = (Inr pg', fs2) \<and>
     p_page_size pg' = PageSize 8192 \<and> p_txn_id pg' = 0 \<and> p_root_page_id pg' = EMPTY_TREE_ROOT \<and>
     p_page_count pg' = FIRST_DATA_PAGE_ID \<and> p_active_slot pg' = 0"
  by (rule create_then_open) (simp_all add: valid_page_size_def)

text \<open>
  C10: a commit is atomic under every crash. Whichever I/O call of the commit fails, and whatever
  part of the unsynced writes survives, the file opens again, and it opens to the transaction
  before or to the one committed; after a commit that returned it opens to the one committed.
  \<open>torn_detected\<close> is what the checksum is relied on for: a meta slot torn between its old
  and its new bytes does not verify.
\<close>
lemma commit_atomic:
  assumes inv: "pager_inv xxh pg" and txn: "p_txn_id pg \<noteq> - 1"
    and torn: "torn_detected xxh (slice (f_durable (p_file pg)) (slot_pos (1 - p_active_slot pg)) 4096)
      (encoded_slot xxh (next_meta pg root count))"
    and commit: "pager_commit xxh root count pg = (r, pg')" and crash: "crash_image (p_file pg') c"
  shows "\<exists>pg''. reopen xxh path c = Inr pg'' \<and> (meta_of pg'' = meta_of pg \<or> meta_of pg'' = next_meta pg root count) \<and>
    (r = Inr () \<longrightarrow> meta_of pg'' = next_meta pg root count)"
  using commit pager_inv_active(1) [OF inv]
proof (cases rule: pager_commit_outcomes)
  case (unsynced e)
  have "pager_inv xxh (pg\<lparr>p_file := p_file pg'\<rparr>)"
    using inv unsynced(3,4) by (simp add: pager_inv_def meta_of_def)
  then have "slots_ok xxh c (p_active_slot pg) (meta_of pg)"
    using pager_inv_crash [of xxh "pg\<lparr>p_file := p_file pg'\<rparr>" c] crash by (simp add: meta_of_def)
  then have "opens_to xxh path c (p_active_slot pg) (meta_of pg)" by (rule opens_to_slots)
  then show ?thesis using unsynced(1) by (auto elim: reopen_opens_to)
next
  case (torn e k)
  from torn_commit_slots [OF inv txn assms(3) torn(3,4) crash] show ?thesis
    using torn(1) by (auto elim: reopen_opens_to [OF opens_to_slots])
next
  case committed
  have "opens_to xxh path c (p_active_slot pg') (meta_of pg')"
    using opens_to_slots [OF pager_inv_crash [OF commit_keeps_inv(1) [OF inv txn] crash]] commit committed(1) by simp
  then show ?thesis using committed(2) by (auto elim: reopen_opens_to)
qed

lemma torn_detected_by:
  assumes xxh: "xxh = (\<lambda>b. if b = meta_body m then 1 else 2)"
  shows "torn_detected xxh (replicate 4096 0) (encoded_slot xxh m)"
  unfolding torn_detected_def
proof (intro allI impI)
  fix s assume mix: "torn_mix (replicate 4096 0) (encoded_slot xxh m) s" and v: "verify_checksum xxh s = Inr ()"
  have len: "length s = 4096" using mix by (simp add: torn_mix_def)
  have b: "s ! i = 0 \<or> s ! i = encoded_slot xxh m ! i" if "i < 4096" for i
    using mix that by (auto simp: torn_mix_def list_all_iff)
  have be: "to_be_bytes 8 (1 :: u64) = [0, 0, 0, 0, 0, 0, 0, 1]" "to_be_bytes 8 (2 :: u64) ! 7 = 2" by code_simp+
  then have new: "encoded_slot xxh m = meta_body m @ [0, 0, 0, 0, 0, 0, 0, 1]" by (simp add: encoded_slot_def xxh)
  have tr: "u64_at s 4088 = xxh (page_body s)" using v len by (simp add: verify_checksum_long split: if_splits)
  have bytes: "slice s 4088 8 = to_be_bytes 8 (u64_at s 4088)"
    using to_from_be_bytes [of "slice s 4088 8", where 'a = 64] len by (simp add: u64_at_def)
  have "slice s 4088 8 ! 7 = s ! 4095" using len by (simp add: slice_def)
  moreover have "s ! 4095 = 0 \<or> s ! 4095 = 1" using b [of 4095] by (simp add: new nth_append)
  ultimately have "u64_at s 4088 \<noteq> 2" using bytes be(2) by auto
  then have pb: "page_body s = meta_body m" "u64_at s 4088 = 1" using tr by (auto simp: xxh split: if_splits)
  have "s = page_body s @ slice s 4088 8" using len by (simp add: page_body_def slice_def)
  then have "s = encoded_slot xxh m" using pb bytes by (simp add: encoded_slot_def xxh)
  then show "s = replicate 4096 0 \<or> s = encoded_slot xxh m" ..
qed

text \<open>The slot write of the commit tears after 100 bytes and the crash loses them.\<close>

lemma commit_atomic_witness:
  "\<exists>xxh pg e pg'. pager_commit xxh 2 3 pg = (Inl e, pg') \<and> meta_of pg = fresh_meta DEFAULT_PAGE_SIZE \<and>
     length (f_pending (p_file pg')) = 1 \<and>
     (\<exists>pg''. reopen xxh ''db'' (f_durable (p_file pg')) = Inr pg'' \<and>
        (meta_of pg'' = meta_of pg \<or> meta_of pg'' = next_meta pg 2 3) \<and>
        (Inl e = Inr () \<longrightarrow> meta_of pg'' = next_meta pg 2 3))"
proof -
  define m where "m = \<lparr>mc_page_size = DEFAULT_PAGE_SIZE, mc_txn_id = 1, mc_root_page_id = 2, mc_page_count = 3\<rparr>"
  define xxh :: "bytes \<Rightarrow> u64" where "xxh = (\<lambda>b. if b = meta_body m then 1 else 2)"
  obtain pg0 fs' where c: "pager_create xxh ''db'' DEFAULT_PAGE_SIZE empty_fs = (Inr pg0, fs')" "pager_inv xxh pg0"
    "meta_of pg0 = fresh_meta DEFAULT_PAGE_SIZE" "p_active_slot pg0 = 0" "f_pending (p_file pg0) = []"
    "f_durable (p_file pg0) = encoded_slot xxh (fresh_meta DEFAULT_PAGE_SIZE) @ replicate 4096 0"
    by (rule created_pager [OF default_page_size])
  define pg where "pg = pg0\<lparr>p_file := p_file pg0\<lparr>f_faults := [None, Some 100]\<rparr>\<rparr>"
  have m: "next_meta pg 2 3 = m" "meta_of pg = fresh_meta DEFAULT_PAGE_SIZE"
    using c(3) by (simp_all add: pg_def m_def next_meta_def meta_of_def fresh_meta_def)
  have inv: "pager_inv xxh pg" "p_txn_id pg \<noteq> - 1"
    using c(2,3) by (simp_all add: pg_def pager_inv_def meta_of_def fresh_meta_def)
  have "slice (f_durable (p_file pg)) (slot_pos (1 - p_active_slot pg)) 4096 = replicate 4096 0"
    using c(4,6) by (simp add: pg_def slot_pos_def slice_append_right slice_def)
  then have torn: "torn_detected xxh (slice (f_durable (p_file pg)) (slot_pos (1 - p_active_slot pg)) 4096)
      (encoded_slot xxh (next_meta pg 2 3))" using torn_detected_by [OF xxh_def] m(1) by simp
  obtain e pg' where r: "pager_commit xxh 2 3 pg = (Inl e, pg')" "length (f_pending (p_file pg')) = 1"
    by (simp add: pg_def pager_commit_def sync_data_def pager_io_def io_at_def file_sync_def io_tick_def sbind_def spure_def
      encode_meta_slot_Inr write_all_at_def)
  from commit_atomic [OF inv torn r(1) crash_image_lost, of "''db''"] r m(2) show ?thesis by blast
qed

text \<open>
  C33: the file offset of a page never wraps around: it is the meta region plus the pages before
  it, so pages lie above the meta region and no two of them overlap.
\<close>
lemma file_offset_regions:
  assumes "valid_page_size (page_bytes (p_page_size pg))" "2 \<le> unat pid" "unat pid < unat pid'"
  shows "unat (file_offset pg pid) = unat META_REGION_LEN + (unat pid - 2) * bytes_usize (p_page_size pg) \<and>
    unat (file_offset pg pid) + bytes_usize (p_page_size pg) \<le> unat (file_offset pg pid')"
  using unat_file_offset [OF assms(1), of pid] page_region_before [OF assms] by (simp add: page_consts)

lemma file_offset_regions_witness:
  "\<exists>pg. p_page_size pg = PageSize 65536 \<and>
     unat (file_offset pg 0xFFFFFFFE) = unat META_REGION_LEN + (unat (0xFFFFFFFE :: u32) - 2) * bytes_usize (p_page_size pg) \<and>
     unat (file_offset pg 0xFFFFFFFE) + bytes_usize (p_page_size pg) \<le> unat (file_offset pg 0xFFFFFFFF)"
proof -
  have v: "valid_page_size (page_bytes (PageSize 65536))" by (simp add: valid_page_size_def)
  obtain pg fs' where "meta_of pg = fresh_meta (PageSize 65536)" by (rule created_pager [OF v])
  then have ps: "p_page_size pg = PageSize 65536" by (simp add: meta_of_def fresh_meta_def)
  have "2 \<le> unat (0xFFFFFFFE :: u32)" "unat (0xFFFFFFFE :: u32) < unat (0xFFFFFFFF :: u32)" by simp_all
  with v ps file_offset_regions [of pg "0xFFFFFFFE" "0xFFFFFFFF"] show ?thesis by (intro exI [of _ pg]) simp
qed

text \<open>
  C31: a data page written is the page read back, stamped with its checksum, and every other
  intact page of the file reads as before.
\<close>
lemma data_page_round_trip:
  assumes "valid_page_size (page_bytes (p_page_size pg))" "fault_free (p_file pg)" "2 \<le> unat pid"
    and "length buf = bytes_usize (p_page_size pg)"
  shows "\<exists>buf' pg1 pg2. write_data_page xxh pid buf pg = ((Inr (), buf'), pg1) \<and>
    read_data_page xxh pid pg1 = (Inr buf', pg2) \<and> page_body buf' = page_body buf \<and>
    (\<forall>other b. 2 \<le> unat other \<and> other \<noteq> pid \<and> disk_page xxh pg other = Some b \<longrightarrow>
       disk_page xxh pg1 other = Some b)"
proof -
  have 8: "8 \<le> length buf" "buf \<noteq> []" using assms(4) valid_page_size_bounds [OF assms(1)] by auto
  from assms(2) 8(1) obtain buf' pg1 where w: "write_data_page xxh pid buf pg = ((Inr (), buf'), pg1)" "fault_free (p_file pg1)"
    by (rule write_data_page_fault_free)
  obtain bs where o: "same_pager pg pg1" "length buf' = length buf" "page_body buf' = page_body buf"
    "verify_checksum xxh buf' = Inr ()" "length bs \<le> length buf" "bs = buf'" "f_durable (p_file pg1) = f_durable (p_file pg)"
    "f_pending (p_file pg1) = f_pending (p_file pg) @ [(unat (file_offset pg pid), bs)]"
    by (rule write_data_page_outcome [OF w(1) 8(1)]) simp
  have c: "contents (p_file pg1) = overwrite (contents (p_file pg)) (unat (file_offset pg pid)) buf'"
    using contents_of_pending [OF o(7,8)] o(6) by simp
  have at: "page_at pg1 pid = buf'"
    using slice_overwrite_same [of "contents (p_file pg)" "unat (file_offset pg pid)" buf'] o(2) assms(4)
      same_pager_sel(1,8) [OF o(1)] by (simp add: page_at_def c)
  have "disk_page xxh pg1 pid = Some (page_body buf')"
    by (rule disk_page_written [OF o(1) c]) (use o(2,4) 8 assms(4) in auto)
  with w(2) obtain f' where "read_data_page xxh pid pg1 = (Inr (page_at pg1 pid), pg1\<lparr>p_file := f'\<rparr>)"
    by (rule read_data_page_disk)
  moreover have "disk_page xxh pg1 other = Some b" if "2 \<le> unat other" "other \<noteq> pid" "disk_page xxh pg other = Some b" for other b
    using disk_page_write_other [OF assms(1,3) that(1) _ o(1) c _ that(3)] that(2) o(2) assms(4) by simp
  ultimately show ?thesis using w(1) at o(3) by blast
qed

lemma data_page_round_trip_witness:
  "\<exists>pg buf' pg1 pg2. write_data_page (\<lambda>_. 0) 2 (replicate 4096 1) pg = ((Inr (), buf'), pg1) \<and>
    read_data_page (\<lambda>_. 0) 2 pg1 = (Inr buf', pg2) \<and> page_body buf' = page_body (replicate 4096 1) \<and>
    (\<forall>other b. 2 \<le> unat other \<and> other \<noteq> 2 \<and> disk_page (\<lambda>_. 0) pg other = Some b \<longrightarrow>
       disk_page (\<lambda>_. 0) pg1 other = Some b)"
proof -
  obtain pg fs' where pg: "meta_of pg = fresh_meta DEFAULT_PAGE_SIZE" "fault_free (p_file pg)"
    by (rule created_pager [OF default_page_size])
  then have ps: "p_page_size pg = DEFAULT_PAGE_SIZE" by (simp add: meta_of_def fresh_meta_def)
  have "length (replicate 4096 (1 :: u8)) = bytes_usize (p_page_size pg)"
    by (simp add: ps bytes_usize_def DEFAULT_PAGE_SIZE_def)
  from data_page_round_trip [OF _ pg(2) _ this, of 2 "\<lambda>_. 0"] show ?thesis
    using default_page_size ps by auto
qed

end
