(* ===== verification/Buffer_Pool.thy ===== *)
theory Buffer_Pool
  imports Pager "HOL-Library.AList"
begin

text \<open>
  \<open>crates/pinax/src/buffer_pool.rs\<close>: the page cache over the pager. The hash map of
  entries is an association list, the set of dirty ids and the recency queue are lists. The
  iteration order of a Rust hash set is unspecified; the invariant leaves the order of the
  dirty list open, so what is proved of a flush holds for every order.

  \<open>pool_view\<close> is the page store the pool presents: the cached body of a page, or else
  the body on disk. The locale \<open>page_store\<close> states what a client may rely on, and the
  pool's operations interpret it.
\<close>

section \<open>Operations\<close>

record pool =
  bp_pager :: pager
  bp_capacity :: nat
  bp_entries :: "(u32 \<times> bytes) list"
  bp_dirty :: "u32 list"
  bp_recency :: "u32 list"
  bp_next_page_id :: u32

type_synonym 'a pmethod = "(pool, pinax_error, 'a) smethod"

definition pool_new :: "pager \<Rightarrow> nat \<Rightarrow> pool presult" where
  "pool_new pager capacity =
     (if capacity \<ge> 1
      then Inr \<lparr>bp_pager = pager, bp_capacity = capacity, bp_entries = [], bp_dirty = [],
                bp_recency = [], bp_next_page_id = pager_page_count pager\<rparr>
      else Inl (Permanent InvalidBufferPoolCapacity))"

definition pool_page_size :: "pool \<Rightarrow> page_size" where
  "pool_page_size p = pager_page_size (bp_pager p)"

definition pool_root_page_id :: "pool \<Rightarrow> u32" where
  "pool_root_page_id p = pager_root_page_id (bp_pager p)"

definition allocate_page_id :: "u32 pmethod" where
  "allocate_page_id p = (Inr (bp_next_page_id p), p\<lparr>bp_next_page_id := bp_next_page_id p + 1\<rparr>)"

text \<open>\<open>HashMap::remove\<close> and \<open>VecDeque::retain\<close>; \<open>insert\<close> of both collections.\<close>

definition entries_remove :: "u32 \<Rightarrow> (u32 \<times> bytes) list \<Rightarrow> (u32 \<times> bytes) list" where
  "entries_remove pid es = filter (\<lambda>e. fst e \<noteq> pid) es"

definition entries_insert :: "u32 \<Rightarrow> bytes \<Rightarrow> (u32 \<times> bytes) list \<Rightarrow> (u32 \<times> bytes) list" where
  "entries_insert pid buf es = entries_remove pid es @ [(pid, buf)]"

definition touch :: "u32 \<Rightarrow> pool \<Rightarrow> pool" where
  "touch pid p = p\<lparr>bp_recency := removeAll pid (bp_recency p) @ [pid]\<rparr>"

definition evict_one :: "(bytes \<Rightarrow> u64) \<Rightarrow> unit pmethod" where
  "evict_one xxh p =
     (case bp_recency p of
        [] \<Rightarrow> (Inl (Fatal PoolInvariantViolated), p)
      | pid # rest \<Rightarrow>
          (let p1 = p\<lparr>bp_recency := rest\<rparr> in
           case map_of (bp_entries p1) pid of
             None \<Rightarrow> (Inl (Fatal PoolInvariantViolated), p1)
           | Some buf \<Rightarrow>
               (let p2 = p1\<lparr>bp_entries := entries_remove pid (bp_entries p1)\<rparr> in
                if pid \<in> set (bp_dirty p2) then
                  (let p3 = p2\<lparr>bp_dirty := removeAll pid (bp_dirty p2)\<rparr> in
                   case write_data_page xxh pid buf (bp_pager p3) of
                     ((r, _), pager) \<Rightarrow> (r, p3\<lparr>bp_pager := pager\<rparr>))
                else (Inr (), p2))))"

lemma entries_remove_shorter:
  "map_of es pid = Some buf \<Longrightarrow> length (entries_remove pid es) < length es"
  unfolding entries_remove_def by (rule length_filter_less [of "(pid, buf)"]) (auto dest: map_of_SomeD)

lemma evict_one_shorter:
  "evict_one xxh p = (Inr (), p') \<Longrightarrow> length (bp_entries p') < length (bp_entries p)"
  by (auto simp: evict_one_def Let_def entries_remove_shorter split: list.splits option.splits if_splits prod.splits)

text \<open>The loop \<open>while self.entries.len() >= self.capacity { self.evict_one()?; }\<close>.\<close>

function evict_to_fit :: "(bytes \<Rightarrow> u64) \<Rightarrow> unit pmethod" where
  "evict_to_fit xxh p =
     (if bp_capacity p \<le> length (bp_entries p) then
        (case evict_one xxh p of
           (Inl e, p') \<Rightarrow> (Inl e, p')
         | (Inr _, p') \<Rightarrow> evict_to_fit xxh p')
      else (Inr (), p))"
  by pat_completeness auto
termination
  by (relation "measure (\<lambda>(xxh, p). length (bp_entries p))") (auto dest: evict_one_shorter [OF sym])

declare evict_to_fit.simps [simp del]

definition insert_cached :: "(bytes \<Rightarrow> u64) \<Rightarrow> u32 \<Rightarrow> bytes \<Rightarrow> bool \<Rightarrow> unit pmethod" where
  "insert_cached xxh pid buf dirty p =
     (let p1 = (if map_of (bp_entries p) pid \<noteq> None
                then p\<lparr>bp_entries := entries_remove pid (bp_entries p),
                       bp_recency := removeAll pid (bp_recency p)\<rparr>
                else p)
      in sbind (evict_to_fit xxh) (\<lambda>_ p2.
           let p3 = (if dirty then p2\<lparr>bp_dirty := List.insert pid (bp_dirty p2)\<rparr> else p2)
           in (Inr (), p3\<lparr>bp_entries := entries_insert pid buf (bp_entries p3),
                          bp_recency := bp_recency p3 @ [pid]\<rparr>)) p1)"

definition pool_read :: "(bytes \<Rightarrow> u64) \<Rightarrow> u32 \<Rightarrow> bytes pmethod" where
  "pool_read xxh pid p =
     (case read_data_page xxh pid (bp_pager p) of (r, pager) \<Rightarrow> (r, p\<lparr>bp_pager := pager\<rparr>))"

definition pool_get :: "(bytes \<Rightarrow> u64) \<Rightarrow> u32 \<Rightarrow> bytes pmethod" where
  "pool_get xxh pid p =
     (case map_of (bp_entries p) pid of
        Some buf \<Rightarrow> (Inr buf, touch pid p)
      | None \<Rightarrow>
          sbind (pool_read xxh pid) (\<lambda>buf.
          sbind (insert_cached xxh pid buf False) (\<lambda>_.
            spure (Inr buf))) p)"

definition put_new :: "(bytes \<Rightarrow> u64) \<Rightarrow> u32 \<Rightarrow> bytes \<Rightarrow> unit pmethod" where
  "put_new xxh pid buf = insert_cached xxh pid buf True"

text \<open>
  The \<open>for\<close> loop of \<open>flush_all_dirty\<close>: the cached buffer is stamped in place, and
  a write that fails leaves its id dirty.
\<close>

fun flush_ids :: "(bytes \<Rightarrow> u64) \<Rightarrow> u32 list \<Rightarrow> unit pmethod" where
  "flush_ids xxh [] p = (Inr (), p)"
| "flush_ids xxh (pid # ids) p =
     (case map_of (bp_entries p) pid of
        Some buf \<Rightarrow>
          (case write_data_page xxh pid buf (bp_pager p) of
             ((r, buf'), pager) \<Rightarrow>
               (let p' = p\<lparr>bp_pager := pager,
                            bp_entries := AList.update pid buf' (bp_entries p)\<rparr>
                in case r of
                     Inl e \<Rightarrow> (Inl e, p')
                   | Inr _ \<Rightarrow> flush_ids xxh ids (p'\<lparr>bp_dirty := removeAll pid (bp_dirty p')\<rparr>)))
      | None \<Rightarrow> flush_ids xxh ids (p\<lparr>bp_dirty := removeAll pid (bp_dirty p)\<rparr>))"

definition pool_sync :: "unit pmethod" where
  "pool_sync p = (case sync_data (bp_pager p) of (r, pager) \<Rightarrow> (r, p\<lparr>bp_pager := pager\<rparr>))"

definition flush_all_dirty :: "(bytes \<Rightarrow> u64) \<Rightarrow> unit pmethod" where
  "flush_all_dirty xxh p = sbind (flush_ids xxh (bp_dirty p)) (\<lambda>_. pool_sync) p"

definition pool_commit :: "(bytes \<Rightarrow> u64) \<Rightarrow> u32 \<Rightarrow> unit pmethod" where
  "pool_commit xxh new_root =
     sbind (flush_all_dirty xxh) (\<lambda>_ p.
       case pager_commit xxh new_root (bp_next_page_id p) (bp_pager p) of
         (r, pager) \<Rightarrow> (r, p\<lparr>bp_pager := pager\<rparr>))"

section \<open>Invariant and view\<close>

abbreviation entry_ids :: "pool \<Rightarrow> u32 set" where
  "entry_ids p \<equiv> fst ` set (bp_entries p)"

text \<open>The bookkeeping: the recency queue lists the cached ids, dirty pages are cached.\<close>

definition pool_wf :: "pool \<Rightarrow> bool" where
  "pool_wf p \<longleftrightarrow> 1 \<le> bp_capacity p \<and> distinct (map fst (bp_entries p)) \<and>
     distinct (bp_recency p) \<and> set (bp_recency p) = entry_ids p \<and>
     distinct (bp_dirty p) \<and> set (bp_dirty p) \<subseteq> entry_ids p"

text \<open>
  The contents: every cached page has the page's length, a clean data page is what is on disk, and
  the dirty pages are data pages.
\<close>

definition pool_coherent :: "(bytes \<Rightarrow> u64) \<Rightarrow> pool \<Rightarrow> bool" where
  "pool_coherent xxh p \<longleftrightarrow> valid_page_size (page_bytes (pool_page_size p)) \<and>
     (\<forall>pid \<in> set (bp_dirty p). 2 \<le> unat pid) \<and>
     (\<forall>(pid, buf) \<in> set (bp_entries p). length buf = bytes_usize (pool_page_size p) \<and>
        (pid \<notin> set (bp_dirty p) \<longrightarrow> 2 \<le> unat pid \<longrightarrow> disk_page xxh (bp_pager p) pid = Some (page_body buf)))"

definition pool_inv :: "(bytes \<Rightarrow> u64) \<Rightarrow> pool \<Rightarrow> bool" where
  "pool_inv xxh p \<longleftrightarrow> pool_wf p \<and> pool_coherent xxh p \<and> length (bp_entries p) \<le> bp_capacity p"

definition pool_view :: "(bytes \<Rightarrow> u64) \<Rightarrow> pool \<Rightarrow> u32 \<Rightarrow> bytes option" where
  "pool_view xxh p pid =
     (if unat pid < 2 then None
      else case map_of (bp_entries p) pid of
             Some buf \<Rightarrow> Some (page_body buf)
           | None \<Rightarrow> disk_page xxh (bp_pager p) pid)"

text \<open>What every operation but a commit leaves alone.\<close>

definition pool_frame :: "pool \<Rightarrow> pool \<Rightarrow> bool" where
  "pool_frame p p' \<longleftrightarrow> same_pager (bp_pager p) (bp_pager p') \<and> bp_capacity p' = bp_capacity p \<and>
     bp_next_page_id p' = bp_next_page_id p"

lemma pool_frame_refl [simp]: "pool_frame p p"
  by (simp add: pool_frame_def)

lemma pool_frame_trans: "pool_frame a b \<Longrightarrow> pool_frame b c \<Longrightarrow> pool_frame a c"
  unfolding pool_frame_def by (metis same_pager_trans)

lemma pool_frame_sel:
  assumes "pool_frame p p'"
  shows "pool_page_size p' = pool_page_size p" "pool_root_page_id p' = pool_root_page_id p"
    "bp_capacity p' = bp_capacity p" "bp_next_page_id p' = bp_next_page_id p"
  using assms same_pager_sel [of "bp_pager p" "bp_pager p'"]
  by (auto simp: pool_frame_def pool_page_size_def pool_root_page_id_def)

lemma pool_coherent_entry:
  assumes "pool_coherent xxh p" "map_of (bp_entries p) pid = Some buf"
  shows "pid \<in> set (bp_dirty p) \<Longrightarrow> 2 \<le> unat pid" "length buf = bytes_usize (pool_page_size p)" "8 \<le> length buf"
    "pid \<notin> set (bp_dirty p) \<Longrightarrow> 2 \<le> unat pid \<Longrightarrow> disk_page xxh (bp_pager p) pid = Some (page_body buf)"
proof -
  have "(pid, buf) \<in> set (bp_entries p)" using assms(2) by (rule map_of_SomeD)
  then show *: "pid \<in> set (bp_dirty p) \<Longrightarrow> 2 \<le> unat pid" "length buf = bytes_usize (pool_page_size p)"
    "pid \<notin> set (bp_dirty p) \<Longrightarrow> 2 \<le> unat pid \<Longrightarrow> disk_page xxh (bp_pager p) pid = Some (page_body buf)"
    using assms(1) by (auto simp: pool_coherent_def)
  have "valid_page_size (page_bytes (pool_page_size p))" using assms(1) by (simp add: pool_coherent_def)
  then show "8 \<le> length buf" using * valid_page_size_bounds(1) [of "pool_page_size p"] by simp
qed

lemma map_of_entry_ids: "map_of (bp_entries p) pid = None \<longleftrightarrow> pid \<notin> entry_ids p"
  by (simp add: map_of_eq_None_iff)

lemma pool_view_cong:
  "bp_entries p' = bp_entries p \<Longrightarrow> disk_page xxh (bp_pager p') = disk_page xxh (bp_pager p) \<Longrightarrow>
     pool_view xxh p' = pool_view xxh p"
  by (intro ext) (simp add: pool_view_def split: option.split)

text \<open>What a page write does to the disk pages, in both outcomes.\<close>

lemma write_data_page_disk:
  assumes "write_data_page xxh pid buf pg = ((r, buf'), pg')"
    and "valid_page_size (page_bytes (p_page_size pg))" "2 \<le> unat pid" "length buf = bytes_usize (p_page_size pg)"
  shows "same_pager pg pg'" "length buf' = length buf" "page_body buf' = page_body buf"
    and "r = Inr () \<Longrightarrow> disk_page xxh pg' pid = Some (page_body buf)"
    and "2 \<le> unat pid' \<Longrightarrow> pid' \<noteq> pid \<Longrightarrow> disk_page xxh pg pid' = Some b \<Longrightarrow> disk_page xxh pg' pid' = Some b"
proof -
  have 8: "8 \<le> length buf" using valid_page_size_bounds(1) [OF assms(2)] assms(4) by simp
  from assms(1) 8 obtain bs where W: "same_pager pg pg'" "length buf' = length buf"
    "page_body buf' = page_body buf" "verify_checksum xxh buf' = Inr ()" "length bs \<le> length buf"
    "r = Inr () \<Longrightarrow> bs = buf'" "f_durable (p_file pg') = f_durable (p_file pg)"
    "f_pending (p_file pg') = f_pending (p_file pg) @ [(unat (file_offset pg pid), bs)]"
    by (rule write_data_page_outcome) blast
  show "same_pager pg pg'" "length buf' = length buf" "page_body buf' = page_body buf" by fact+
  have c: "contents (p_file pg') = overwrite (contents (p_file pg)) (unat (file_offset pg pid)) bs"
    using W(7,8) by (rule contents_of_pending)
  show "disk_page xxh pg' pid = Some (page_body buf)" if "r = Inr ()"
  proof -
    have "buf' \<noteq> []" using 8 W(2) by auto
    with c that W have "disk_page xxh pg' pid = Some (page_body buf')"
      by (intro disk_page_written) (simp_all add: assms(4))
    then show ?thesis by (simp add: W(3))
  qed
  show "disk_page xxh pg' pid' = Some b" if "2 \<le> unat pid'" "pid' \<noteq> pid" "disk_page xxh pg pid' = Some b"
    using that W(1,5) c assms by (intro disk_page_write_other [of pg pid pid' pg' bs]) auto
qed

section \<open>Eviction\<close>

lemma set_entries_remove: "set (entries_remove pid es) = {e \<in> set es. fst e \<noteq> pid}"
  by (simp add: entries_remove_def)

lemma map_of_entries_remove: "map_of (entries_remove pid es) = (map_of es)(pid := None)"
  by (induction es) (auto simp: entries_remove_def fun_upd_twist)

lemma distinct_entries_remove: "distinct (map fst es) \<Longrightarrow> distinct (map fst (entries_remove pid es))"
  by (simp add: entries_remove_def distinct_map_filter)

lemma evict_one_inv:
  assumes "pool_wf p" "pool_coherent xxh p" "evict_one xxh p = (r, p')"
  shows "pool_wf p'" "pool_coherent xxh p'" "pool_frame p p'"
    and "r = Inr () \<Longrightarrow> pool_view xxh p \<subseteq>\<^sub>m pool_view xxh p'"
proof -
  have thesis: "pool_wf p' \<and> pool_coherent xxh p' \<and> pool_frame p p' \<and>
      (r = Inr () \<longrightarrow> pool_view xxh p \<subseteq>\<^sub>m pool_view xxh p')"
  proof (cases "bp_recency p")
    case Nil
    with assms show ?thesis by (simp add: evict_one_def)
  next
    case (Cons pid rest)
    then have "pid \<in> entry_ids p" using assms(1) by (auto simp: pool_wf_def)
    then obtain buf where buf: "map_of (bp_entries p) pid = Some buf"
      by (metis map_of_entry_ids option.exhaust)
    note E = pool_coherent_entry [OF assms(2) buf]
    let ?es = "entries_remove pid (bp_entries p)" and ?d = "removeAll pid (bp_dirty p)"
    have wf: "pool_wf p'" if "bp_entries p' = ?es" "bp_recency p' = rest" "bp_dirty p' = ?d" "bp_capacity p' = bp_capacity p"
      using assms(1) Cons that
      by (auto simp: pool_wf_def distinct_entries_remove set_entries_remove distinct_removeAll)
    show ?thesis
    proof (cases "pid \<in> set (bp_dirty p)")
      case False
      then have p': "p' = p\<lparr>bp_recency := rest, bp_entries := ?es\<rparr>" and r: "r = Inr ()"
        using assms(3) by (simp_all add: evict_one_def Cons buf)
      moreover have "pool_coherent xxh p'"
        using assms(2) by (auto simp: p' pool_coherent_def set_entries_remove pool_page_size_def)
      moreover have "pool_wf p'" using False by (intro wf) (simp_all add: p')
      moreover have "pool_view xxh p' = pool_view xxh p"
        using E(4) [OF False] buf by (intro ext) (simp add: pool_view_def p' map_of_entries_remove split: option.split)
      ultimately show ?thesis by (simp add: pool_frame_def)
    next
      case True
      obtain r1 b1 pg1 where w: "write_data_page xxh pid buf (bp_pager p) = ((r1, b1), pg1)"
        by (metis prod.collapse)
      have p': "p' = p\<lparr>bp_recency := rest, bp_entries := ?es, bp_dirty := ?d, bp_pager := pg1\<rparr>" and r: "r = r1"
        using assms(3) True w by (simp_all add: evict_one_def Cons buf)
      have vps: "valid_page_size (page_bytes (p_page_size (bp_pager p)))"
        using assms(2) by (simp add: pool_coherent_def pool_page_size_def)
      note W = write_data_page_disk [OF w vps E(1) [OF True] E(2) [unfolded pool_page_size_def pager_page_size_def]]
      have "pool_coherent xxh p'"
        using assms(2) W(5) same_pager_sel(1) [OF W(1)]
        by (auto simp: p' pool_coherent_def set_entries_remove pool_page_size_def)
      moreover have "pool_wf p'" by (intro wf) (simp_all add: p')
      moreover have "pool_view xxh p \<subseteq>\<^sub>m pool_view xxh p'" if "r = Inr ()"
        using W(4) W(5) buf that
        by (auto simp: map_le_def dom_def pool_view_def p' map_of_entries_remove r split: option.splits if_splits)
      ultimately show ?thesis using W(1) by (simp add: p' pool_frame_def)
    qed
  qed
  then show "pool_wf p'" "pool_coherent xxh p'" "pool_frame p p'"
    "r = Inr () \<Longrightarrow> pool_view xxh p \<subseteq>\<^sub>m pool_view xxh p'" by blast+
qed

lemma evict_one_entries:
  "evict_one xxh p = (r, p') \<Longrightarrow> set (bp_entries p') \<subseteq> set (bp_entries p) \<and> length (bp_entries p') \<le> length (bp_entries p)"
  by (auto simp: evict_one_def Let_def entries_remove_def length_filter_le
      split: list.splits option.splits if_splits prod.splits)

abbreviation pool_file :: "pool \<Rightarrow> dbfile" where
  "pool_file p \<equiv> p_file (bp_pager p)"

lemma evict_one_fault_free:
  assumes "pool_wf p" "pool_coherent xxh p" "fault_free (pool_file p)" "bp_entries p \<noteq> []"
  obtains p' where "evict_one xxh p = (Inr (), p')" "fault_free (pool_file p')"
proof -
  obtain pid rest where rec: "bp_recency p = pid # rest"
    using assms(1,4) by (cases "bp_recency p") (auto simp: pool_wf_def)
  then have "pid \<in> entry_ids p" using assms(1) by (auto simp: pool_wf_def)
  then obtain buf where buf: "map_of (bp_entries p) pid = Some buf"
    by (metis map_of_entry_ids option.exhaust)
  have "8 \<le> length buf" using pool_coherent_entry(3) [OF assms(2) buf] .
  with assms(3) obtain b1 pg1 where "write_data_page xxh pid buf (bp_pager p) = ((Inr (), b1), pg1)"
    "fault_free (p_file pg1)" by (rule write_data_page_fault_free)
  then show thesis
    using that assms(3) by (cases "pid \<in> set (bp_dirty p)") (simp_all add: evict_one_def rec buf)
qed

lemma evict_to_fit_inv:
  assumes "pool_wf p" "pool_coherent xxh p" "evict_to_fit xxh p = (r, p')"
  shows "pool_wf p' \<and> pool_coherent xxh p' \<and> pool_frame p p' \<and> set (bp_entries p') \<subseteq> set (bp_entries p) \<and>
    length (bp_entries p') \<le> length (bp_entries p) \<and>
    (r = Inr () \<longrightarrow> pool_view xxh p \<subseteq>\<^sub>m pool_view xxh p' \<and> length (bp_entries p') < bp_capacity p')"
  using assms
proof (induction xxh p arbitrary: r p' rule: evict_to_fit.induct)
  case (1 xxh p)
  show ?case
  proof (cases "bp_capacity p \<le> length (bp_entries p)")
    case False
    with "1.prems" have "p' = p" "r = Inr ()" by (simp_all add: evict_to_fit.simps)
    with "1.prems" False show ?thesis by simp
  next
    case True
    obtain r1 p1 where ev: "evict_one xxh p = (r1, p1)" by fastforce
    note inv = evict_one_inv [OF "1.prems"(1,2) ev] and ents = evict_one_entries [OF ev]
    show ?thesis
    proof (cases r1)
      case (Inl e)
      then have "r = Inl e" "p' = p1" using "1.prems"(3) True ev by (simp_all add: evict_to_fit.simps [of xxh p])
      with inv ents show ?thesis by simp
    next
      case (Inr u)
      then have rec: "evict_to_fit xxh p1 = (r, p')"
        using "1.prems"(3) True ev by (simp add: evict_to_fit.simps [of xxh p])
      have IH: "pool_wf p' \<and> pool_coherent xxh p' \<and> pool_frame p1 p' \<and> set (bp_entries p') \<subseteq> set (bp_entries p1) \<and>
          length (bp_entries p') \<le> length (bp_entries p1) \<and>
          (r = Inr () \<longrightarrow> pool_view xxh p1 \<subseteq>\<^sub>m pool_view xxh p' \<and> length (bp_entries p') < bp_capacity p')"
        by (rule "1.IH" [OF True ev [symmetric] Inr inv(1,2) rec])
      have "pool_frame p p'" using inv(3) IH pool_frame_trans by blast
      moreover have "pool_view xxh p \<subseteq>\<^sub>m pool_view xxh p1" using inv(4) Inr by simp
      ultimately show ?thesis using IH ents by (auto intro: map_le_trans)
    qed
  qed
qed

lemma evict_to_fit_fault_free:
  assumes "pool_wf p" "pool_coherent xxh p" "fault_free (pool_file p)"
  shows "\<exists>p'. evict_to_fit xxh p = (Inr (), p') \<and> fault_free (pool_file p')"
  using assms
proof (induction xxh p rule: evict_to_fit.induct)
  case (1 xxh p)
  show ?case
  proof (cases "bp_capacity p \<le> length (bp_entries p)")
    case False
    with "1.prems" show ?thesis by (simp add: evict_to_fit.simps)
  next
    case True
    then have "bp_entries p \<noteq> []" using "1.prems"(1) by (auto simp: pool_wf_def)
    with "1.prems" obtain p1 where ev: "evict_one xxh p = (Inr (), p1)" and ff: "fault_free (pool_file p1)"
      by (elim evict_one_fault_free)
    note inv = evict_one_inv [OF "1.prems"(1,2) ev]
    from "1.IH" [OF True ev [symmetric] refl inv(1,2) ff]
    show ?thesis using True ev by (simp add: evict_to_fit.simps [of xxh p])
  qed
qed

section \<open>Get and put\<close>

text \<open>The cache without a page that is not dirty.\<close>

definition drop_page :: "u32 \<Rightarrow> pool \<Rightarrow> pool" where
  "drop_page pid p = (if map_of (bp_entries p) pid \<noteq> None
     then p\<lparr>bp_entries := entries_remove pid (bp_entries p), bp_recency := removeAll pid (bp_recency p)\<rparr> else p)"

lemma drop_page_sel [simp]:
  "bp_pager (drop_page pid p) = bp_pager p" "bp_dirty (drop_page pid p) = bp_dirty p"
  "bp_capacity (drop_page pid p) = bp_capacity p" "bp_next_page_id (drop_page pid p) = bp_next_page_id p"
  "pool_page_size (drop_page pid p) = pool_page_size p"
  by (simp_all add: drop_page_def pool_page_size_def)

lemma map_of_drop_page: "map_of (bp_entries (drop_page pid p)) = (map_of (bp_entries p))(pid := None)"
  by (auto simp: drop_page_def map_of_entries_remove fun_eq_iff)

lemma entry_ids_drop_page: "entry_ids (drop_page pid p) = entry_ids p - {pid}"
  by (auto simp: drop_page_def set_entries_remove map_of_eq_None_iff)

lemma drop_page_inv:
  assumes "pool_inv xxh p" "pid \<notin> set (bp_dirty p)"
  shows "pool_inv xxh (drop_page pid p)" "pool_view xxh (drop_page pid p) = pool_view xxh p"
proof -
  have "length (entries_remove pid (bp_entries p)) \<le> length (bp_entries p)" by (simp add: entries_remove_def)
  then show "pool_inv xxh (drop_page pid p)"
    using assms
    by (auto simp: pool_inv_def pool_wf_def pool_coherent_def pool_page_size_def drop_page_def distinct_entries_remove
        set_entries_remove distinct_removeAll)
  have "pool_coherent xxh p" using assms(1) by (simp add: pool_inv_def)
  then show "pool_view xxh (drop_page pid p) = pool_view xxh p"
    using pool_coherent_entry(4) [of xxh p pid] assms(2)
    by (intro ext) (auto simp: pool_view_def map_of_drop_page split: option.split)
qed

lemma insert_cached_drop:
  "insert_cached xxh pid buf dirty p = sbind (evict_to_fit xxh) (\<lambda>_ p2.
     let p3 = (if dirty then p2\<lparr>bp_dirty := List.insert pid (bp_dirty p2)\<rparr> else p2)
     in (Inr (), p3\<lparr>bp_entries := entries_insert pid buf (bp_entries p3),
                    bp_recency := bp_recency p3 @ [pid]\<rparr>)) (drop_page pid p)"
  by (simp add: insert_cached_def drop_page_def Let_def)

lemma insert_cached_inv:
  assumes inv: "pool_inv xxh p" and new: "pid \<notin> set (bp_dirty p)" "length buf = bytes_usize (pool_page_size p)"
    and page: "dirty \<Longrightarrow> 2 \<le> unat pid"
    and clean: "dirty \<or> disk_page xxh (bp_pager p) pid = Some (page_body buf)"
    and run: "insert_cached xxh pid buf dirty p = (r, p')"
  shows "pool_inv xxh p'" "pool_frame p p'"
    "r = Inr () \<Longrightarrow> 2 \<le> unat pid \<Longrightarrow> (pool_view xxh p)(pid \<mapsto> page_body buf) \<subseteq>\<^sub>m pool_view xxh p'"
    "r = Inr () \<Longrightarrow> \<not> dirty \<Longrightarrow> pool_view xxh p \<subseteq>\<^sub>m pool_view xxh p'"
    "r = Inr () \<Longrightarrow> map_of (bp_entries p') pid = Some buf"
proof -
  let ?p1 = "drop_page pid p"
  note D = drop_page_inv [OF inv new(1)]
  have wf: "pool_wf ?p1" "pool_coherent xxh ?p1" and len: "length (bp_entries ?p1) \<le> bp_capacity p"
    using D(1) by (simp_all add: pool_inv_def)
  have none: "pid \<notin> entry_ids ?p1" by (simp add: entry_ids_drop_page)
  obtain r2 p2 where ev: "evict_to_fit xxh ?p1 = (r2, p2)" by fastforce
  note E = evict_to_fit_inv [OF wf ev]
  note sel = pool_frame_sel [of ?p1 p2]
  have fr: "pool_frame p q" if "pool_frame ?p1 q" for q using that by (simp add: pool_frame_def)
  have "pool_inv xxh p' \<and> pool_frame p p' \<and> (r = Inr () \<longrightarrow> pool_view xxh p \<subseteq>\<^sub>m pool_view xxh p2 \<and>
      pool_view xxh p' = (if 2 \<le> unat pid then (pool_view xxh p2)(pid \<mapsto> page_body buf) else pool_view xxh p2) \<and>
      (2 \<le> unat pid \<longrightarrow> dirty \<or> pool_view xxh p2 pid = Some (page_body buf)) \<and>
      map_of (bp_entries p') pid = Some buf)"
  proof (cases r2)
    case (Inl e)
    then have "r = Inl e" "p' = p2"
      using run ev by (simp_all add: insert_cached_drop sbind_def)
    with E len sel fr show ?thesis by (auto simp: pool_inv_def)
  next
    case (Inr u)
    let ?d = "if dirty then List.insert pid (bp_dirty p2) else bp_dirty p2"
    have notin: "pid \<notin> entry_ids p2" using E none by blast
    then have rem: "entries_remove pid (bp_entries p2) = bp_entries p2"
      by (auto simp: entries_remove_def filter_id_conv)
    have p': "r = Inr ()" "p' = p2\<lparr>bp_dirty := ?d, bp_entries := bp_entries p2 @ [(pid, buf)],
        bp_recency := bp_recency p2 @ [pid]\<rparr>"
      using run ev Inr by (auto simp: insert_cached_drop sbind_def Let_def entries_insert_def rem)
    have m: "map_of (bp_entries p') = (map_of (bp_entries p2))(pid \<mapsto> buf)"
      using notin by (auto simp: p' map_of_entry_ids [symmetric] fun_eq_iff map_add_def split: option.splits)
    have le: "pool_view xxh p \<subseteq>\<^sub>m pool_view xxh p2" using E Inr D(2) by simp
    have disk: "dirty \<or> disk_page xxh (bp_pager p2) pid = Some (page_body buf)" if "2 \<le> unat pid"
    proof (cases dirty)
      case False
      have "map_of (bp_entries ?p1) pid = None" by (simp add: map_of_drop_page)
      then have "pool_view xxh ?p1 pid = Some (page_body buf)" using clean False that by (simp add: pool_view_def)
      then have "pool_view xxh p2 pid = Some (page_body buf)" using le D(2) by (auto simp: map_le_def dom_def)
      moreover have "map_of (bp_entries p2) pid = None" using notin by (simp add: map_of_entry_ids)
      ultimately show ?thesis using that by (simp add: pool_view_def)
    qed simp
    have "pool_wf p'" using E notin by (auto simp: p' pool_wf_def)
    moreover have "pool_coherent xxh p'"
      using E disk new(2) page notin sel by (auto simp: p' pool_coherent_def pool_page_size_def)
    moreover have "pool_view xxh p' = (if 2 \<le> unat pid then (pool_view xxh p2)(pid \<mapsto> page_body buf) else pool_view xxh p2)"
    proof -
      have "bp_pager p' = bp_pager p2" by (simp add: p')
      then show ?thesis by (intro ext) (auto simp: pool_view_def m split: option.split)
    qed
    moreover have "2 \<le> unat pid \<longrightarrow> dirty \<or> pool_view xxh p2 pid = Some (page_body buf)"
      using disk notin by (auto simp: pool_view_def map_of_entry_ids [symmetric])
    moreover have "pool_frame p p'" using E by (simp add: p' pool_frame_def)
    moreover have "length (bp_entries p') \<le> bp_capacity p'" using E Inr by (simp add: p')
    ultimately show ?thesis using m le by (simp add: pool_inv_def)
  qed
  then show "pool_inv xxh p'" "pool_frame p p'"
    "r = Inr () \<Longrightarrow> 2 \<le> unat pid \<Longrightarrow> (pool_view xxh p)(pid \<mapsto> page_body buf) \<subseteq>\<^sub>m pool_view xxh p'"
    "r = Inr () \<Longrightarrow> \<not> dirty \<Longrightarrow> pool_view xxh p \<subseteq>\<^sub>m pool_view xxh p'"
    "r = Inr () \<Longrightarrow> map_of (bp_entries p') pid = Some buf"
    by (auto simp: map_le_def dom_def split: if_splits)
qed

lemma insert_cached_fault_free:
  assumes "pool_inv xxh p" "pid \<notin> set (bp_dirty p)" "fault_free (pool_file p)"
  obtains p' where "insert_cached xxh pid buf dirty p = (Inr (), p')" "fault_free (pool_file p')"
proof -
  have wf: "pool_wf (drop_page pid p)" "pool_coherent xxh (drop_page pid p)"
    using drop_page_inv(1) [OF assms(1,2)] by (simp_all add: pool_inv_def)
  from evict_to_fit_fault_free [OF wf] assms(3) obtain p2 where
    "evict_to_fit xxh (drop_page pid p) = (Inr (), p2)" "fault_free (pool_file p2)" by auto
  then show thesis
    using that by (cases dirty) (simp_all add: insert_cached_drop sbind_def Let_def)
qed

lemma touch_inv:
  assumes "pool_inv xxh p" "pid \<in> entry_ids p"
  shows "pool_inv xxh (touch pid p)" "pool_frame p (touch pid p)" "pool_view xxh (touch pid p) = pool_view xxh p"
proof -
  show "pool_inv xxh (touch pid p)"
    using assms by (auto simp: pool_inv_def pool_wf_def pool_coherent_def pool_page_size_def touch_def
        distinct_removeAll)
  show "pool_frame p (touch pid p)" by (simp add: pool_frame_def touch_def)
  show "pool_view xxh (touch pid p) = pool_view xxh p"
    by (rule pool_view_cong) (simp_all add: touch_def)
qed

lemma map_of_Some_ids: "map_of (bp_entries p) pid = Some buf \<Longrightarrow> pid \<in> entry_ids p"
  by (metis map_of_entry_ids option.distinct(1))

lemma pool_view_cached: "map_of (bp_entries p) pid = Some buf \<Longrightarrow> 2 \<le> unat pid \<Longrightarrow> pool_view xxh p pid = Some (page_body buf)"
  and pool_view_uncached: "map_of (bp_entries p) pid = None \<Longrightarrow> 2 \<le> unat pid \<Longrightarrow> pool_view xxh p pid = disk_page xxh (bp_pager p) pid"
  by (simp_all add: pool_view_def)

text \<open>Reading a page into the pool record changes the fault schedule only.\<close>

lemma pool_read_inv:
  assumes "pool_inv xxh p" "pool_read xxh pid p = (r, p')"
  shows "pool_inv xxh p'" "pool_frame p p'" "pool_view xxh p' = pool_view xxh p"
    "bp_entries p' = bp_entries p" "disk_page xxh (bp_pager p') = disk_page xxh (bp_pager p)"
    "r = Inr buf \<Longrightarrow> disk_page xxh (bp_pager p) pid = Some (page_body buf) \<and> length buf = bytes_usize (pool_page_size p)"
proof -
  obtain pg where rd: "read_data_page xxh pid (bp_pager p) = (r, pg)" and p': "p' = p\<lparr>bp_pager := pg\<rparr>"
    using assms(2) by (auto simp: pool_read_def split: prod.splits)
  note R = read_data_page_result [OF rd]
  note d = disk_page_cong [OF R(1,2), of xxh]
  show "disk_page xxh (bp_pager p') = disk_page xxh (bp_pager p)" by (simp add: p' d)
  show "pool_inv xxh p'"
    using assms(1) by (simp add: p' pool_inv_def pool_wf_def pool_coherent_def pool_page_size_def d same_pager_sel [OF R(1)])
  show "pool_frame p p'" "bp_entries p' = bp_entries p" using R(1) by (simp_all add: p' pool_frame_def)
  show "pool_view xxh p' = pool_view xxh p" by (rule pool_view_cong) (simp_all add: p' d)
  show "r = Inr buf \<Longrightarrow> disk_page xxh (bp_pager p) pid = Some (page_body buf) \<and> length buf = bytes_usize (pool_page_size p)"
    using R(5) by (simp add: pool_page_size_def)
qed

lemma pool_wf_dirty: "pool_inv xxh p \<Longrightarrow> map_of (bp_entries p) pid = None \<Longrightarrow> pid \<notin> set (bp_dirty p)"
  by (auto simp: pool_inv_def pool_wf_def map_of_eq_None_iff)

lemma pool_get_inv:
  assumes "pool_inv xxh p" "pool_get xxh pid p = (r, p')"
  shows "pool_inv xxh p' \<and> pool_frame p p' \<and> (\<forall>buf. r = Inr buf \<longrightarrow>
    (2 \<le> unat pid \<longrightarrow> pool_view xxh p pid = Some (page_body buf)) \<and> length buf = bytes_usize (pool_page_size p) \<and>
    pool_view xxh p \<subseteq>\<^sub>m pool_view xxh p' \<and> map_of (bp_entries p') pid = Some buf)"
proof (cases "map_of (bp_entries p) pid")
  case (Some b)
  have coh: "pool_coherent xxh p" using assms(1) by (simp add: pool_inv_def)
  have "r = Inr b" "p' = touch pid p" using assms(2) Some by (simp_all add: pool_get_def)
  then show ?thesis
    using touch_inv [OF assms(1) map_of_Some_ids [OF Some]] pool_coherent_entry(2) [OF coh Some]
      pool_view_cached [OF Some] Some by (auto simp: touch_def)
next
  case None
  obtain r1 p1 where rd: "pool_read xxh pid p = (r1, p1)" by fastforce
  note R = pool_read_inv [OF assms(1) rd]
  show ?thesis
  proof (cases r1)
    case (Inl e)
    then have "r = Inl e" "p' = p1" using assms(2) None rd by (simp_all add: pool_get_def sbind_def)
    with R show ?thesis by simp
  next
    case (Inr buf)
    obtain r2 p2 where ic: "insert_cached xxh pid buf False p1 = (r2, p2)" by fastforce
    have res: "p' = p2" "r = (case r2 of Inl e \<Rightarrow> Inl e | Inr _ \<Rightarrow> Inr buf)"
      using assms(2) None rd Inr ic by (auto simp: pool_get_def sbind_def spure_def split: sum.splits)
    have disk: "disk_page xxh (bp_pager p) pid = Some (page_body buf)" "length buf = bytes_usize (pool_page_size p)"
      using R(6) Inr by simp_all
    have "pid \<notin> set (bp_dirty p1)" using pool_wf_dirty [OF R(1)] None by (simp add: R(4))
    moreover have "length buf = bytes_usize (pool_page_size p1)" using disk pool_frame_sel(1) [OF R(2)] by simp
    moreover have "False \<or> disk_page xxh (bp_pager p1) pid = Some (page_body buf)" using disk(1) R(5) by simp
    ultimately have I: "pool_inv xxh p2" "pool_frame p1 p2" "r2 = Inr () \<Longrightarrow> pool_view xxh p1 \<subseteq>\<^sub>m pool_view xxh p2"
      "r2 = Inr () \<Longrightarrow> map_of (bp_entries p2) pid = Some buf"
      using insert_cached_inv [OF R(1) _ _ _ _ ic] by blast+
    have "2 \<le> unat pid \<longrightarrow> pool_view xxh p pid = Some (page_body buf)" using pool_view_uncached [OF None] disk by simp
    with I R(3) disk(2) pool_frame_trans [OF R(2) I(2)] show ?thesis
      by (auto simp: res split: sum.splits)
  qed
qed

lemma pool_get_fault_free:
  assumes "pool_inv xxh p" "2 \<le> unat pid" "fault_free (pool_file p)" "pool_view xxh p pid = Some b"
  obtains buf p' where "pool_get xxh pid p = (Inr buf, p')" "fault_free (pool_file p')"
proof (cases "map_of (bp_entries p) pid")
  case (Some buf)
  with assms(3) that show thesis by (simp add: pool_get_def touch_def)
next
  case None
  then have "disk_page xxh (bp_pager p) pid = Some b" using assms(2,4) by (simp add: pool_view_def)
  with assms(3) obtain f' where f': "fault_free f'"
    "read_data_page xxh pid (bp_pager p) = (Inr (page_at (bp_pager p) pid), (bp_pager p)\<lparr>p_file := f'\<rparr>)"
    by (rule read_data_page_disk)
  let ?p1 = "p\<lparr>bp_pager := (bp_pager p)\<lparr>p_file := f'\<rparr>\<rparr>"
  have rd: "pool_read xxh pid p = (Inr (page_at (bp_pager p) pid), ?p1)" using f' by (simp add: pool_read_def)
  have "pid \<notin> set (bp_dirty ?p1)" using pool_wf_dirty [OF assms(1) None] by simp
  moreover have "fault_free (pool_file ?p1)" using f' by simp
  ultimately obtain p2 where "insert_cached xxh pid (page_at (bp_pager p) pid) False ?p1 = (Inr (), p2)"
    "fault_free (pool_file p2)"
    by (rule insert_cached_fault_free [OF pool_read_inv(1) [OF assms(1) rd]])
  with rd None that show thesis by (simp add: pool_get_def sbind_def spure_def)
qed

section \<open>Flush and commit\<close>

lemma pool_coherent_iff:
  assumes "pool_wf p"
  shows "pool_coherent xxh p \<longleftrightarrow> valid_page_size (page_bytes (pool_page_size p)) \<and>
     (\<forall>pid \<in> set (bp_dirty p). 2 \<le> unat pid) \<and>
     (\<forall>pid buf. map_of (bp_entries p) pid = Some buf \<longrightarrow> length buf = bytes_usize (pool_page_size p) \<and>
        (pid \<notin> set (bp_dirty p) \<longrightarrow> 2 \<le> unat pid \<longrightarrow> disk_page xxh (bp_pager p) pid = Some (page_body buf)))"
proof -
  have "(pid, buf) \<in> set (bp_entries p) \<longleftrightarrow> map_of (bp_entries p) pid = Some buf" for pid buf
    using assms by (auto simp: pool_wf_def)
  then show ?thesis unfolding pool_coherent_def Ball_def split_paired_All by simp
qed

text \<open>One page of the flush loop, written and marked clean or, on failure, still dirty.\<close>

lemma flush_page_inv:
  assumes "pool_wf p" "pool_coherent xxh p" "map_of (bp_entries p) pid = Some buf"
    and "write_data_page xxh pid buf (bp_pager p) = ((r, buf'), pg)"
    and p': "p' = p\<lparr>bp_pager := pg, bp_entries := AList.update pid buf' (bp_entries p), bp_dirty := d\<rparr>"
    and d: "set d = (case r of Inr _ \<Rightarrow> set (bp_dirty p) - {pid} | Inl _ \<Rightarrow> set (bp_dirty p))"
    and dirty: "pid \<in> set (bp_dirty p)" and dist: "distinct d"
  shows "pool_wf p'" "pool_coherent xxh p'" "pool_frame p p'" "length (bp_entries p') = length (bp_entries p)"
    "pool_view xxh p \<subseteq>\<^sub>m pool_view xxh p'"
proof -
  note E = pool_coherent_entry [OF assms(2,3)]
  have vps: "valid_page_size (page_bytes (p_page_size (bp_pager p)))"
    using assms(2) by (simp add: pool_coherent_def pool_page_size_def)
  note W = write_data_page_disk [OF assms(4) vps E(1) [OF dirty] E(2) [unfolded pool_page_size_def pager_page_size_def]]
  have keys: "map fst (bp_entries p') = map fst (bp_entries p)"
    using map_of_Some_ids [OF assms(3)] by (auto simp: p' update_keys)
  then have ids: "entry_ids p' = entry_ids p" by (metis set_map)
  show "length (bp_entries p') = length (bp_entries p)" using keys by (metis length_map)
  show "pool_frame p p'" using W(1) by (simp add: p' pool_frame_def)
  have sel: "bp_pager p' = pg" "bp_dirty p' = d" "bp_capacity p' = bp_capacity p" "bp_recency p' = bp_recency p"
    by (simp_all add: p')
  have "set d \<subseteq> set (bp_dirty p)" using d by (auto split: sum.splits)
  then show wf: "pool_wf p'"
    using assms(1) dist unfolding pool_wf_def ids keys sel by blast
  have m: "map_of (bp_entries p') = (map_of (bp_entries p))(pid \<mapsto> buf')" by (simp add: p' update_conv')
  have d': "pid' \<in> set d \<longleftrightarrow> pid' \<in> set (bp_dirty p)" if "pid' \<noteq> pid" for pid'
    using d that by (auto split: sum.splits)
  have same: "pool_page_size p' = pool_page_size p" by (simp add: pool_page_size_def sel same_pager_sel(1) [OF W(1)])
  have "pid \<notin> set d \<Longrightarrow> r = Inr ()" using d dirty by (auto split: sum.splits)
  then show "pool_coherent xxh p'"
    using assms(2) E(2) W(2-5) \<open>set d \<subseteq> set (bp_dirty p)\<close>
    unfolding pool_coherent_iff [OF wf] pool_coherent_iff [OF assms(1)] same m sel
    by (auto simp: d')
  show "pool_view xxh p \<subseteq>\<^sub>m pool_view xxh p'"
    using W(3,5) assms(3) unfolding map_le_def
    by (auto simp: pool_view_def m sel split: option.splits if_splits)
qed

lemma flush_ids_inv:
  assumes "pool_wf p" "pool_coherent xxh p" "distinct ids" "set ids \<subseteq> set (bp_dirty p)" "flush_ids xxh ids p = (r, p')"
  shows "pool_wf p' \<and> pool_coherent xxh p' \<and> pool_frame p p' \<and> length (bp_entries p') = length (bp_entries p) \<and>
    pool_view xxh p \<subseteq>\<^sub>m pool_view xxh p' \<and> (r = Inr () \<longrightarrow> set (bp_dirty p') = set (bp_dirty p) - set ids)"
  using assms
proof (induction ids arbitrary: p r p')
  case Nil
  then show ?case by simp
next
  case (Cons pid ids)
  have "pid \<in> entry_ids p" using Cons.prems(1,4) by (auto simp: pool_wf_def)
  then obtain buf where buf: "map_of (bp_entries p) pid = Some buf"
    by (metis map_of_entry_ids option.exhaust)
  obtain r1 b1 pg1 where w: "write_data_page xxh pid buf (bp_pager p) = ((r1, b1), pg1)"
    by (metis prod.collapse)
  have dirty: "pid \<in> set (bp_dirty p)" using Cons.prems(4) by simp
  let ?p1 = "p\<lparr>bp_pager := pg1, bp_entries := AList.update pid b1 (bp_entries p)\<rparr>"
  show ?case
  proof (cases r1)
    case (Inl e)
    have "?p1\<lparr>bp_dirty := bp_dirty p\<rparr> = ?p1" by (rule pool.equality) simp_all
    with Inl have res: "r = Inl e" "p' = ?p1\<lparr>bp_dirty := bp_dirty p\<rparr>" using Cons.prems(5) w by (auto simp: buf)
    show ?thesis
      using flush_page_inv [OF Cons.prems(1,2) buf w res(2) _ dirty] Inl Cons.prems(1)
      by (simp add: res(1) pool_wf_def)
  next
    case (Inr u)
    let ?p2 = "?p1\<lparr>bp_dirty := removeAll pid (bp_dirty p)\<rparr>"
    have rec: "flush_ids xxh ids ?p2 = (r, p')" using Cons.prems(5) w Inr by (simp add: buf)
    have I: "pool_wf ?p2" "pool_coherent xxh ?p2" "pool_frame p ?p2"
      "length (bp_entries ?p2) = length (bp_entries p)" "pool_view xxh p \<subseteq>\<^sub>m pool_view xxh ?p2"
      using flush_page_inv [OF Cons.prems(1,2) buf w refl _ dirty, of "removeAll pid (bp_dirty p)"] Inr Cons.prems(1)
      by (simp_all add: pool_wf_def distinct_removeAll)
    have "distinct ids" "set ids \<subseteq> set (bp_dirty ?p2)" using Cons.prems(3,4) by auto
    from Cons.IH [OF I(1,2) this rec]
    have "pool_wf p' \<and> pool_coherent xxh p' \<and> pool_frame ?p2 p' \<and> length (bp_entries p') = length (bp_entries ?p2) \<and>
      pool_view xxh ?p2 \<subseteq>\<^sub>m pool_view xxh p' \<and> (r = Inr () \<longrightarrow> set (bp_dirty p') = set (bp_dirty ?p2) - set ids)" .
    with I show ?thesis by (auto intro: map_le_trans pool_frame_trans)
  qed
qed

lemma flush_ids_fault_free:
  assumes "pool_wf p" "pool_coherent xxh p" "distinct ids" "set ids \<subseteq> set (bp_dirty p)" "fault_free (pool_file p)"
  shows "\<exists>p'. flush_ids xxh ids p = (Inr (), p') \<and> fault_free (pool_file p')"
  using assms
proof (induction ids arbitrary: p)
  case Nil
  then show ?case by simp
next
  case (Cons pid ids)
  have "pid \<in> entry_ids p" using Cons.prems(1,4) by (auto simp: pool_wf_def)
  then obtain buf where buf: "map_of (bp_entries p) pid = Some buf"
    by (metis map_of_entry_ids option.exhaust)
  have "8 \<le> length buf" using pool_coherent_entry(3) [OF Cons.prems(2) buf] .
  with Cons.prems(5) obtain b1 pg1 where w: "write_data_page xxh pid buf (bp_pager p) = ((Inr (), b1), pg1)"
    "fault_free (p_file pg1)" by (rule write_data_page_fault_free)
  let ?p2 = "p\<lparr>bp_pager := pg1, bp_entries := AList.update pid b1 (bp_entries p),
    bp_dirty := removeAll pid (bp_dirty p)\<rparr>"
  have "pid \<in> set (bp_dirty p)" using Cons.prems(4) by simp
  then have I: "pool_wf ?p2" "pool_coherent xxh ?p2"
    using flush_page_inv [OF Cons.prems(1,2) buf w(1) refl, of "removeAll pid (bp_dirty p)"] Cons.prems(1)
    by (simp_all add: pool_wf_def distinct_removeAll)
  have "distinct ids" "set ids \<subseteq> set (bp_dirty ?p2)" "fault_free (pool_file ?p2)"
    using Cons.prems(3,4) w(2) by auto
  from Cons.IH [OF I this] show ?case using buf w by simp
qed

lemma pool_inv_pager:
  assumes "pool_inv xxh p" "p_page_size pg = p_page_size (bp_pager p)"
    and "\<And>pid b. disk_page xxh (bp_pager p) pid = Some b \<Longrightarrow> disk_page xxh pg pid = Some b"
  shows "pool_inv xxh (p\<lparr>bp_pager := pg\<rparr>)" "pool_view xxh p \<subseteq>\<^sub>m pool_view xxh (p\<lparr>bp_pager := pg\<rparr>)"
proof -
  have wf: "pool_wf p" "pool_wf (p\<lparr>bp_pager := pg\<rparr>)" using assms(1) by (simp_all add: pool_inv_def pool_wf_def)
  have "pool_coherent xxh p" using assms(1) by (simp add: pool_inv_def)
  then have "pool_coherent xxh (p\<lparr>bp_pager := pg\<rparr>)"
    unfolding pool_coherent_iff [OF wf(1)] pool_coherent_iff [OF wf(2)]
    using assms(3) by (simp add: pool_page_size_def assms(2))
  with wf(2) show "pool_inv xxh (p\<lparr>bp_pager := pg\<rparr>)" using assms(1) by (simp add: pool_inv_def)
  show "pool_view xxh p \<subseteq>\<^sub>m pool_view xxh (p\<lparr>bp_pager := pg\<rparr>)"
    using assms(3) by (auto simp: map_le_def pool_view_def split: option.splits if_splits)
qed

lemma sync_data_result:
  assumes "sync_data pg = (r, pg')"
  shows "same_pager pg pg'" "contents (p_file pg') = contents (p_file pg)"
    "r = Inr () \<Longrightarrow> f_pending (p_file pg') = [] \<and> f_durable (p_file pg') = contents (p_file pg)"
    "r \<noteq> Inr () \<Longrightarrow> f_pending (p_file pg') = f_pending (p_file pg) \<and> f_durable (p_file pg') = f_durable (p_file pg)"
proof -
  obtain r1 f1 where s: "file_sync (p_file pg) = (r1, f1)" by fastforce
  then have pg': "pg' = pg\<lparr>p_file := f1\<rparr>" and r: "r = Inr () \<longleftrightarrow> r1 = Inr ()"
    using assms by (auto simp: sync_data_def pager_io_def io_at_def split: sum.splits)
  then show "same_pager pg pg'" by simp
  from s have "contents f1 = contents (p_file pg) \<and>
    (r = Inr () \<longrightarrow> f_pending f1 = [] \<and> f_durable f1 = contents (p_file pg)) \<and>
    (r \<noteq> Inr () \<longrightarrow> f_pending f1 = f_pending (p_file pg) \<and> f_durable f1 = f_durable (p_file pg))"
    by (cases rule: file_sync_cases) (simp_all add: contents_def r)
  then show "contents (p_file pg') = contents (p_file pg)"
    "r = Inr () \<Longrightarrow> f_pending (p_file pg') = [] \<and> f_durable (p_file pg') = contents (p_file pg)"
    "r \<noteq> Inr () \<Longrightarrow> f_pending (p_file pg') = f_pending (p_file pg) \<and> f_durable (p_file pg') = f_durable (p_file pg)"
    by (simp_all add: pg')
qed

lemma flush_all_dirty_inv:
  assumes "pool_inv xxh p" "flush_all_dirty xxh p = (r, p')"
  shows "pool_inv xxh p'" "pool_frame p p'" "pool_view xxh p \<subseteq>\<^sub>m pool_view xxh p'"
    "r = Inr () \<Longrightarrow> bp_dirty p' = [] \<and> f_pending (pool_file p') = []"
proof -
  have wf: "pool_wf p" "pool_coherent xxh p" "distinct (bp_dirty p)"
    using assms(1) by (simp_all add: pool_inv_def pool_wf_def)
  obtain r1 p1 where fl: "flush_ids xxh (bp_dirty p) p = (r1, p1)" by fastforce
  note F = flush_ids_inv [OF wf subset_refl fl]
  then have inv1: "pool_inv xxh p1" using assms(1) by (auto simp: pool_inv_def pool_frame_def)
  have "pool_inv xxh p' \<and> pool_frame p p' \<and> pool_view xxh p \<subseteq>\<^sub>m pool_view xxh p' \<and>
    (r = Inr () \<longrightarrow> bp_dirty p' = [] \<and> f_pending (pool_file p') = [])"
  proof (cases r1)
    case (Inl e)
    then have "r = Inl e" "p' = p1" using assms(2) fl by (simp_all add: flush_all_dirty_def sbind_def)
    with F inv1 show ?thesis by simp
  next
    case (Inr u)
    obtain r2 pg where s: "sync_data (bp_pager p1) = (r2, pg)" by fastforce
    then have p': "p' = p1\<lparr>bp_pager := pg\<rparr>" "r = r2"
      using assms(2) fl Inr by (simp_all add: flush_all_dirty_def sbind_def pool_sync_def)
    note S = sync_data_result [OF s]
    have "pool_inv xxh p'" "pool_view xxh p1 \<subseteq>\<^sub>m pool_view xxh p'"
      unfolding p' using pool_inv_pager [OF inv1 same_pager_sel(1) [OF S(1)]] disk_page_cong [OF S(1,2)] by simp_all
    moreover have "pool_frame p1 p'" using S(1) by (simp add: p' pool_frame_def)
    moreover have "bp_dirty p' = []" using F Inr by (simp add: p')
    ultimately show ?thesis using F S(3) by (auto simp: p' intro: pool_frame_trans map_le_trans)
  qed
  then show "pool_inv xxh p'" "pool_frame p p'" "pool_view xxh p \<subseteq>\<^sub>m pool_view xxh p'"
    "r = Inr () \<Longrightarrow> bp_dirty p' = [] \<and> f_pending (pool_file p') = []" by blast+
qed

lemma flush_all_dirty_fault_free:
  assumes "pool_inv xxh p" "fault_free (pool_file p)"
  obtains p' where "flush_all_dirty xxh p = (Inr (), p')" "fault_free (pool_file p')"
proof -
  have wf: "pool_wf p" "pool_coherent xxh p" "distinct (bp_dirty p)"
    using assms(1) by (simp_all add: pool_inv_def pool_wf_def)
  from flush_ids_fault_free [OF wf subset_refl assms(2)] obtain p1 where
    p1: "flush_ids xxh (bp_dirty p) p = (Inr (), p1)" "fault_free (pool_file p1)" by blast
  from p1(2) obtain f2 where "file_sync (pool_file p1) = (Inr (), f2)" "fault_free f2" by (rule file_sync_fault_free)
  with p1 that show thesis
    by (simp add: flush_all_dirty_def sbind_def pool_sync_def sync_data_def pager_io_def io_at_def)
qed

text \<open>The commit, on every outcome; what a success makes of the pager.\<close>

lemma pool_commit_inv:
  assumes "pool_inv xxh p" "p_active_slot (bp_pager p) \<in> {0, 1}" "pool_commit xxh new_root p = (r, p')"
  shows "pool_inv xxh p'" "pool_page_size p' = pool_page_size p" "bp_next_page_id p' = bp_next_page_id p"
    "bp_capacity p' = bp_capacity p" "pool_view xxh p \<subseteq>\<^sub>m pool_view xxh p'"
    "r = Inr () \<Longrightarrow> bp_dirty p' = [] \<and> pool_root_page_id p' = new_root \<and> f_pending (pool_file p') = [] \<and>
       p_page_count (bp_pager p') = bp_next_page_id p \<and> p_txn_id (bp_pager p') = p_txn_id (bp_pager p) + 1"
proof -
  obtain r1 p1 where fl: "flush_all_dirty xxh p = (r1, p1)" by fastforce
  note F = flush_all_dirty_inv [OF assms(1) fl]
  have fr: "same_pager (bp_pager p) (bp_pager p1)" using F(2) by (simp add: pool_frame_def)
  have "pool_inv xxh p' \<and> pool_page_size p' = pool_page_size p \<and> bp_next_page_id p' = bp_next_page_id p \<and>
    bp_capacity p' = bp_capacity p \<and> pool_view xxh p \<subseteq>\<^sub>m pool_view xxh p' \<and>
    (r = Inr () \<longrightarrow> bp_dirty p' = [] \<and> pool_root_page_id p' = new_root \<and> f_pending (pool_file p') = [] \<and>
       p_page_count (bp_pager p') = bp_next_page_id p \<and> p_txn_id (bp_pager p') = p_txn_id (bp_pager p) + 1)"
  proof (cases r1)
    case (Inl e)
    then have "r = Inl e" "p' = p1" using assms(3) fl by (simp_all add: pool_commit_def sbind_def)
    with F pool_frame_sel [OF F(2)] show ?thesis by simp
  next
    case (Inr u)
    obtain r2 pg where c: "pager_commit xxh new_root (bp_next_page_id p1) (bp_pager p1) = (r2, pg)" by fastforce
    then have p': "p' = p1\<lparr>bp_pager := pg\<rparr>" "r = r2"
      using assms(3) fl Inr by (simp_all add: pool_commit_def sbind_def)
    have act: "p_active_slot (bp_pager p1) \<in> {0, 1}" using assms(2) same_pager_sel(3) [OF fr] by simp
    have vps: "valid_page_size (page_bytes (p_page_size (bp_pager p1)))"
      using F(1) by (simp add: pool_inv_def pool_coherent_def pool_page_size_def)
    note C = pager_commit_pages [OF c act vps]
    have I: "pool_inv xxh p'" "pool_view xxh p1 \<subseteq>\<^sub>m pool_view xxh p'"
      unfolding p' using pool_inv_pager [OF F(1) C(1)] C(2) by blast+
    have "meta_of pg = next_meta (bp_pager p1) new_root (bp_next_page_id p1) \<and> f_pending (p_file pg) = []"
      if "r2 = Inr ()"
      using c act that by (auto elim: pager_commit_outcomes)
    then have "r = Inr () \<longrightarrow> p_root_page_id pg = new_root \<and> f_pending (p_file pg) = [] \<and>
       p_page_count pg = bp_next_page_id p1 \<and> p_txn_id pg = p_txn_id (bp_pager p1) + 1"
      unfolding p' by (metis meta_of_sel(2-4) next_meta_sel(2-4))
    then show ?thesis
      using I F(4) Inr C(1) pool_frame_sel [OF F(2)] same_pager_sel [OF fr] map_le_trans [OF F(3) I(2)]
      by (simp add: p' pool_page_size_def pool_root_page_id_def)
  qed
  then show "pool_inv xxh p'" "pool_page_size p' = pool_page_size p" "bp_next_page_id p' = bp_next_page_id p"
    "bp_capacity p' = bp_capacity p" "pool_view xxh p \<subseteq>\<^sub>m pool_view xxh p'"
    "r = Inr () \<Longrightarrow> bp_dirty p' = [] \<and> pool_root_page_id p' = new_root \<and> f_pending (pool_file p') = [] \<and>
       p_page_count (bp_pager p') = bp_next_page_id p \<and> p_txn_id (bp_pager p') = p_txn_id (bp_pager p) + 1"
    by blast+
qed

lemma pool_commit_fault_free:
  assumes "pool_inv xxh p" "fault_free (pool_file p)"
  obtains p' where "pool_commit xxh new_root p = (Inr (), p')" "fault_free (pool_file p')"
proof -
  from assms obtain p1 where p1: "flush_all_dirty xxh p = (Inr (), p1)" "fault_free (pool_file p1)"
    by (rule flush_all_dirty_fault_free)
  from p1(2) obtain pg where "pager_commit xxh new_root (bp_next_page_id p1) (bp_pager p1) = (Inr (), pg)"
    "fault_free (p_file pg)" by (rule pager_commit_fault_free)
  with p1 that show thesis by (simp add: pool_commit_def sbind_def)
qed

section \<open>What the pool keeps of the pager\<close>

text \<open>
  A property of the pager that reads, syncs and writes of the page ids in \<open>W\<close> keep is
  kept by every operation of a pool whose dirty pages are in \<open>W\<close>, on the error paths too.
\<close>

locale pager_stable =
  fixes xxh :: "bytes \<Rightarrow> u64"
    and K :: "pager \<Rightarrow> bool"
    and W :: "u32 set"
  assumes read_keeps: "K pg \<Longrightarrow> read_data_page xxh pid pg = (r, pg') \<Longrightarrow> K pg'"
    and write_keeps: "K pg \<Longrightarrow> pid \<in> W \<Longrightarrow> write_data_page xxh pid buf pg = ((r', buf'), pg') \<Longrightarrow> K pg'"
    and sync_keeps: "K pg \<Longrightarrow> sync_data pg = (r'', pg') \<Longrightarrow> K pg'"
begin

definition safe :: "pool \<Rightarrow> bool" where
  "safe p \<longleftrightarrow> K (bp_pager p) \<and> set (bp_dirty p) \<subseteq> W"

lemma evict_one_safe: "safe p \<Longrightarrow> evict_one xxh p = (r, p') \<Longrightarrow> safe p'"
  by (auto simp: safe_def evict_one_def Let_def dest: write_keeps
      split: list.splits option.splits if_splits prod.splits)

lemma evict_to_fit_safe: "safe p \<Longrightarrow> evict_to_fit xxh p = (r, p') \<Longrightarrow> safe p'"
proof (induction "length (bp_entries p)" arbitrary: p rule: less_induct)
  case less
  obtain r1 p1 where ev: "evict_one xxh p = (r1, p1)" by fastforce
  have s1: "safe p1" using evict_one_safe [OF less.prems(1) ev] .
  show ?case
  proof (cases "bp_capacity p \<le> length (bp_entries p) \<and> r1 = Inr ()")
    case True
    then have "evict_to_fit xxh p1 = (r, p')" "length (bp_entries p1) < length (bp_entries p)"
      using less.prems(2) ev evict_one_shorter [of xxh p p1] by (simp_all add: evict_to_fit.simps [of xxh p])
    with less.hyps s1 show ?thesis by blast
  next
    case False
    then have "(r, p') = (if bp_capacity p \<le> length (bp_entries p) then (r1, p1) else (Inr (), p))"
      using less.prems(2) ev by (cases r1) (simp_all add: evict_to_fit.simps [of xxh p] split: if_splits)
    with less.prems(1) s1 show ?thesis by (simp split: if_splits)
  qed
qed

lemma insert_cached_safe:
  assumes "safe p" "dirty \<Longrightarrow> pid \<in> W" "insert_cached xxh pid buf dirty p = (r, p')"
  shows "safe p'"
proof -
  let ?p1 = "if map_of (bp_entries p) pid \<noteq> None
     then p\<lparr>bp_entries := entries_remove pid (bp_entries p), bp_recency := removeAll pid (bp_recency p)\<rparr> else p"
  have "safe ?p1" using assms(1) by (simp add: safe_def)
  moreover obtain r2 p2 where ev: "evict_to_fit xxh ?p1 = (r2, p2)" by fastforce
  ultimately have "safe p2" using evict_to_fit_safe by blast
  then show ?thesis
    using assms(2,3) ev by (auto simp: insert_cached_def sbind_def Let_def safe_def split: sum.splits if_splits)
qed

lemma put_new_safe: "safe p \<Longrightarrow> pid \<in> W \<Longrightarrow> put_new xxh pid buf p = (r, p') \<Longrightarrow> safe p'"
  unfolding put_new_def by (rule insert_cached_safe)

lemma pool_get_safe:
  assumes "safe p" "pool_get xxh pid p = (r, p')"
  shows "safe p'"
proof (cases "map_of (bp_entries p) pid")
  case (Some buf)
  with assms show ?thesis by (auto simp: pool_get_def touch_def safe_def)
next
  case None
  obtain r1 p1 where rd: "pool_read xxh pid p = (r1, p1)" by fastforce
  then have s1: "safe p1"
    using assms(1) read_keeps by (auto simp: pool_read_def safe_def split: prod.splits)
  show ?thesis
  proof (cases r1)
    case (Inl e)
    with assms(2) rd None s1 show ?thesis by (simp add: pool_get_def sbind_def)
  next
    case (Inr buf)
    obtain r2 p2 where ic: "insert_cached xxh pid buf False p1 = (r2, p2)" by fastforce
    have "safe p2" by (rule insert_cached_safe [OF s1 _ ic]) simp
    moreover have "p' = p2"
      using assms(2) rd None Inr ic by (cases r2) (simp_all add: pool_get_def sbind_def spure_def)
    ultimately show ?thesis by simp
  qed
qed

lemma flush_ids_safe: "safe p \<Longrightarrow> set ids \<subseteq> W \<Longrightarrow> flush_ids xxh ids p = (r, p') \<Longrightarrow> safe p'"
proof (induction ids arbitrary: p)
  case Nil
  then show ?case by simp
next
  case (Cons pid ids)
  show ?case
  proof (cases "map_of (bp_entries p) pid")
    case None
    have "safe (p\<lparr>bp_dirty := removeAll pid (bp_dirty p)\<rparr>)" using Cons.prems(1) by (auto simp: safe_def)
    with Cons None show ?thesis by simp
  next
    case (Some buf)
    obtain r1 b1 pg1 where w: "write_data_page xxh pid buf (bp_pager p) = ((r1, b1), pg1)"
      by (metis prod.collapse)
    have "K pg1" using Cons.prems write_keeps [OF _ _ w] by (auto simp: safe_def)
    then have s: "set d \<subseteq> set (bp_dirty p) \<Longrightarrow> safe (p\<lparr>bp_pager := pg1, bp_entries := es, bp_dirty := d\<rparr>)" for d es
      using Cons.prems(1) by (auto simp: safe_def)
    show ?thesis
    proof (cases r1)
      case (Inl e)
      then have "p' = p\<lparr>bp_pager := pg1, bp_entries := AList.update pid b1 (bp_entries p)\<rparr>"
        using Cons.prems(3) Some w by simp
      then show ?thesis using Cons.prems(1) \<open>K pg1\<close> by (simp add: safe_def)
    next
      case (Inr u)
      let ?p2 = "p\<lparr>bp_pager := pg1, bp_entries := AList.update pid b1 (bp_entries p),
        bp_dirty := removeAll pid (bp_dirty p)\<rparr>"
      have "safe ?p2" by (rule s) auto
      moreover have "flush_ids xxh ids ?p2 = (r, p')" using Cons.prems(3) Some w Inr by simp
      ultimately show ?thesis using Cons.IH Cons.prems(2) by simp
    qed
  qed
qed

lemma flush_all_dirty_safe:
  assumes "safe p" "flush_all_dirty xxh p = (r, p')"
  shows "safe p'"
proof -
  obtain r1 p1 where fl: "flush_ids xxh (bp_dirty p) p = (r1, p1)" by fastforce
  have "safe p1" using flush_ids_safe [OF assms(1) _ fl] assms(1) by (simp add: safe_def)
  with assms(2) fl show ?thesis
    by (auto simp: flush_all_dirty_def sbind_def pool_sync_def safe_def dest: sync_keeps split: sum.splits prod.splits)
qed

end

lemma write_data_page_short:
  "length buf < 8 \<Longrightarrow> write_data_page xxh pid buf pg = ((Inl (buffer_bounds 0 8 (length buf)), buf), pg)"
  by (simp add: write_data_page_def stamp_checksum_err)

lemma write_data_page_pending:
  assumes "write_data_page xxh pid buf pg = ((r, buf'), pg')"
  obtains "pg' = pg" | bs where "same_pager pg pg'" "f_durable (p_file pg') = f_durable (p_file pg)"
    "f_pending (p_file pg') = f_pending (p_file pg) @ [(unat (file_offset pg pid), bs)]"
proof (cases "8 \<le> length buf")
  case True
  with assms obtain bs where "same_pager pg pg'" "f_durable (p_file pg') = f_durable (p_file pg)"
    "f_pending (p_file pg') = f_pending (p_file pg) @ [(unat (file_offset pg pid), bs)]"
    by (rule write_data_page_outcome)
  then show thesis by (rule that(2))
next
  case False
  with assms that(1) show thesis by (simp add: write_data_page_short)
qed

lemma sync_data_keeps_inv:
  assumes "pager_inv xxh pg" "sync_data pg = (r, pg')"
  shows "pager_inv xxh pg'"
proof (cases "r = Inr ()")
  case False
  with assms(1) sync_data_result [OF assms(2)] show ?thesis
    by (simp add: pager_inv_def same_pager_sel)
next
  case True
  note S = sync_data_result [OF assms(2)]
  have act: "p_active_slot pg \<in> {0, 1}" using pager_inv_active(1) [OF assms(1)] .
  have pos: "slot_pos (p_active_slot pg) + 4096 \<le> 8192" "slot_pos (1 - p_active_slot pg) + 4096 \<le> 8192"
    using slot_regions(2) act slot_regions(2) [OF conjunct1 [OF u8_slot_flip [OF act]]] by blast+
  have d: "f_durable (p_file pg') = contents (p_file pg)" "f_pending (p_file pg') = []" using S(3) True by simp_all
  have "older_slot xxh (slice (f_durable (p_file pg)) (slot_pos (1 - p_active_slot pg)) 4096) (p_txn_id pg)"
    using assms(1) by (simp add: pager_inv_def)
  then show ?thesis
    using act pager_inv_active(2,3) [OF assms(1)] pager_inv_length [OF assms(1)] pager_inv_meta_region [OF assms(1) pos(2)]
    by (simp add: pager_inv_def same_pager_sel [OF S(1)] d)
qed

interpretation inv_stable: pager_stable xxh "pager_inv xxh" UNIV for xxh
proof
  fix pg pg' pid buf and r r'' :: "unit presult" and r' buf'
  show "pager_inv xxh pg \<Longrightarrow> read_data_page xxh pid pg = (r', pg') \<Longrightarrow> pager_inv xxh pg'" for r'
    using read_data_page_keeps_inv by blast
  show "pager_inv xxh pg \<Longrightarrow> pid \<in> UNIV \<Longrightarrow> write_data_page xxh pid buf pg = ((r, buf'), pg') \<Longrightarrow> pager_inv xxh pg'"
    using write_data_page_keeps_inv [of xxh pid buf pg r buf' pg'] write_data_page_short [of buf xxh pid pg]
    by (cases "8 \<le> length buf") auto
  show "pager_inv xxh pg \<Longrightarrow> sync_data pg = (r'', pg') \<Longrightarrow> pager_inv xxh pg'"
    by (rule sync_data_keeps_inv)
qed

section \<open>Pagers that can commit\<close>

text \<open>
  What a commit needs of the pager: the active slot is in place, the other one may hold anything,
  and unsynced writes may lie on it.
\<close>

definition commit_ready :: "(bytes \<Rightarrow> u64) \<Rightarrow> pager \<Rightarrow> bool" where
  "commit_ready xxh pg \<longleftrightarrow> valid_page_size (page_bytes (p_page_size pg)) \<and> p_active_slot pg \<in> {0, 1} \<and>
     8192 \<le> length (contents (p_file pg)) \<and>
     slice (contents (p_file pg)) (slot_pos (p_active_slot pg)) 4096 = encoded_slot xxh (meta_of pg)"

lemma pager_inv_ready: "pager_inv xxh pg \<Longrightarrow> commit_ready xxh pg"
  using pager_inv_active pager_inv_length by (auto simp: commit_ready_def)

lemma commit_ready_same:
  "commit_ready xxh pg \<Longrightarrow> same_pager pg pg' \<Longrightarrow> contents (p_file pg') = contents (p_file pg) \<Longrightarrow> commit_ready xxh pg'"
  by (simp add: commit_ready_def same_pager_sel)

lemma commit_ready_overwrite:
  assumes "commit_ready xxh pg" "same_pager pg pg'"
    and "contents (p_file pg') = overwrite (contents (p_file pg)) off bs"
    and "off + length bs \<le> slot_pos (p_active_slot pg) \<or> slot_pos (p_active_slot pg) + 4096 \<le> off"
  shows "commit_ready xxh pg'"
proof -
  have act: "p_active_slot pg \<in> {0, 1}" "8192 \<le> length (contents (p_file pg))" using assms(1) by (simp_all add: commit_ready_def)
  have "slice (contents (p_file pg')) (slot_pos (p_active_slot pg)) 4096 = slice (contents (p_file pg)) (slot_pos (p_active_slot pg)) 4096"
    unfolding assms(3) using assms(4) slot_regions(2) [OF act(1)] act(2) by (intro slice_overwrite_other) auto
  then show ?thesis
    using assms(1) by (simp add: commit_ready_def same_pager_sel [OF assms(2)] assms(3) length_overwrite max_def)
qed

interpretation ready_stable: pager_stable xxh "commit_ready xxh" UNIV for xxh
proof
  fix pg pg' :: pager and pid buf buf' and r r'' :: "unit presult" and r' :: "bytes presult"
  assume K: "commit_ready xxh pg"
  show "read_data_page xxh pid pg = (r', pg') \<Longrightarrow> commit_ready xxh pg'"
    using commit_ready_same [OF K] read_data_page_result(1,2) by metis
  show "sync_data pg = (r'', pg') \<Longrightarrow> commit_ready xxh pg'"
    using commit_ready_same [OF K] sync_data_result(1,2) by metis
  assume "write_data_page xxh pid buf pg = ((r, buf'), pg')"
  then show "commit_ready xxh pg'"
  proof (cases rule: write_data_page_pending)
    case (2 bs)
    have v: "valid_page_size (page_bytes (p_page_size pg))" "p_active_slot pg \<in> {0, 1}" using K by (simp_all add: commit_ready_def)
    have "8192 \<le> unat (file_offset pg pid)" using unat_file_offset [OF v(1)] by simp
    then show ?thesis
      using commit_ready_overwrite [OF K 2(1) contents_of_pending [OF 2(2,3)]] slot_regions(2) [OF v(2)] by simp
  qed (use K in simp)
qed

lemma commit_from_ready:
  assumes "commit_ready xxh pg" "p_txn_id pg \<noteq> - 1" "pager_commit xxh root count pg = (Inr (), pg')"
  shows "pager_inv xxh pg'"
proof -
  let ?a = "p_active_slot pg" and ?c = "contents (p_file pg)" and ?slot = "encoded_slot xxh (next_meta pg root count)"
  have act: "?a \<in> {0, 1}" and len: "8192 \<le> length ?c" and valid: "valid_page_size (page_bytes (p_page_size pg))"
    and active: "slice ?c (slot_pos ?a) 4096 = encoded_slot xxh (meta_of pg)"
    using assms(1) by (simp_all add: commit_ready_def)
  note reg = slot_regions [OF act] slot_regions(2) [OF conjunct1 [OF u8_slot_flip [OF act]]]
  from assms(3) act have fin: "meta_of pg' = next_meta pg root count" "p_active_slot pg' = 1 - ?a" "f_pending (p_file pg') = []"
    "f_durable (p_file pg') = overwrite ?c (slot_pos (1 - ?a)) ?slot"
    by (auto elim: pager_commit_outcomes)
  have ps: "p_page_size pg' = p_page_size pg" "p_txn_id pg' = p_txn_id pg + 1"
    using arg_cong [OF fin(1), of mc_page_size] arg_cong [OF fin(1), of mc_txn_id] by simp_all
  have target: "slice (f_durable (p_file pg')) (slot_pos (1 - ?a)) 4096 = ?slot"
    using slice_overwrite_same [of ?c "slot_pos (1 - ?a)" ?slot] by (simp add: fin)
  have "slice (f_durable (p_file pg')) (slot_pos ?a) 4096 = encoded_slot xxh (meta_of pg)"
    unfolding fin active [symmetric] using reg len by (intro slice_overwrite_other) auto
  moreover have "usable_slot xxh (encoded_slot xxh (meta_of pg)) = Some (meta_of pg)"
    by (rule usable_encoded_slot) (simp add: valid)
  ultimately have "older_slot xxh (slice (f_durable (p_file pg')) (slot_pos ?a) 4096) (p_txn_id pg + 1)"
    using txn_less_next [OF assms(2)] by (simp add: older_slot_def)
  moreover have "8192 \<le> length (f_durable (p_file pg'))" using len by (auto simp: fin length_overwrite)
  ultimately show ?thesis
    using act target valid u8_slot_flip [OF act] by (simp add: pager_inv_def fin ps)
qed

section \<open>Committed pages\<close>

text \<open>
  The bytes of page \<open>pid\<close> on stable storage are still those of \<open>pg0\<close>, and no
  unsynced write overlaps them. \<open>keeps_committed\<close> says so of every committed page, and that
  the meta region is still the one of \<open>pg0\<close>.
\<close>

definition page_frozen :: "pager \<Rightarrow> pager \<Rightarrow> u32 \<Rightarrow> bool" where
  "page_frozen pg0 pg pid \<longleftrightarrow>
     (let off = unat (file_offset pg0 pid); n = bytes_usize (p_page_size pg0) in
      off + n \<le> length (f_durable (p_file pg0)) \<longrightarrow>
        off + n \<le> length (f_durable (p_file pg)) \<and> untouched (f_pending (p_file pg)) off n \<and>
        slice (f_durable (p_file pg)) off n = slice (f_durable (p_file pg0)) off n)"

definition keeps_committed :: "(bytes \<Rightarrow> u64) \<Rightarrow> pager \<Rightarrow> pager \<Rightarrow> bool" where
  "keeps_committed xxh pg0 pg \<longleftrightarrow> pager_inv xxh pg \<and> same_pager pg0 pg \<and>
     slice (f_durable (p_file pg)) 0 8192 = slice (f_durable (p_file pg0)) 0 8192 \<and>
     (\<forall>pid. 2 \<le> unat pid \<and> pid < p_page_count pg0 \<longrightarrow> page_frozen pg0 pg pid)"

lemma page_frozen_same_file:
  assumes "page_frozen pg0 pg pid" "f_durable (p_file pg') = f_durable (p_file pg)" "f_pending (p_file pg') = f_pending (p_file pg)"
  shows "page_frozen pg0 pg' pid"
  using assms by (simp add: page_frozen_def)

lemma page_frozen_sync:
  assumes "page_frozen pg0 pg pid" "f_durable (p_file pg') = contents (p_file pg)" "f_pending (p_file pg') = []"
  shows "page_frozen pg0 pg' pid"
  using assms contents_untouched [of "f_pending (p_file pg)" _ _ "f_durable (p_file pg)"]
  by (auto simp: page_frozen_def Let_def contents_def)

lemma page_frozen_write:
  assumes "page_frozen pg0 pg pid" "f_durable (p_file pg') = f_durable (p_file pg)"
    and "f_pending (p_file pg') = f_pending (p_file pg) @ [(unat (file_offset pg0 pid'), bs)]"
    and "pid < pid'" "2 \<le> unat pid" "valid_page_size (page_bytes (p_page_size pg0))"
  shows "page_frozen pg0 pg' pid"
proof -
  have "unat (file_offset pg0 pid) + bytes_usize (p_page_size pg0) \<le> unat (file_offset pg0 pid')"
    using assms(4) by (intro page_region_before [OF assms(6,5)]) (simp add: word_less_nat_alt)
  then show ?thesis using assms(1) by (auto simp: page_frozen_def Let_def assms(2,3))
qed

interpretation committed_stable: pager_stable xxh "keeps_committed xxh pg0" "{pid. p_page_count pg0 \<le> pid}" for xxh pg0
proof
  fix pg pg' pid buf and r r'' :: "unit presult" and r' buf'
  show "keeps_committed xxh pg0 pg'" if K: "keeps_committed xxh pg0 pg" and rd: "read_data_page xxh pid pg = (r', pg')" for r'
    using K read_data_page_keeps_inv [OF rd] read_data_page_result(1,3,4) [OF rd]
      page_frozen_same_file [of pg0 pg _ pg'] same_pager_trans
    unfolding keeps_committed_def by (simp only:) blast
  show "keeps_committed xxh pg0 pg'"
    if K: "keeps_committed xxh pg0 pg" and pid: "pid \<in> {pid. p_page_count pg0 \<le> pid}"
      and w: "write_data_page xxh pid buf pg = ((r, buf'), pg')"
    using w
  proof (cases rule: write_data_page_pending)
    case 1
    with K show ?thesis by simp
  next
    case (2 bs)
    have "file_offset pg = file_offset pg0" "valid_page_size (page_bytes (p_page_size pg0))"
      using K same_pager_sel(1,8) [of pg0 pg] pager_inv_active(2) [of xxh pg] by (auto simp: keeps_committed_def)
    then have "page_frozen pg0 pg' q" if "2 \<le> unat q" "q < p_page_count pg0" for q
      using K pid that 2(2,3) by (intro page_frozen_write [of pg0 pg q pg' pid bs]) (auto simp: keeps_committed_def)
    moreover have "pager_inv xxh pg'" using K inv_stable.write_keeps [OF _ _ w] by (simp add: keeps_committed_def)
    ultimately show ?thesis using K same_pager_trans [OF _ 2(1)] by (auto simp: keeps_committed_def 2(2))
  qed
  show "keeps_committed xxh pg0 pg'" if K: "keeps_committed xxh pg0 pg" and s: "sync_data pg = (r'', pg')"
  proof -
    note S = sync_data_result [OF s]
    have "page_frozen pg0 pg' q" if "page_frozen pg0 pg q" for q
      using S(3,4) page_frozen_sync [OF that] page_frozen_same_file [OF that] by (cases "r'' = Inr ()") auto
    moreover have "slice (f_durable (p_file pg')) 0 8192 = slice (f_durable (p_file pg)) 0 8192"
      using S(3,4) pager_inv_meta_region [of xxh pg 0 8192] K by (cases "r'' = Inr ()") (auto simp: keeps_committed_def)
    ultimately show ?thesis
      using K sync_data_keeps_inv [OF _ s] same_pager_trans [OF _ S(1)] unfolding keeps_committed_def by auto
  qed
qed

end
