(* ===== verification/Page_Store.thy ===== *)
theory Page_Store
  imports Buffer_Pool
begin

text \<open>
  The interface between the buffer pool and the tree code above it. The locale
  \<open>page_store\<close> lists what the tree relies on: a page in the view can be read and reads
  as the view says, a page put under a freshly allocated id enters the view, and neither
  disturbs the pages that were there. The pool's operations interpret it in states without
  pending I/O faults.
\<close>

locale page_store =
  fixes inv :: "'s \<Rightarrow> bool"
    and view :: "'s \<Rightarrow> u32 \<Rightarrow> bytes option"
    and next_id :: "'s \<Rightarrow> u32"
    and size :: "'s \<Rightarrow> nat"
    and keep :: "'s \<Rightarrow> 's \<Rightarrow> bool"
    and get :: "u32 \<Rightarrow> ('s, 'e, bytes) smethod"
    and alloc :: "('s, 'e, u32) smethod"
    and put :: "u32 \<Rightarrow> bytes \<Rightarrow> ('s, 'e, unit) smethod"
  assumes keep_refl: "keep s s"
    and keep_trans: "keep s t \<Longrightarrow> keep t u \<Longrightarrow> keep s u"
    and keep_size: "keep s t \<Longrightarrow> size t = size s"
    and view_allocated: "inv s \<Longrightarrow> view s pid = Some b \<Longrightarrow> 2 \<le> unat pid \<and> pid < next_id s"
    and view_length: "inv s \<Longrightarrow> view s pid = Some b \<Longrightarrow> length b + 8 = size s"
    and get_law: "inv s \<Longrightarrow> view s pid = Some b \<Longrightarrow>
      \<exists>buf s'. get pid s = (Inr buf, s') \<and> page_body buf = b \<and> length buf = size s \<and>
        inv s' \<and> keep s s' \<and> next_id s' = next_id s \<and> view s \<subseteq>\<^sub>m view s'"
    and put_law: "inv s \<Longrightarrow> length buf = size s \<Longrightarrow> next_id s \<noteq> - 1 \<Longrightarrow>
      \<exists>s1 s'. alloc s = (Inr (next_id s), s1) \<and> put (next_id s) buf s1 = (Inr (), s') \<and>
        inv s' \<and> keep s s' \<and> next_id s' = next_id s + 1 \<and> (view s)(next_id s \<mapsto> page_body buf) \<subseteq>\<^sub>m view s'"
begin

text \<open>One step of a client: the state stays good, the pages it knew are still there.\<close>

definition extends :: "'s \<Rightarrow> 's \<Rightarrow> bool" where
  "extends s t \<longleftrightarrow> inv t \<and> keep s t \<and> next_id s \<le> next_id t \<and> view s \<subseteq>\<^sub>m view t"

lemma extends_refl: "inv s \<Longrightarrow> extends s s"
  by (simp add: extends_def keep_refl)

lemma extends_trans: "extends s t \<Longrightarrow> extends t u \<Longrightarrow> extends s u"
  unfolding extends_def by (blast intro: keep_trans map_le_trans order_trans)

lemma extends_view: "extends s t \<Longrightarrow> view s pid = Some b \<Longrightarrow> view t pid = Some b"
  by (auto simp: extends_def map_le_def dom_def)

lemma extends_size: "extends s t \<Longrightarrow> size t = size s"
  by (simp add: extends_def keep_size)

lemma get_page:
  assumes "inv s" "view s pid = Some b"
  obtains buf s' where "get pid s = (Inr buf, s')" "page_body buf = b" "length buf = size s"
    "extends s s'" "next_id s' = next_id s"
  using get_law [OF assms] unfolding extends_def by auto

lemma view_fresh: "inv s \<Longrightarrow> view s (next_id s) = None"
  using view_allocated [of s "next_id s"] by (cases "view s (next_id s)") auto

lemma put_page:
  assumes "inv s" "length buf = size s" "next_id s \<noteq> - 1"
  obtains s1 s' where "alloc s = (Inr (next_id s), s1)" "put (next_id s) buf s1 = (Inr (), s')"
    "extends s s'" "next_id s' = next_id s + 1" "view s' (next_id s) = Some (page_body buf)"
proof -
  from put_law [OF assms] obtain s1 s' where
    p: "alloc s = (Inr (next_id s), s1)" "put (next_id s) buf s1 = (Inr (), s')" "inv s'" "keep s s'"
      "next_id s' = next_id s + 1" "(view s)(next_id s \<mapsto> page_body buf) \<subseteq>\<^sub>m view s'"
    by blast
  have "unat (next_id s + 1) = unat (next_id s) + 1"
    using assms(3) unatSuc [of "next_id s"] by (simp add: add_eq_0_iff add.commute)
  then have "next_id s \<le> next_id s'" by (simp add: p(5) word_le_nat_alt)
  moreover have "view s \<subseteq>\<^sub>m view s'"
    using p(6) view_fresh [OF assms(1)] by (auto simp: map_le_def dom_def split: if_splits)
  ultimately have "extends s s'" using p(3,4) by (simp add: extends_def)
  moreover have "view s' (next_id s) = Some (page_body buf)" using p(6) by (auto simp: map_le_def)
  ultimately show thesis using that p by blast
qed

text \<open>What was put is what a later read returns, whatever pages were put in between.\<close>

lemma get_after_put:
  assumes "inv s" "length buf = size s" "next_id s \<noteq> - 1"
    and "alloc s = (Inr pid, s1)" "put pid buf s1 = (Inr (), s')" "extends s' t"
  shows "\<exists>buf' t'. get pid t = (Inr buf', t') \<and> page_body buf' = page_body buf"
proof -
  from assms(1-3) obtain t1 t' where "alloc s = (Inr (next_id s), t1)" "put (next_id s) buf t1 = (Inr (), t')"
    "view t' (next_id s) = Some (page_body buf)" by (rule put_page)
  with assms(4,5) have "view s' pid = Some (page_body buf)" by simp
  then have "view t pid = Some (page_body buf)" using extends_view [OF assms(6)] by simp
  moreover have "inv t" using assms(6) by (simp add: extends_def)
  ultimately show ?thesis using get_law by blast
qed

end

section \<open>The pool as a page store\<close>

definition store_ok :: "(bytes \<Rightarrow> u64) \<Rightarrow> pool \<Rightarrow> bool" where
  "store_ok xxh p \<longleftrightarrow> pool_inv xxh p \<and> 2 \<le> unat (bp_next_page_id p) \<and> (\<forall>pid \<in> set (bp_dirty p). pid < bp_next_page_id p)"

definition store_inv :: "(bytes \<Rightarrow> u64) \<Rightarrow> pool \<Rightarrow> bool" where
  "store_inv xxh p \<longleftrightarrow> store_ok xxh p \<and> commit_ready xxh (bp_pager p) \<and> fault_free (pool_file p)"

definition store_view :: "(bytes \<Rightarrow> u64) \<Rightarrow> pool \<Rightarrow> u32 \<Rightarrow> bytes option" where
  "store_view xxh p = pool_view xxh p |` {pid. pid < bp_next_page_id p}"

definition store_frame :: "pool \<Rightarrow> pool \<Rightarrow> bool" where
  "store_frame p p' \<longleftrightarrow> same_pager (bp_pager p) (bp_pager p') \<and> bp_capacity p' = bp_capacity p"

definition pool_page_bytes :: "pool \<Rightarrow> nat" where
  "pool_page_bytes p = bytes_usize (pool_page_size p)"

lemma store_frame_sel:
  assumes "store_frame p p'"
  shows "pool_page_size p' = pool_page_size p" "pool_root_page_id p' = pool_root_page_id p"
  using assms same_pager_sel [of "bp_pager p" "bp_pager p'"]
  by (auto simp: store_frame_def pool_page_size_def pool_root_page_id_def)

text \<open>A read takes no page id and makes no page dirty; a new page is the only one that may become dirty.\<close>

interpretation any_stable: pager_stable xxh "\<lambda>_. True" W for xxh W
  by unfold_locales simp_all

lemma pool_get_dirty:
  assumes "pool_get xxh pid p = (r, p')"
  shows "set (bp_dirty p') \<subseteq> set (bp_dirty p)"
  using any_stable.pool_get_safe [OF _ assms, of "set (bp_dirty p)"] by (simp add: any_stable.safe_def)

lemma put_new_dirty:
  assumes "put_new xxh pid buf p = (r, p')"
  shows "set (bp_dirty p') \<subseteq> insert pid (set (bp_dirty p))"
  using any_stable.put_new_safe [OF _ _ assms, of "insert pid (set (bp_dirty p))"] by (auto simp: any_stable.safe_def)

lemma store_ok_get:
  assumes "store_ok xxh p" "pool_get xxh pid p = (r, p')"
  shows "store_ok xxh p'"
proof -
  have inv: "pool_inv xxh p" using assms(1) by (simp add: store_ok_def)
  note G = pool_get_inv [OF inv assms(2)]
  have "pool_frame p p'" using G by blast
  then show ?thesis using assms(1) G pool_get_dirty [OF assms(2)] pool_frame_sel(4) [of p p'] by (auto simp: store_ok_def)
qed

lemma unat_next: "pid \<noteq> - 1 \<Longrightarrow> unat (pid + 1 :: u32) = unat pid + 1"
  using unatSuc [of pid] by (simp add: add_eq_0_iff add.commute)

lemma store_ok_put:
  assumes "store_ok xxh p" "length buf = bytes_usize (pool_page_size p)" "bp_next_page_id p \<noteq> - 1"
    and "put_new xxh (bp_next_page_id p) buf (p\<lparr>bp_next_page_id := bp_next_page_id p + 1\<rparr>) = (r, p')"
  shows "store_ok xxh p'" "pool_frame (p\<lparr>bp_next_page_id := bp_next_page_id p + 1\<rparr>) p'"
    "r = Inr () \<Longrightarrow> (pool_view xxh p)(bp_next_page_id p \<mapsto> page_body buf) \<subseteq>\<^sub>m pool_view xxh p'"
proof -
  let ?n = "bp_next_page_id p" and ?p1 = "p\<lparr>bp_next_page_id := bp_next_page_id p + 1\<rparr>"
  have inv: "pool_inv xxh ?p1"
    using assms(1) by (simp add: store_ok_def pool_inv_def pool_wf_def pool_coherent_def pool_page_size_def)
  have new: "?n \<notin> set (bp_dirty ?p1)" "length buf = bytes_usize (pool_page_size ?p1)" "2 \<le> unat ?n"
    using assms(1,2) by (auto simp: store_ok_def pool_page_size_def)
  note I = insert_cached_inv [OF inv new(1,2) new(3) disjI1 [OF TrueI] assms(4) [unfolded put_new_def]]
  show fr: "pool_frame ?p1 p'" by (rule I(2))
  have lt: "q < ?n + 1" if "q < ?n \<or> q = ?n" for q
    using that unat_next [OF assms(3)] by (auto simp: word_less_nat_alt)
  have "set (bp_dirty p') \<subseteq> insert ?n (set (bp_dirty p))" using put_new_dirty [OF assms(4)] by simp
  moreover have "bp_next_page_id p' = ?n + 1" using pool_frame_sel(4) [OF fr] by simp
  ultimately show "store_ok xxh p'"
    using assms(1) I(1) lt unat_next [OF assms(3)] by (auto simp: store_ok_def)
  have "pool_view xxh ?p1 = pool_view xxh p" by (rule pool_view_cong) simp_all
  then show "r = Inr () \<Longrightarrow> (pool_view xxh p)(?n \<mapsto> page_body buf) \<subseteq>\<^sub>m pool_view xxh p'"
    using I(3) new(3) by simp
qed

lemma ready_stable_safe [simp]: "ready_stable.safe xxh p \<longleftrightarrow> commit_ready xxh (bp_pager p)"
  by (simp add: ready_stable.safe_def)

lemma store_view_Some:
  "store_view xxh p pid = Some b \<longleftrightarrow> pid < bp_next_page_id p \<and> pool_view xxh p pid = Some b"
  by (auto simp: store_view_def restrict_map_def)

lemma store_get:
  assumes "store_inv xxh p" "store_view xxh p pid = Some b"
  shows "\<exists>buf p'. pool_get xxh pid p = (Inr buf, p') \<and> page_body buf = b \<and> length buf = pool_page_bytes p \<and>
    store_inv xxh p' \<and> store_frame p p' \<and> bp_next_page_id p' = bp_next_page_id p \<and> store_view xxh p \<subseteq>\<^sub>m store_view xxh p'"
proof -
  have s: "store_ok xxh p" "pool_inv xxh p" "commit_ready xxh (bp_pager p)" "fault_free (pool_file p)"
    using assms(1) by (simp_all add: store_inv_def store_ok_def)
  have v: "pid < bp_next_page_id p" "pool_view xxh p pid = Some b" using assms(2) by (simp_all add: store_view_Some)
  then have pid: "2 \<le> unat pid" by (auto simp: pool_view_def split: if_splits)
  from s(2) pid s(4) v(2) obtain buf p' where g: "pool_get xxh pid p = (Inr buf, p')" "fault_free (pool_file p')"
    by (rule pool_get_fault_free)
  note G = pool_get_inv [OF s(2) g(1)]
  have "commit_ready xxh (bp_pager p')" using ready_stable.pool_get_safe [OF _ g(1)] s(3) by simp
  then have "store_inv xxh p'" using store_ok_get [OF s(1) g(1)] g(2) by (simp add: store_inv_def)
  moreover have "store_frame p p'" using G by (simp add: pool_frame_def store_frame_def)
  moreover have "store_view xxh p \<subseteq>\<^sub>m store_view xxh p'"
    using G pool_frame_sel(4) [of p p'] by (auto simp: map_le_def dom_def store_view_def restrict_map_def)
  ultimately show ?thesis using g(1) G v(2) pid by (auto simp: pool_page_bytes_def pool_frame_sel)
qed

lemma store_put:
  assumes "store_inv xxh p" "length buf = pool_page_bytes p" "bp_next_page_id p \<noteq> - 1"
  shows "\<exists>p1 p'. allocate_page_id p = (Inr (bp_next_page_id p), p1) \<and>
    put_new xxh (bp_next_page_id p) buf p1 = (Inr (), p') \<and> store_inv xxh p' \<and> store_frame p p' \<and>
    bp_next_page_id p' = bp_next_page_id p + 1 \<and>
    (store_view xxh p)(bp_next_page_id p \<mapsto> page_body buf) \<subseteq>\<^sub>m store_view xxh p'"
proof -
  let ?n = "bp_next_page_id p" and ?p1 = "p\<lparr>bp_next_page_id := bp_next_page_id p + 1\<rparr>"
  have s: "store_ok xxh p" "commit_ready xxh (bp_pager ?p1)" "fault_free (pool_file ?p1)" "?n \<notin> set (bp_dirty ?p1)"
    using assms(1) by (auto simp: store_inv_def store_ok_def)
  have inv: "pool_inv xxh ?p1"
    using s(1) by (simp add: store_ok_def pool_inv_def pool_wf_def pool_coherent_def pool_page_size_def)
  from inv s(4,3) obtain p' where p': "put_new xxh ?n buf ?p1 = (Inr (), p')" "fault_free (pool_file p')"
    unfolding put_new_def by (rule insert_cached_fault_free)
  note P = store_ok_put [OF s(1) assms(2) [unfolded pool_page_bytes_def] assms(3) p'(1)]
  have next': "bp_next_page_id p' = ?n + 1" using pool_frame_sel(4) [OF P(2)] by simp
  have "commit_ready xxh (bp_pager p')" using ready_stable.put_new_safe [OF _ _ p'(1)] s(2) by simp
  then have "store_inv xxh p'" using P(1) p'(2) by (simp add: store_inv_def)
  moreover have "store_frame p p'" using P(2) by (simp add: pool_frame_def store_frame_def)
  moreover have "q < ?n + 1" if "q < ?n \<or> q = ?n" for q
    using that unat_next [OF assms(3)] by (auto simp: word_less_nat_alt)
  then have "(store_view xxh p)(?n \<mapsto> page_body buf) \<subseteq>\<^sub>m store_view xxh p'"
    using P(3) by (auto simp: map_le_def dom_def store_view_def restrict_map_def next' split: if_splits)
  ultimately show ?thesis using p'(1) next' by (auto simp: allocate_page_id_def)
qed

lemma page_body_length: "length (page_body buf) = length buf - 8"
  by (simp add: page_body_def)

lemma store_view_length:
  assumes "store_inv xxh p" "store_view xxh p pid = Some b"
  shows "length b + 8 = pool_page_bytes p"
proof -
  from store_get [OF assms] obtain buf where "page_body buf = b" "length buf = pool_page_bytes p" by blast
  moreover have "valid_page_size (page_bytes (pool_page_size p))"
    using assms(1) by (simp add: store_inv_def store_ok_def pool_inv_def pool_coherent_def)
  then have "4096 \<le> pool_page_bytes p" unfolding pool_page_bytes_def by (rule valid_page_size_bounds)
  ultimately show ?thesis using page_body_length [of buf] by simp
qed

interpretation store: page_store "store_inv xxh" "store_view xxh" bp_next_page_id pool_page_bytes store_frame
  "pool_get xxh" allocate_page_id "put_new xxh" for xxh
proof
  fix p p' p'' :: pool and pid b buf
  show "store_frame p p" by (simp add: store_frame_def)
  show "store_frame p p' \<Longrightarrow> store_frame p' p'' \<Longrightarrow> store_frame p p''"
    using same_pager_trans by (auto simp: store_frame_def)
  show "store_frame p p' \<Longrightarrow> pool_page_bytes p' = pool_page_bytes p"
    by (simp add: pool_page_bytes_def store_frame_sel)
  show "store_inv xxh p \<Longrightarrow> store_view xxh p pid = Some b \<Longrightarrow> 2 \<le> unat pid \<and> pid < bp_next_page_id p"
    by (auto simp: store_view_Some pool_view_def split: if_splits)
  show "store_inv xxh p \<Longrightarrow> store_view xxh p pid = Some b \<Longrightarrow> length b + 8 = pool_page_bytes p"
    by (rule store_view_length)
qed (rule store_get store_put; assumption)+

section \<open>Commit\<close>

lemma pool_commit_dirty:
  assumes "pool_commit xxh root p = (r, p')"
  shows "set (bp_dirty p') \<subseteq> set (bp_dirty p)"
proof -
  obtain r1 p1 where fl: "flush_all_dirty xxh p = (r1, p1)" by fastforce
  then have "set (bp_dirty p1) \<subseteq> set (bp_dirty p)"
    using any_stable.flush_all_dirty_safe [OF _ fl, of "set (bp_dirty p)"] by (simp add: any_stable.safe_def)
  then show ?thesis using assms fl by (auto simp: pool_commit_def sbind_def split: sum.splits prod.splits)
qed

lemma pool_commit_pager:
  assumes "pool_inv xxh p" "commit_ready xxh (bp_pager p)" "p_txn_id (bp_pager p) \<noteq> - 1"
    and "pool_commit xxh root p = (Inr (), p')"
  shows "pager_inv xxh (bp_pager p')"
proof -
  obtain r1 p1 where fl: "flush_all_dirty xxh p = (r1, p1)" by fastforce
  have r1: "r1 = Inr ()" using assms(4) fl by (cases r1) (auto simp: pool_commit_def sbind_def)
  have "commit_ready xxh (bp_pager p1)" using ready_stable.flush_all_dirty_safe [OF _ fl] assms(2) by simp
  moreover have "p_txn_id (bp_pager p1) \<noteq> - 1"
    using assms(3) flush_all_dirty_inv(2) [OF assms(1) fl] same_pager_sel(4) [of "bp_pager p" "bp_pager p1"]
    by (simp add: pool_frame_def)
  moreover have "pager_commit xxh root (bp_next_page_id p1) (bp_pager p1) = (Inr (), bp_pager p')"
    using assms(4) fl r1 by (auto simp: pool_commit_def sbind_def split: prod.splits)
  ultimately show ?thesis by (rule commit_from_ready)
qed

lemma store_commit:
  assumes "store_inv xxh p" "p_txn_id (bp_pager p) \<noteq> - 1"
  obtains p' where "pool_commit xxh root p = (Inr (), p')" "store_inv xxh p'" "store_view xxh p \<subseteq>\<^sub>m store_view xxh p'"
    "pool_root_page_id p' = root" "bp_next_page_id p' = bp_next_page_id p" "pool_page_size p' = pool_page_size p"
    "p_page_count (bp_pager p') = bp_next_page_id p" "p_txn_id (bp_pager p') = p_txn_id (bp_pager p) + 1"
    "bp_dirty p' = []" "f_pending (pool_file p') = []" "bp_capacity p' = bp_capacity p" "pager_inv xxh (bp_pager p')"
proof -
  have s: "pool_inv xxh p" "commit_ready xxh (bp_pager p)" "fault_free (pool_file p)" "2 \<le> unat (bp_next_page_id p)"
    using assms(1) by (simp_all add: store_inv_def store_ok_def)
  from s(1,3) obtain p' where c: "pool_commit xxh root p = (Inr (), p')" "fault_free (pool_file p')"
    by (rule pool_commit_fault_free)
  have "p_active_slot (bp_pager p) \<in> {0, 1}" using s(2) by (simp add: commit_ready_def)
  note C = pool_commit_inv [OF s(1) this c(1)]
  have P: "pager_inv xxh (bp_pager p')" by (rule pool_commit_pager [OF s(1,2) assms(2) c(1)])
  have "store_inv xxh p'"
    using s(4) C(1,3,6) c(2) pager_inv_ready [OF P] by (simp add: store_inv_def store_ok_def)
  moreover have "store_view xxh p \<subseteq>\<^sub>m store_view xxh p'"
    using C(3,5) by (auto simp: map_le_def dom_def store_view_def restrict_map_def)
  ultimately show thesis using that c(1) C P by simp
qed

text \<open>Whichever I/O call of a commit fails, the commit can be tried again.\<close>

lemma failed_commit_ready:
  assumes inv: "pool_inv xxh p" "commit_ready xxh (bp_pager p)" and c: "pool_commit xxh root p = (Inl e, p')"
  shows "commit_ready xxh (bp_pager p') \<and> same_pager (bp_pager p) (bp_pager p')"
proof -
  obtain rf pf where fl: "flush_all_dirty xxh p = (rf, pf)" by fastforce
  have pf: "commit_ready xxh (bp_pager pf)" using ready_stable.flush_all_dirty_safe [OF _ fl] inv(2) by simp
  have same: "same_pager (bp_pager p) (bp_pager pf)"
    using flush_all_dirty_inv(2) [OF inv(1) fl] by (simp add: pool_frame_def)
  show ?thesis
  proof (cases rf)
    case (Inl e')
    then have "p' = pf" using c fl by (simp add: pool_commit_def sbind_def)
    then show ?thesis using pf same by simp
  next
    case (Inr u)
    let ?pg = "bp_pager pf" and ?slot = "encoded_slot xxh (next_meta (bp_pager pf) root (bp_next_page_id pf))"
    obtain pg' where pc: "pager_commit xxh root (bp_next_page_id pf) ?pg = (Inl e, pg')" "p' = pf\<lparr>bp_pager := pg'\<rparr>"
      using c fl Inr by (cases "pager_commit xxh root (bp_next_page_id pf) ?pg") (simp add: pool_commit_def sbind_def)
    have act: "p_active_slot ?pg \<in> {0, 1}" using pf by (simp add: commit_ready_def)
    have "commit_ready xxh pg' \<and> same_pager ?pg pg'"
      using pc(1) act
    proof (cases rule: pager_commit_outcomes)
      case (unsynced e')
      have s: "same_pager ?pg pg'" using unsynced(2) by (simp add: same_pager_def)
      have "contents (p_file pg') = contents (p_file ?pg)" using unsynced(3,4) by (simp add: contents_def)
      from commit_ready_same [OF pf s this] s show ?thesis by simp
    next
      case (torn e' k)
      have s: "same_pager ?pg pg'" using torn(2) by (simp add: same_pager_def)
      have "contents (p_file pg') = overwrite (contents (p_file ?pg)) (slot_pos (1 - p_active_slot ?pg)) (take k ?slot)"
        by (simp add: contents_def [of "p_file pg'"] torn(3,4) apply_writes_def)
      from commit_ready_overwrite [OF pf s this] slot_regions(1) [OF act] s
      show ?thesis by auto
    qed simp
    then show ?thesis using pc(2) same_pager_trans [OF same] by simp
  qed
qed

end
