(* ===== verification/Layout.thy ===== *)
theory Layout
  imports Page
begin

text \<open>
  \<open>crates/pinax/src/btree/layout.rs\<close> with the layout constants of
  \<open>btree/mod.rs\<close>: slotted pages, leaf cells and interior cells. Offsets on a page are
  \<open>u16\<close> words whose arithmetic wraps, as in a release build. A function on
  \<open>&mut [u8]\<close> returns the changed buffer.

  \<open>page_cells h buf cells\<close> is the abstraction: \<open>buf\<close> is a slotted page with an
  \<open>h\<close>-byte header whose pointer array leads to the byte strings \<open>cells\<close>, in order.
  The operations refine the list operations on \<open>cells\<close>.
\<close>

section \<open>Constants\<close>

definition LEAF_HEADER_LEN :: nat where "LEAF_HEADER_LEN = 5"
definition INTERIOR_HEADER_LEN :: nat where "INTERIOR_HEADER_LEN = 9"
definition LEAF_CELL_FIXED_LEN :: nat where "LEAF_CELL_FIXED_LEN = 16"
definition INTERIOR_CELL_LEN :: nat where "INTERIOR_CELL_LEN = 12"
definition OVERFLOW_HEADER_LEN :: nat where "OVERFLOW_HEADER_LEN = 5"
definition POINTER_LEN :: nat where "POINTER_LEN = 2"

lemmas layout_consts = LEAF_HEADER_LEN_def INTERIOR_HEADER_LEN_def LEAF_CELL_FIXED_LEN_def
  INTERIOR_CELL_LEN_def OVERFLOW_HEADER_LEN_def POINTER_LEN_def

text \<open>\<open>u16::try_from(n).unwrap_or(d)\<close> and its 32-bit counterpart.\<close>

definition u16_from :: "nat \<Rightarrow> u16 \<Rightarrow> u16" where
  "u16_from n d = (if n < 2 ^ 16 then word_of_nat n else d)"

definition u32_from :: "nat \<Rightarrow> u32 \<Rightarrow> u32" where
  "u32_from n d = (if n < 2 ^ 32 then word_of_nat n else d)"

section \<open>Slotted pages\<close>

definition init_slotted :: "bytes \<Rightarrow> u8 \<Rightarrow> bytes presult" where
  "init_slotted buf page_type =
     (let usable = u16_from (length buf) (- 1) - checksum_len_u16
      in rbind (write_u8 buf 0 page_type) (\<lambda>buf.
         rbind (write_u16 buf 1 0) (\<lambda>buf.
           write_u16 buf 3 usable)))"

definition num_cells :: "bytes \<Rightarrow> u16 presult" where
  "num_cells buf = read_u16 buf 1"

definition set_num_cells :: "bytes \<Rightarrow> u16 \<Rightarrow> bytes presult" where
  "set_num_cells buf n = write_u16 buf 1 n"

definition content_start :: "bytes \<Rightarrow> u16 presult" where
  "content_start buf = read_u16 buf 3"

definition set_content_start :: "bytes \<Rightarrow> u16 \<Rightarrow> bytes presult" where
  "set_content_start buf v = write_u16 buf 3 v"

definition pointer_at :: "bytes \<Rightarrow> nat \<Rightarrow> nat \<Rightarrow> u16 presult" where
  "pointer_at buf header_len index = read_u16 buf (header_len + index * POINTER_LEN)"

definition set_pointer_at :: "bytes \<Rightarrow> nat \<Rightarrow> nat \<Rightarrow> u16 \<Rightarrow> bytes presult" where
  "set_pointer_at buf header_len index offset = write_u16 buf (header_len + index * POINTER_LEN) offset"

definition free_space :: "bytes \<Rightarrow> nat \<Rightarrow> u16 presult" where
  "free_space buf header_len =
     rbind (num_cells buf) (\<lambda>n.
     rbind (content_start buf) (\<lambda>cs.
       let header_len_u16 = u16_from header_len (- 1);
           used_by_pointers = header_len_u16 + n * u16_from POINTER_LEN 2
       in Inr (saturating_sub cs used_by_pointers)))"

text \<open>The loop \<open>for i in (index..n).rev()\<close>, over the indices it visits.\<close>

fun shift_pointers_right :: "nat \<Rightarrow> nat list \<Rightarrow> bytes \<Rightarrow> bytes presult" where
  "shift_pointers_right header_len [] buf = Inr buf"
| "shift_pointers_right header_len (i # is) buf =
     rbind (pointer_at buf header_len i) (\<lambda>p.
     rbind (set_pointer_at buf header_len (i + 1) p) (\<lambda>buf.
       shift_pointers_right header_len is buf))"

definition insert_cell_at :: "bytes \<Rightarrow> nat \<Rightarrow> nat \<Rightarrow> bytes \<Rightarrow> bytes presult" where
  "insert_cell_at buf header_len index cell_bytes =
     rbind (num_cells buf) (\<lambda>n16. let n = unat n16 in
     rbind (content_start buf) (\<lambda>cs.
       let cell_len = u16_from (length cell_bytes) (- 1); new_cs = cs - cell_len in
     rbind (write_bytes buf (unat new_cs) cell_bytes) (\<lambda>buf.
     rbind (shift_pointers_right header_len (rev [index..<n]) buf) (\<lambda>buf.
     rbind (set_pointer_at buf header_len index new_cs) (\<lambda>buf.
     rbind (set_num_cells buf (u16_from (n + 1) (- 1))) (\<lambda>buf.
       set_content_start buf new_cs))))))"

fun shift_pointers_left :: "nat \<Rightarrow> nat list \<Rightarrow> bytes \<Rightarrow> bytes presult" where
  "shift_pointers_left header_len [] buf = Inr buf"
| "shift_pointers_left header_len (i # is) buf =
     rbind (pointer_at buf header_len (i + 1)) (\<lambda>p.
     rbind (set_pointer_at buf header_len i p) (\<lambda>buf.
       shift_pointers_left header_len is buf))"

definition remove_cell_at :: "bytes \<Rightarrow> nat \<Rightarrow> nat \<Rightarrow> (u16 \<times> bytes) presult" where
  "remove_cell_at buf header_len index =
     rbind (num_cells buf) (\<lambda>n16. let n = unat n16 in
     rbind (pointer_at buf header_len index) (\<lambda>offset.
     rbind (shift_pointers_left header_len [index..<n - 1] buf) (\<lambda>buf.
     rbind (set_num_cells buf (u16_from (n - 1) 0)) (\<lambda>buf.
       Inr (offset, buf)))))"

section \<open>Leaf pages\<close>

definition init_leaf :: "bytes \<Rightarrow> bytes presult" where
  "init_leaf buf = init_slotted buf PAGE_TYPE_LEAF"

definition leaf_key_at :: "bytes \<Rightarrow> nat \<Rightarrow> i64 presult" where
  "leaf_key_at buf index =
     rbind (pointer_at buf LEAF_HEADER_LEN index) (\<lambda>offset. read_i64 buf (unat offset))"

record leaf_cell =
  lc_key :: i64
  lc_payload_len :: u32
  lc_overflow_first :: u32
  lc_local :: bytes

definition leaf_local_len :: "u32 \<Rightarrow> u32 \<Rightarrow> u32" where
  "leaf_local_len payload_len max_loc = min payload_len max_loc"

definition leaf_cell_at :: "bytes \<Rightarrow> nat \<Rightarrow> u32 \<Rightarrow> leaf_cell presult" where
  "leaf_cell_at buf index max_loc =
     rbind (pointer_at buf LEAF_HEADER_LEN index) (\<lambda>offset16. let offset = unat offset16 in
     rbind (read_i64 buf offset) (\<lambda>key.
     rbind (read_u32 buf (offset + 8)) (\<lambda>payload_len.
     rbind (read_u32 buf (offset + 12)) (\<lambda>overflow_first.
       let local_len = unat (leaf_local_len payload_len max_loc) in
     rbind (read_vec buf (offset + LEAF_CELL_FIXED_LEN) local_len) (\<lambda>local.
       Inr \<lparr>lc_key = key, lc_payload_len = payload_len, lc_overflow_first = overflow_first,
            lc_local = local\<rparr>)))))"

definition leaf_cell_byte_len :: "bytes \<Rightarrow> nat \<Rightarrow> u32 \<Rightarrow> u16 presult" where
  "leaf_cell_byte_len buf index max_loc =
     rbind (pointer_at buf LEAF_HEADER_LEN index) (\<lambda>offset16. let offset = unat offset16 in
     rbind (read_u32 buf (offset + 8)) (\<lambda>payload_len.
       let local_len = leaf_local_len payload_len max_loc
       in Inr (u16_from LEAF_CELL_FIXED_LEN 16 + u16_from (unat local_len) 0)))"

definition build_leaf_cell :: "i64 \<Rightarrow> u32 \<Rightarrow> u32 \<Rightarrow> bytes \<Rightarrow> bytes" where
  "build_leaf_cell key payload_len overflow_first local =
     to_be_bytes 8 key @ to_be_bytes 4 payload_len @ to_be_bytes 4 overflow_first @ local"

text \<open>The binary search; \<open>Inr\<close> is the inner \<open>Ok\<close>, the index of the key.\<close>

function leaf_search_loop :: "bytes \<Rightarrow> i64 \<Rightarrow> nat \<Rightarrow> nat \<Rightarrow> (nat + nat) presult" where
  "leaf_search_loop buf key lo hi =
     (if lo < hi then
        let mid = lo + (hi - lo) div 2 in
        rbind (leaf_key_at buf mid) (\<lambda>mid_key.
          if mid_key = key then Inr (Inr mid)
          else if sint mid_key < sint key then leaf_search_loop buf key (mid + 1) hi
          else leaf_search_loop buf key lo mid)
      else Inr (Inl lo))"
  by pat_completeness auto
termination
  by (relation "measure (\<lambda>(buf, key, lo, hi). hi - lo)") auto

declare leaf_search_loop.simps [simp del]

definition leaf_search :: "bytes \<Rightarrow> i64 \<Rightarrow> (nat + nat) presult" where
  "leaf_search buf key = rbind (num_cells buf) (\<lambda>n. leaf_search_loop buf key 0 (unat n))"

section \<open>Interior pages\<close>

definition init_interior :: "bytes \<Rightarrow> u32 \<Rightarrow> bytes presult" where
  "init_interior buf rightmost_child =
     rbind (init_slotted buf PAGE_TYPE_INTERIOR) (\<lambda>buf. write_u32 buf 5 rightmost_child)"

definition interior_rightmost :: "bytes \<Rightarrow> u32 presult" where
  "interior_rightmost buf = read_u32 buf 5"

definition interior_set_rightmost :: "bytes \<Rightarrow> u32 \<Rightarrow> bytes presult" where
  "interior_set_rightmost buf child = write_u32 buf 5 child"

definition interior_key_at :: "bytes \<Rightarrow> nat \<Rightarrow> i64 presult" where
  "interior_key_at buf index =
     rbind (pointer_at buf INTERIOR_HEADER_LEN index) (\<lambda>offset. read_i64 buf (unat offset))"

definition interior_child_at :: "bytes \<Rightarrow> nat \<Rightarrow> u32 presult" where
  "interior_child_at buf index =
     rbind (pointer_at buf INTERIOR_HEADER_LEN index) (\<lambda>offset. read_u32 buf (unat offset + 8))"

definition interior_set_child_at :: "bytes \<Rightarrow> nat \<Rightarrow> u32 \<Rightarrow> bytes presult" where
  "interior_set_child_at buf index child =
     rbind (pointer_at buf INTERIOR_HEADER_LEN index) (\<lambda>offset. write_u32 buf (unat offset + 8) child)"

definition build_interior_cell :: "i64 \<Rightarrow> u32 \<Rightarrow> bytes" where
  "build_interior_cell key child = to_be_bytes 8 key @ to_be_bytes 4 child"

datatype child_slot = Cell nat | Rightmost

fun find_child_slot_from :: "bytes \<Rightarrow> u32 \<Rightarrow> nat list \<Rightarrow> child_slot presult" where
  "find_child_slot_from buf child_id [] = Inr Rightmost"
| "find_child_slot_from buf child_id (i # is) =
     rbind (interior_child_at buf i) (\<lambda>c.
       if c = child_id then Inr (Cell i) else find_child_slot_from buf child_id is)"

definition interior_find_child_slot :: "bytes \<Rightarrow> u32 \<Rightarrow> child_slot presult" where
  "interior_find_child_slot buf child_id =
     rbind (num_cells buf) (\<lambda>n. find_child_slot_from buf child_id [0..<unat n])"

fun find_child_for_key_from :: "bytes \<Rightarrow> i64 \<Rightarrow> nat list \<Rightarrow> u32 presult" where
  "find_child_for_key_from buf key [] = interior_rightmost buf"
| "find_child_for_key_from buf key (i # is) =
     rbind (interior_key_at buf i) (\<lambda>k.
       if sint key < sint k then interior_child_at buf i else find_child_for_key_from buf key is)"

definition interior_find_child_for_key :: "bytes \<Rightarrow> i64 \<Rightarrow> u32 presult" where
  "interior_find_child_for_key buf key =
     rbind (num_cells buf) (\<lambda>n. find_child_for_key_from buf key [0..<unat n])"

section \<open>The list of cells on a page\<close>

definition cell_count :: "bytes \<Rightarrow> nat" where
  "cell_count buf = unat (u16_at buf 1)"

definition content_pos :: "bytes \<Rightarrow> nat" where
  "content_pos buf = unat (u16_at buf 3)"

definition pointers :: "nat \<Rightarrow> nat \<Rightarrow> bytes \<Rightarrow> nat list" where
  "pointers h n buf = map (\<lambda>i. unat (u16_at buf (h + i * 2))) [0..<n]"

text \<open>Where the cell area ends: before the trailer, and at most at the last \<open>u16\<close> offset but eight.\<close>

definition page_limit :: "nat \<Rightarrow> nat" where
  "page_limit len = min len 65535 - 8"

definition slot_ok :: "bytes \<Rightarrow> nat \<times> bytes \<Rightarrow> bool" where
  "slot_ok buf = (\<lambda>(p, c). content_pos buf \<le> p \<and> p + length c \<le> page_limit (length buf) \<and> slice buf p (length c) = c)"

definition slots_apart :: "nat \<times> bytes \<Rightarrow> nat \<times> bytes \<Rightarrow> bool" where
  "slots_apart = (\<lambda>(p, c) (q, d). p + length c \<le> q \<or> q + length d \<le> p)"

definition page_slots :: "nat \<Rightarrow> bytes \<Rightarrow> bytes list \<Rightarrow> (nat \<times> bytes) list" where
  "page_slots h buf cells = zip (pointers h (length cells) buf) cells"

definition page_cells :: "nat \<Rightarrow> bytes \<Rightarrow> bytes list \<Rightarrow> bool" where
  "page_cells h buf cells \<longleftrightarrow> 5 \<le> h \<and> cell_count buf = length cells \<and>
     h + 2 * length cells \<le> content_pos buf \<and> content_pos buf \<le> page_limit (length buf) \<and>
     list_all (slot_ok buf) (page_slots h buf cells) \<and> sorted_wrt slots_apart (page_slots h buf cells)"

lemma u16_at_slice: "slice b i 2 = slice c j 2 \<Longrightarrow> u16_at b i = u16_at c j"
  by (simp add: u16_at_def)

lemma unat_word_back: "word_of_nat (unat (w :: 'a::len word)) = w"
  by simp

lemma length_pointers [simp]: "length (pointers h n buf) = n"
  by (simp add: pointers_def)

lemma nth_pointers: "i < n \<Longrightarrow> pointers h n buf ! i = unat (u16_at buf (h + i * 2))"
  by (simp add: pointers_def)

lemma page_limit_bound: "page_limit n + 8 \<le> n \<or> page_limit n = 0" "page_limit n \<le> 65527"
  by (auto simp: page_limit_def)

lemma page_cells_bounds:
  assumes "page_cells h buf cells"
  shows "content_pos buf \<le> page_limit (length buf)" "h + 2 * length cells \<le> content_pos buf"
    "page_limit (length buf) + 8 \<le> length buf" "5 \<le> h" "cell_count buf = length cells"
  using assms page_limit_bound(1) [of "length buf"] by (auto simp: page_cells_def)

lemma page_cells_slot:
  assumes "page_cells h buf cells" "i < length cells"
  shows "content_pos buf \<le> unat (u16_at buf (h + i * 2))"
    "unat (u16_at buf (h + i * 2)) + length (cells ! i) \<le> page_limit (length buf)"
    "slice buf (unat (u16_at buf (h + i * 2))) (length (cells ! i)) = cells ! i"
proof -
  have "page_slots h buf cells ! i \<in> set (page_slots h buf cells)"
    using assms(2) by (intro nth_mem) (simp add: page_slots_def)
  then have "slot_ok buf (unat (u16_at buf (h + i * 2)), cells ! i)"
    using assms by (auto simp: page_cells_def list_all_iff page_slots_def nth_pointers)
  then show "content_pos buf \<le> unat (u16_at buf (h + i * 2))"
    "unat (u16_at buf (h + i * 2)) + length (cells ! i) \<le> page_limit (length buf)"
    "slice buf (unat (u16_at buf (h + i * 2))) (length (cells ! i)) = cells ! i"
    by (simp_all add: slot_ok_def)
qed

lemma page_cells_apart:
  assumes "page_cells h buf cells" "i < length cells" "j < length cells" "i \<noteq> j"
  shows "unat (u16_at buf (h + i * 2)) + length (cells ! i) \<le> unat (u16_at buf (h + j * 2)) \<or>
    unat (u16_at buf (h + j * 2)) + length (cells ! j) \<le> unat (u16_at buf (h + i * 2))"
proof -
  have *: "slots_apart (page_slots h buf cells ! a) (page_slots h buf cells ! b)" if "a < b" "b < length cells" for a b
    by (rule sorted_wrt_nth_less) (use assms(1) that in \<open>simp_all add: page_cells_def page_slots_def\<close>)
  show ?thesis
    using assms(2-4) * [of i j] * [of j i]
    by (cases "i < j") (auto simp: page_slots_def nth_pointers slots_apart_def)
qed

lemma page_cells_num_cells:
  "page_cells h buf cells \<Longrightarrow> num_cells buf = Inr (word_of_nat (length cells)) \<and> length cells < 65536"
proof -
  assume pc: "page_cells h buf cells"
  note B = page_cells_bounds [OF pc]
  then have "unat (u16_at buf 1) = length cells" by (simp add: cell_count_def)
  then have "u16_at buf 1 = word_of_nat (length cells)" by (metis unat_word_back)
  moreover have "length cells < 65536" using B page_limit_bound(2) [of "length buf"] by simp
  ultimately show ?thesis using B by (simp add: num_cells_def read_oks)
qed

lemma page_cells_pointer:
  assumes "page_cells h buf cells" "i < length cells"
  shows "pointer_at buf h i = Inr (u16_at buf (h + i * 2))"
  using page_cells_bounds [OF assms(1)] assms(2) by (simp add: pointer_at_def layout_consts read_oks)

text \<open>Two buffers that agree on their bodies carry the same cells.\<close>

lemma slice_page_body: "i + n + 8 \<le> length buf \<Longrightarrow> slice (page_body buf) i n = slice buf i n"
  by (simp add: page_body_def slice_take)

lemma page_body_slice_cong:
  assumes "page_body buf = page_body buf'" "length buf = length buf'" "i + n + 8 \<le> length buf"
  shows "slice buf i n = slice buf' i n"
  using assms slice_page_body [of i n buf] slice_page_body [of i n buf'] by simp

lemma page_cells_cong:
  assumes "page_body buf = page_body buf'" "length buf = length buf'" "page_cells h buf cells"
  shows "page_cells h buf' cells"
proof -
  note B = page_cells_bounds [OF assms(3)]
  have u16: "u16_at buf i = u16_at buf' i" if "i + 10 \<le> length buf" for i
    using page_body_slice_cong [OF assms(1,2), of i 2] that by (simp add: u16_at_def)
  have cnt: "cell_count buf' = cell_count buf" "content_pos buf' = content_pos buf"
    using u16 [of 1] u16 [of 3] B by (simp_all add: cell_count_def content_pos_def)
  have "pointers h (length cells) buf' = pointers h (length cells) buf"
    using u16 B by (auto simp: pointers_def)
  then have slots: "page_slots h buf' cells = page_slots h buf cells" by (simp add: page_slots_def)
  have "slot_ok buf' pc" if "slot_ok buf pc" for pc
    using that cnt B(3) page_body_slice_cong [OF assms(1,2), of "fst pc" "length (snd pc)"] assms(2)
    by (auto simp: slot_ok_def split: prod.splits)
  then have "list_all (slot_ok buf') (page_slots h buf cells)"
    using assms(3) by (auto simp: page_cells_def list_all_iff)
  then show ?thesis using assms(3) by (simp add: page_cells_def cnt slots flip: assms(2))
qed

section \<open>Shifting the pointer array\<close>

lemma set_pointer_ok:
  assumes "h + i * 2 + 2 \<le> length buf"
  shows "set_pointer_at buf h i p = Inr (put_at buf (h + i * 2) (to_be_bytes 2 p))"
  using assms by (simp add: set_pointer_at_def layout_consts write_oks)

lemma pointer_ok: "h + i * 2 + 2 \<le> length buf \<Longrightarrow> pointer_at buf h i = Inr (u16_at buf (h + i * 2))"
  by (simp add: pointer_at_def layout_consts read_oks)

lemma shift_right:
  assumes "index \<le> n" "h + 2 * (n + 1) \<le> length buf"
  shows "\<exists>buf'. shift_pointers_right h (rev [index..<n]) buf = Inr buf' \<and> length buf' = length buf \<and>
    (\<forall>at m. at + m \<le> h + 2 * (index + 1) \<or> h + 2 * (n + 1) \<le> at \<longrightarrow> slice buf' at m = slice buf at m) \<and>
    (\<forall>i. index \<le> i \<and> i < n \<longrightarrow> u16_at buf' (h + (i + 1) * 2) = u16_at buf (h + i * 2))"
  using assms
proof (induction n arbitrary: buf)
  case 0
  then show ?case by simp
next
  case (Suc n)
  show ?case
  proof (cases "index = Suc n")
    case True
    then show ?thesis by auto
  next
    case False
    then have idx: "index \<le> n" using Suc.prems(1) by simp
    let ?b = "put_at buf (h + (n + 1) * 2) (to_be_bytes 2 (u16_at buf (h + n * 2)))"
    have step: "shift_pointers_right h (rev [index..<Suc n]) buf = shift_pointers_right h (rev [index..<n]) ?b"
      using idx Suc.prems(2) by (simp add: pointer_ok set_pointer_ok [of h "Suc n"])
    have len: "length ?b = length buf" using Suc.prems(2) by simp
    then obtain buf' where IH: "shift_pointers_right h (rev [index..<n]) ?b = Inr buf'" "length buf' = length ?b"
      "\<And>at m. at + m \<le> h + 2 * (index + 1) \<or> h + 2 * (n + 1) \<le> at \<Longrightarrow> slice buf' at m = slice ?b at m"
      "\<And>i. index \<le> i \<Longrightarrow> i < n \<Longrightarrow> u16_at buf' (h + (i + 1) * 2) = u16_at ?b (h + i * 2)"
      using Suc.IH [of ?b] idx Suc.prems(2) by auto
    have outside: "slice ?b at m = slice buf at m" if "at + m \<le> h + (n + 1) * 2 \<or> h + (n + 1) * 2 + 2 \<le> at" for at m
      using that Suc.prems(2) by (auto simp: slice_simps)
    have "u16_at buf' (h + (i + 1) * 2) = u16_at buf (h + i * 2)" if i: "index \<le> i" "i < Suc n" for i
    proof (cases "i = n")
      case True
      have "slice buf' (h + (n + 1) * 2) 2 = slice ?b (h + (n + 1) * 2) 2" by (rule IH(3)) simp
      then have "u16_at buf' (h + (n + 1) * 2) = u16_at ?b (h + (n + 1) * 2)" by (rule u16_at_slice)
      with True Suc.prems(2) show ?thesis by (simp add: field_at_put_same)
    next
      case False
      then have "u16_at buf' (h + (i + 1) * 2) = u16_at ?b (h + i * 2)" using IH(4) i by simp
      moreover have "slice ?b (h + i * 2) 2 = slice buf (h + i * 2) 2" using False i by (intro outside) simp
      ultimately show ?thesis by (simp add: u16_at_def)
    qed
    moreover have "slice buf' at m = slice buf at m" if "at + m \<le> h + 2 * (index + 1) \<or> h + 2 * (Suc n + 1) \<le> at" for at m
      using that IH(3) [of at m] outside [of at m] idx by auto
    ultimately show ?thesis using step IH(1,2) len by (intro exI [of _ buf']) simp
  qed
qed

lemma shift_left:
  assumes "index \<le> m" "h + 2 * (m + 1) \<le> length buf"
  shows "\<exists>buf'. shift_pointers_left h [index..<m] buf = Inr buf' \<and> length buf' = length buf \<and>
    (\<forall>at k. at + k \<le> h + 2 * index \<or> h + 2 * m \<le> at \<longrightarrow> slice buf' at k = slice buf at k) \<and>
    (\<forall>i. index \<le> i \<and> i < m \<longrightarrow> u16_at buf' (h + i * 2) = u16_at buf (h + (i + 1) * 2))"
  using assms
proof (induction "m - index" arbitrary: index buf)
  case 0
  then show ?case by auto
next
  case (Suc d)
  then have idx: "index < m" and d: "d = m - Suc index" by simp_all
  let ?b = "put_at buf (h + index * 2) (to_be_bytes 2 (u16_at buf (h + (index + 1) * 2)))"
  have step: "shift_pointers_left h [index..<m] buf = shift_pointers_left h [Suc index..<m] ?b"
    using idx Suc.prems(2) by (simp add: upt_conv_Cons pointer_ok [of h "Suc index"] set_pointer_ok)
  have len: "length ?b = length buf" using Suc.prems(2) idx by simp
  then obtain buf' where IH: "shift_pointers_left h [Suc index..<m] ?b = Inr buf'" "length buf' = length ?b"
    "\<And>at k. at + k \<le> h + 2 * Suc index \<or> h + 2 * m \<le> at \<Longrightarrow> slice buf' at k = slice ?b at k"
    "\<And>i. Suc index \<le> i \<Longrightarrow> i < m \<Longrightarrow> u16_at buf' (h + i * 2) = u16_at ?b (h + (i + 1) * 2)"
    using Suc.hyps(1) [OF d, of ?b] idx Suc.prems(2) by auto
  have outside: "slice ?b at k = slice buf at k" if "at + k \<le> h + index * 2 \<or> h + index * 2 + 2 \<le> at" for at k
    using that Suc.prems(2) idx by (auto simp: slice_simps)
  have "u16_at buf' (h + i * 2) = u16_at buf (h + (i + 1) * 2)" if i: "index \<le> i" "i < m" for i
  proof (cases "i = index")
    case True
    have "slice buf' (h + index * 2) 2 = slice ?b (h + index * 2) 2" by (rule IH(3)) simp
    then have "u16_at buf' (h + index * 2) = u16_at ?b (h + index * 2)" by (rule u16_at_slice)
    with True Suc.prems(2) idx show ?thesis by (simp add: field_at_put_same)
  next
    case False
    then have "u16_at buf' (h + i * 2) = u16_at ?b (h + (i + 1) * 2)" using IH(4) i by simp
    moreover have "slice ?b (h + (i + 1) * 2) 2 = slice buf (h + (i + 1) * 2) 2" using False i by (intro outside) simp
    ultimately show ?thesis by (simp add: u16_at_def)
  qed
  moreover have "slice buf' at k = slice buf at k" if "at + k \<le> h + 2 * index \<or> h + 2 * m \<le> at" for at k
    using that IH(3) [of at k] outside [of at k] idx by auto
  ultimately show ?case using step IH(1,2) len by (intro exI [of _ buf']) simp
qed

section \<open>Inserting and removing a cell\<close>

lemma u16_from_small: "n < 65536 \<Longrightarrow> unat (u16_from n d) = n"
  by (simp add: u16_from_def unat_of_nat)

lemma insert_cell_at_result:
  assumes "page_cells h buf cells" "index \<le> length cells" "h + 2 * (length cells + 1) + length cell \<le> content_pos buf"
  obtains buf' where "insert_cell_at buf h index cell = Inr buf'" "length buf' = length buf"
    "cell_count buf' = length cells + 1" "content_pos buf' = content_pos buf - length cell"
    "pointers h (length cells + 1) buf' = take index (pointers h (length cells) buf) @
       (content_pos buf - length cell) # drop index (pointers h (length cells) buf)"
    "slice buf' (content_pos buf - length cell) (length cell) = cell"
    "\<And>at m. content_pos buf \<le> at \<Longrightarrow> slice buf' at m = slice buf at m"
    "\<And>at m. at + m \<le> 1 \<or> 5 \<le> at \<and> at + m \<le> h \<Longrightarrow> slice buf' at m = slice buf at m"
proof -
  let ?n = "length cells" and ?cs = "content_pos buf"
  note B = page_cells_bounds [OF assms(1)]
  have small: "?cs < 65536" "length cell < 65536" "?n + 1 < 65536" "?cs + 8 \<le> length buf"
    using B assms(3) page_limit_bound(2) [of "length buf"] by auto
  define new_cs where "new_cs = u16_at buf 3 - u16_from (length cell) (- 1)"
  have "u16_from (length cell) (- 1) \<le> u16_at buf 3"
    using small assms(3) by (simp add: word_le_nat_alt u16_from_small content_pos_def)
  then have ncs: "unat new_cs = ?cs - length cell"
    using small by (simp add: new_cs_def unat_sub u16_from_small content_pos_def)
  have num: "num_cells buf = Inr (word_of_nat ?n)" "unat (word_of_nat ?n :: u16) = ?n"
    using page_cells_num_cells [OF assms(1)] small by (simp_all add: unat_of_nat)
  define b1 where "b1 = put_at buf (?cs - length cell) cell"
  have b1: "write_bytes buf (unat new_cs) cell = Inr b1" "length b1 = length buf"
    using ncs assms(3) small by (simp_all add: b1_def write_bytes_ok)
  from shift_right [of index ?n h b1] obtain b2 where b2:
    "shift_pointers_right h (rev [index..<?n]) b1 = Inr b2" "length b2 = length b1"
    "\<And>at m. at + m \<le> h + 2 * (index + 1) \<or> h + 2 * (?n + 1) \<le> at \<Longrightarrow> slice b2 at m = slice b1 at m"
    "\<And>i. index \<le> i \<Longrightarrow> i < ?n \<Longrightarrow> u16_at b2 (h + (i + 1) * 2) = u16_at b1 (h + i * 2)"
    using assms(2,3) small b1(2) by auto
  define b3 where "b3 = put_at b2 (h + index * 2) (to_be_bytes 2 new_cs)"
  define b4 where "b4 = put_at b3 1 (to_be_bytes 2 (u16_from (?n + 1) (- 1)))"
  define b5 where "b5 = put_at b4 3 (to_be_bytes 2 new_cs)"
  have lb: "length b3 = length buf" "length b4 = length buf" "length b5 = length buf"
    using b1 b2 small assms(2,3) B(4) by (simp_all add: b3_def b4_def b5_def)
  have run: "insert_cell_at buf h index cell = Inr b5"
    using num b1 b2 small assms(2,3) B(4) lb ncs
    by (simp add: insert_cell_at_def content_start_def read_oks Let_def new_cs_def [symmetric]
        set_pointer_ok b3_def [symmetric] set_num_cells_def set_content_start_def write_oks b4_def b5_def)
  have f5: "slice b5 at m = slice b3 at m" if "at + m \<le> 1 \<or> 5 \<le> at" for at m
    using that small lb by (auto simp: b5_def b4_def slice_simps)
  have f3: "slice b3 at m = slice b2 at m" if "at + m \<le> h + index * 2 \<or> h + index * 2 + 2 \<le> at" for at m
    using that small assms(2,3) b1 b2 by (auto simp: b3_def slice_simps)
  have f1: "slice b1 at m = slice buf at m" if "at + m \<le> ?cs - length cell \<or> ?cs \<le> at" for at m
    using that small assms(3) by (auto simp: b1_def slice_simps)
  have cnt: "cell_count b5 = ?n + 1" "content_pos b5 = ?cs - length cell"
    using lb small ncs
    by (simp_all add: cell_count_def content_pos_def b5_def b4_def field_at_put_same field_at_put_other u16_from_small)
  have ptr: "u16_at b5 (h + i * 2) = (if i < index then u16_at buf (h + i * 2)
      else if i = index then new_cs else u16_at buf (h + (i - 1) * 2))" if "i < ?n + 1" for i
  proof -
    have s5: "u16_at b5 (h + i * 2) = u16_at b3 (h + i * 2)" using f5 [of "h + i * 2" 2] B(4) by (simp add: u16_at_def)
    have sb: "u16_at b1 (h + j * 2) = u16_at buf (h + j * 2)" if "j < ?n" for j
      using f1 [of "h + j * 2" 2] that assms(3) by (simp add: u16_at_def)
    consider "i < index" | "i = index" | "index < i" by linarith
    then show ?thesis
    proof cases
      case 1
      then have "u16_at b3 (h + i * 2) = u16_at b1 (h + i * 2)"
        using f3 [of "h + i * 2" 2] b2(3) [of "h + i * 2" 2] by (simp add: u16_at_def)
      with 1 s5 sb [of i] assms(2) show ?thesis by simp
    next
      case 2
      then show ?thesis using s5 b1 b2 small assms(2,3) by (simp add: b3_def field_at_put_same)
    next
      case 3
      then have "u16_at b3 (h + i * 2) = u16_at b2 (h + i * 2)" using f3 [of "h + i * 2" 2] by (simp add: u16_at_def)
      also have "\<dots> = u16_at b1 (h + (i - 1) * 2)" using b2(4) [of "i - 1"] 3 that by simp
      finally show ?thesis using 3 s5 sb [of "i - 1"] that by simp
    qed
  qed
  have "pointers h (?n + 1) b5 = take index (pointers h ?n buf) @ (?cs - length cell) # drop index (pointers h ?n buf)"
    by (rule nth_equalityI) (use assms(2) ptr ncs in \<open>auto simp: nth_pointers nth_append nth_Cons' min_def\<close>)
  moreover have "slice b5 (?cs - length cell) (length cell) = cell"
  proof -
    have "h + 2 * (?n + 1) \<le> ?cs - length cell" using assms(3) by simp
    then have "slice b5 (?cs - length cell) (length cell) = slice b1 (?cs - length cell) (length cell)"
      using f5 [of "?cs - length cell" "length cell"] f3 [of "?cs - length cell" "length cell"] assms(2) B(4)
        b2(3) [of "?cs - length cell" "length cell"] by simp
    also have "\<dots> = cell" unfolding b1_def using small assms(3) by (intro slice_put_at_same) simp
    finally show ?thesis .
  qed
  moreover have "slice b5 at m = slice buf at m" if "?cs \<le> at" for at m
    using that f5 [of at m] f3 [of at m] b2(3) [of at m] f1 [of at m] assms(2,3) B(4) by simp
  moreover have "slice b5 at m = slice buf at m" if "at + m \<le> 1 \<or> 5 \<le> at \<and> at + m \<le> h" for at m
    using that f5 [of at m] f3 [of at m] b2(3) [of at m] f1 [of at m] assms(3) B(4) by auto
  ultimately show thesis using that run lb(3) cnt by blast
qed

lemma sorted_wrt_insert_sym:
  assumes "sorted_wrt P xs" "\<And>x y. P x y = P y x" "\<And>x. x \<in> set xs \<Longrightarrow> P x a"
  shows "sorted_wrt P (take i xs @ a # drop i xs)"
proof -
  have "sorted_wrt P (take i xs @ drop i xs)" using assms(1) by simp
  then show ?thesis
    using assms(2,3) by (auto simp: sorted_wrt_append dest: in_set_takeD in_set_dropD simp del: append_take_drop_id)
qed

lemma sorted_wrt_del: "sorted_wrt P xs \<Longrightarrow> sorted_wrt P (take i xs @ drop (Suc i) xs)"
proof -
  assume "sorted_wrt P xs"
  then have "sorted_wrt P (take i xs @ drop i xs)" by simp
  moreover have "set (drop (Suc i) xs) \<subseteq> set (drop i xs)" by (rule set_drop_subset_set_drop) simp
  moreover have "sorted_wrt P (drop (Suc i) xs)" using \<open>sorted_wrt P xs\<close> by (rule sorted_wrt_drop)
  ultimately show ?thesis by (auto simp: sorted_wrt_append simp del: append_take_drop_id)
qed

lemma slots_apart_sym: "slots_apart x y = slots_apart y x"
  by (auto simp: slots_apart_def split: prod.splits)

text \<open>Inserting a cell that fits is list insertion; the header fields stay.\<close>

lemma page_cells_insert:
  assumes "page_cells h buf cells" "index \<le> length cells" "h + 2 * (length cells + 1) + length cell \<le> content_pos buf"
  obtains buf' where "insert_cell_at buf h index cell = Inr buf'" "length buf' = length buf"
    "page_cells h buf' (take index cells @ cell # drop index cells)"
    "content_pos buf' = content_pos buf - length cell"
    "\<And>at m. at + m \<le> 1 \<or> 5 \<le> at \<and> at + m \<le> h \<Longrightarrow> slice buf' at m = slice buf at m"
proof -
  let ?cs = "content_pos buf" and ?cells = "take index cells @ cell # drop index cells"
  note B = page_cells_bounds [OF assms(1)]
  from insert_cell_at_result [OF assms] obtain buf' where I: "insert_cell_at buf h index cell = Inr buf'"
    "length buf' = length buf" "cell_count buf' = length cells + 1" "content_pos buf' = ?cs - length cell"
    "pointers h (length cells + 1) buf' = take index (pointers h (length cells) buf) @
       (?cs - length cell) # drop index (pointers h (length cells) buf)"
    "slice buf' (?cs - length cell) (length cell) = cell"
    "\<And>at m. ?cs \<le> at \<Longrightarrow> slice buf' at m = slice buf at m"
    "\<And>at m. at + m \<le> 1 \<or> 5 \<le> at \<and> at + m \<le> h \<Longrightarrow> slice buf' at m = slice buf at m"
    by blast
  have len: "length ?cells = length cells + 1" using assms(2) by simp
  let ?slots = "page_slots h buf cells"
  have slots: "page_slots h buf' ?cells = take index ?slots @ (?cs - length cell, cell) # drop index ?slots"
    unfolding page_slots_def len I(5) using assms(2) by (simp add: take_zip drop_zip)
  have old: "slot_ok buf' pc \<and> slots_apart pc (?cs - length cell, cell)" if "pc \<in> set ?slots" for pc
  proof -
    obtain q c where pc: "pc = (q, c)" by fastforce
    have "slot_ok buf (q, c)" using that assms(1) by (auto simp: page_cells_def list_all_iff pc)
    then have q: "?cs \<le> q" "q + length c \<le> page_limit (length buf)" "slice buf q (length c) = c"
      by (simp_all add: slot_ok_def)
    then have "slice buf' q (length c) = c" using I(7) by simp
    with q assms(3) I(2,4) show ?thesis by (simp add: pc slot_ok_def slots_apart_def)
  qed
  have "slot_ok buf' (?cs - length cell, cell)"
    using assms(3) B(1) I(2,4,6) by (simp add: slot_ok_def)
  then have "list_all (slot_ok buf') (page_slots h buf' ?cells)"
    using old by (auto simp: slots list_all_iff dest: in_set_takeD in_set_dropD)
  moreover have "sorted_wrt slots_apart (page_slots h buf' ?cells)"
    unfolding slots using assms(1) old slots_apart_sym
    by (intro sorted_wrt_insert_sym) (auto simp: page_cells_def)
  moreover have "h + 2 * (length cells + 1) \<le> ?cs - length cell" "?cs - length cell \<le> page_limit (length buf)"
    using assms(3) B(1) by arith+
  ultimately have "page_cells h buf' ?cells"
    using B(4) I(2-4) len by (simp add: page_cells_def)
  with I that show thesis by blast
qed

text \<open>Removing a cell is list deletion; it reclaims no content space.\<close>

lemma page_cells_remove:
  assumes "page_cells h buf cells" "index < length cells"
  obtains buf' where "remove_cell_at buf h index = Inr (u16_at buf (h + index * 2), buf')" "length buf' = length buf"
    "page_cells h buf' (take index cells @ drop (Suc index) cells)" "content_pos buf' = content_pos buf"
    "\<And>at m. at + m \<le> 1 \<or> 5 \<le> at \<and> at + m \<le> h \<Longrightarrow> slice buf' at m = slice buf at m"
proof -
  let ?n = "length cells" and ?cells = "take index cells @ drop (Suc index) cells"
  note B = page_cells_bounds [OF assms(1)]
  have num: "num_cells buf = Inr (word_of_nat ?n)" "unat (word_of_nat ?n :: u16) = ?n" "?n < 65536"
    using page_cells_num_cells [OF assms(1)] by (simp_all add: unat_of_nat)
  have "index \<le> ?n - 1" "h + 2 * (?n - 1 + 1) \<le> length buf" using assms(2) B by auto
  from shift_left [OF this] obtain b1 where b1:
    "shift_pointers_left h [index..<?n - 1] buf = Inr b1" "length b1 = length buf"
    "\<And>at k. at + k \<le> h + 2 * index \<or> h + 2 * (?n - 1) \<le> at \<Longrightarrow> slice b1 at k = slice buf at k"
    "\<And>i. index \<le> i \<Longrightarrow> i < ?n - 1 \<Longrightarrow> u16_at b1 (h + i * 2) = u16_at buf (h + (i + 1) * 2)"
    by auto
  define b2 where "b2 = put_at b1 1 (to_be_bytes 2 (u16_from (?n - 1) 0))"
  have lb: "length b2 = length buf" using b1(2) B by (simp add: b2_def)
  have run: "remove_cell_at buf h index = Inr (u16_at buf (h + index * 2), b2)"
    using num b1 B assms(2) page_cells_pointer [OF assms]
    by (simp add: remove_cell_at_def Let_def set_num_cells_def write_oks b2_def)
  have f2: "slice b2 at m = slice b1 at m" if "at + m \<le> 1 \<or> 3 \<le> at" for at m
    using that b1(2) B by (auto simp: b2_def slice_simps)
  have cnt: "cell_count b2 = ?n - 1" "content_pos b2 = content_pos buf"
  proof -
    show "cell_count b2 = ?n - 1" using b1(2) B num(3) by (simp add: cell_count_def b2_def field_at_put_same u16_from_small)
    show "content_pos b2 = content_pos buf"
      using f2 [of 3 2] b1(3) [of 3 2] B(4) by (simp add: content_pos_def u16_at_def)
  qed
  have ptr: "u16_at b2 (h + i * 2) = u16_at buf (h + (if i < index then i else i + 1) * 2)" if "i < ?n - 1" for i
    using f2 [of "h + i * 2" 2] b1(3) [of "h + i * 2" 2] b1(4) [of i] that B(4) by (auto simp: u16_at_def)
  let ?slots = "page_slots h buf cells"
  have len: "length ?cells = ?n - 1" using assms(2) by simp
  have "pointers h (?n - 1) b2 = take index (pointers h ?n buf) @ drop (Suc index) (pointers h ?n buf)"
    by (rule nth_equalityI) (use assms(2) ptr in \<open>auto simp: nth_pointers nth_append min_def\<close>)
  then have slots: "page_slots h b2 ?cells = take index ?slots @ drop (Suc index) ?slots"
    unfolding page_slots_def len using assms(2) by (simp add: take_zip drop_zip)
  have "slot_ok b2 pc" if "pc \<in> set ?slots" for pc
  proof -
    obtain q c where pc: "pc = (q, c)" by fastforce
    have ok: "slot_ok buf (q, c)" using that assms(1) by (auto simp: page_cells_def list_all_iff pc)
    then have "content_pos buf \<le> q" by (simp add: slot_ok_def)
    then have "h + 2 * (?n - 1) \<le> q" "3 \<le> q" using B(2,4) by linarith+
    then have "slice b2 q (length c) = slice buf q (length c)"
      using f2 [of q "length c"] b1(3) [of q "length c"] by simp
    with ok show ?thesis by (simp add: slot_ok_def pc cnt lb)
  qed
  then have "list_all (slot_ok b2) (page_slots h b2 ?cells)"
    by (auto simp: slots list_all_iff dest: in_set_takeD in_set_dropD)
  moreover have "sorted_wrt slots_apart (page_slots h b2 ?cells)"
    unfolding slots using assms(1) by (intro sorted_wrt_del) (simp add: page_cells_def)
  ultimately have "page_cells h b2 ?cells" using B cnt lb len by (simp add: page_cells_def)
  moreover have "slice b2 at m = slice buf at m" if "at + m \<le> 1 \<or> 5 \<le> at \<and> at + m \<le> h" for at m
    using that f2 [of at m] b1(3) [of at m] B(4) by auto
  ultimately show thesis using that run lb cnt(2) by blast
qed

section \<open>Empty pages and free space\<close>

lemma init_slotted_cells:
  assumes "8 + h \<le> length buf" "5 \<le> h" "h \<le> 9" "length buf \<le> 65536"
  obtains buf' where "init_slotted buf ty = Inr buf'" "length buf' = length buf" "page_cells h buf' []"
    "u8_at buf' 0 = ty" "content_pos buf' = page_limit (length buf)"
    "\<And>at m. 5 \<le> at \<Longrightarrow> slice buf' at m = slice buf at m"
proof -
  let ?us = "u16_from (length buf) (- 1) - 8"
  have us: "unat ?us = page_limit (length buf)"
  proof (cases "length buf < 65536")
    case True
    have "(8 :: u16) \<le> u16_from (length buf) (- 1)" using assms(1) True by (simp add: word_le_nat_alt u16_from_small)
    then show ?thesis using True by (simp add: unat_sub u16_from_small page_limit_def)
  next
    case False
    then have "length buf = 65536" using assms(4) by simp
    then show ?thesis by (simp add: u16_from_def page_limit_def)
  qed
  define b1 where "b1 = put_at buf 0 [ty]"
  define b2 where "b2 = put_at b1 1 (to_be_bytes 2 (0 :: u16))"
  define b3 where "b3 = put_at b2 3 (to_be_bytes 2 ?us)"
  have lb: "length b1 = length buf" "length b2 = length buf" "length b3 = length buf"
    using assms(1,2) by (simp_all add: b1_def b2_def b3_def)
  have run: "init_slotted buf ty = Inr b3"
    using assms(1,2) lb by (simp add: init_slotted_def Let_def write_oks page_consts b1_def b2_def b3_def)
  have cnt: "cell_count b3 = 0" "content_pos b3 = page_limit (length buf)" "u8_at b3 0 = ty"
    using lb assms(1,2) us
    by (simp_all add: cell_count_def content_pos_def b3_def field_at_put_same field_at_put_other,
        simp_all add: b2_def b1_def field_at_put_same field_at_put_other)
  have "h \<le> page_limit (length buf)" using assms by (simp add: page_limit_def)
  then have "page_cells h b3 []" using assms(2) cnt lb by (simp add: page_cells_def page_slots_def)
  moreover have "slice b3 at m = slice buf at m" if "5 \<le> at" for at m
    using that assms(1,2) lb by (simp add: b3_def b2_def b1_def slice_simps)
  ultimately show thesis using that run lb cnt by blast
qed

lemma free_space_cells:
  assumes "page_cells h buf cells"
  shows "\<exists>fs. free_space buf h = Inr fs \<and> unat fs = content_pos buf - (h + 2 * length cells)"
proof -
  note B = page_cells_bounds [OF assms]
  have small: "content_pos buf \<le> 65527" using B(1) page_limit_bound(2) [of "length buf"] by simp
  let ?n = "word_of_nat (length cells) :: u16"
  have num: "num_cells buf = Inr ?n" "unat ?n = length cells"
    using page_cells_num_cells [OF assms] by (simp_all add: unat_of_nat)
  have "unat (?n * 2) = length cells * 2" using num(2) small B(2) by (simp add: unat_word_ariths)
  then have used: "unat (u16_from h (- 1) + ?n * 2) = h + 2 * length cells"
    using small B(2) by (simp add: unat_word_ariths u16_from_small)
  have "unat (saturating_sub (u16_at buf 3) (u16_from h (- 1) + ?n * 2)) = content_pos buf - (h + 2 * length cells)"
    using B(2) used by (simp add: saturating_sub_def word_le_nat_alt content_pos_def unat_sub)
  moreover have "u16_from POINTER_LEN 2 = 2" by (simp add: u16_from_def layout_consts)
  moreover have "content_start buf = Inr (u16_at buf 3)" using B by (simp add: content_start_def read_oks)
  ultimately show ?thesis using num by (simp add: free_space_def Let_def)
qed

section \<open>Reading cells\<close>

lemma page_cells_field:
  assumes "page_cells h buf cells" "i < length cells" "off + m \<le> length (cells ! i)"
  shows "slice buf (unat (u16_at buf (h + i * 2)) + off) m = slice (cells ! i) off m"
    "unat (u16_at buf (h + i * 2)) + off + m \<le> length buf"
proof -
  note S = page_cells_slot [OF assms(1,2)] and B = page_cells_bounds [OF assms(1)]
  show "slice buf (unat (u16_at buf (h + i * 2)) + off) m = slice (cells ! i) off m"
    using slice_slice [OF assms(3), of buf "unat (u16_at buf (h + i * 2))"] by (simp add: S(3))
  show "unat (u16_at buf (h + i * 2)) + off + m \<le> length buf" using S(2) B(3) assms(3) by linarith
qed

definition cell_key :: "bytes \<Rightarrow> i64" where "cell_key c = u64_at c 0"
definition cell_payload_len :: "bytes \<Rightarrow> u32" where "cell_payload_len c = u32_at c 8"
definition cell_overflow :: "bytes \<Rightarrow> u32" where "cell_overflow c = u32_at c 12"
definition cell_child :: "bytes \<Rightarrow> u32" where "cell_child c = u32_at c 8"

text \<open>A leaf cell that is as long as its payload length says.\<close>

definition leaf_cell_wf :: "u32 \<Rightarrow> bytes \<Rightarrow> bool" where
  "leaf_cell_wf ml c \<longleftrightarrow> length c = 16 + unat (leaf_local_len (cell_payload_len c) ml)"

definition parse_leaf_cell :: "bytes \<Rightarrow> leaf_cell" where
  "parse_leaf_cell c = \<lparr>lc_key = cell_key c, lc_payload_len = cell_payload_len c,
     lc_overflow_first = cell_overflow c, lc_local = drop 16 c\<rparr>"

lemma leaf_key_at_cells:
  assumes "page_cells 5 buf cells" "i < length cells" "8 \<le> length (cells ! i)"
  shows "leaf_key_at buf i = Inr (cell_key (cells ! i))"
  using page_cells_pointer [OF assms(1,2)] page_cells_field [OF assms(1,2), of 0 8] assms(3)
  by (simp add: leaf_key_at_def layout_consts read_oks cell_key_def u64_at_def)

lemma leaf_cell_at_cells:
  assumes "page_cells 5 buf cells" "i < length cells" "leaf_cell_wf ml (cells ! i)"
  shows "leaf_cell_at buf i ml = Inr (parse_leaf_cell (cells ! i))"
proof -
  let ?p = "unat (u16_at buf (5 + i * 2))" and ?c = "cells ! i"
  have len: "length ?c = 16 + unat (leaf_local_len (cell_payload_len ?c) ml)" using assms(3) by (simp add: leaf_cell_wf_def)
  note F = page_cells_field [OF assms(1,2)]
  have f: "u64_at buf ?p = cell_key ?c" "u32_at buf (?p + 8) = cell_payload_len ?c"
    "u32_at buf (?p + 12) = cell_overflow ?c"
    using F(1) [of 0 8] F(1) [of 8 4] F(1) [of 12 4] len
    by (simp_all add: cell_key_def cell_payload_len_def cell_overflow_def field_at_defs)
  have b: "?p + 8 \<le> length buf" "?p + 8 + 4 \<le> length buf" "?p + 12 + 4 \<le> length buf"
    using F(2) [of 0 8] F(2) [of 8 4] F(2) [of 12 4] len by simp_all
  have "read_vec buf (?p + 16) (unat (leaf_local_len (cell_payload_len ?c) ml)) = Inr (drop 16 ?c)"
    using F [of 16 "unat (leaf_local_len (cell_payload_len ?c) ml)"] len by (simp add: read_vec_ok slice_def)
  with f b page_cells_pointer [OF assms(1,2)] show ?thesis
    by (simp add: leaf_cell_at_def layout_consts Let_def read_oks parse_leaf_cell_def)
qed

lemma leaf_cell_byte_len_cells:
  assumes "page_cells 5 buf cells" "i < length cells" "leaf_cell_wf ml (cells ! i)"
  shows "\<exists>len. leaf_cell_byte_len buf i ml = Inr len \<and> unat len = length (cells ! i)"
proof -
  let ?p = "unat (u16_at buf (5 + i * 2))" and ?c = "cells ! i"
  let ?l = "unat (leaf_local_len (cell_payload_len ?c) ml)"
  have len: "length ?c = 16 + ?l" using assms(3) by (simp add: leaf_cell_wf_def)
  note F = page_cells_field [OF assms(1,2)]
  have f: "u32_at buf (?p + 8) = cell_payload_len ?c" "?p + 8 + 4 \<le> length buf"
    using F(1) [of 8 4] F(2) [of 8 4] len by (simp_all add: cell_payload_len_def field_at_defs)
  have small: "16 + ?l \<le> 65527"
    using page_cells_slot(2) [OF assms(1,2)] page_limit_bound(2) [of "length buf"] len by linarith
  have "unat (u16_from 16 16 + u16_from ?l 0 :: u16) = 16 + ?l"
    using small by (simp add: unat_word_ariths u16_from_small)
  with f page_cells_pointer [OF assms(1,2)] len show ?thesis
    by (simp add: leaf_cell_byte_len_def layout_consts Let_def read_oks)
qed

lemma length_build_leaf_cell [simp]: "length (build_leaf_cell key pl ov local) = 16 + length local"
  by (simp add: build_leaf_cell_def)

lemma parse_build_leaf_cell:
  "parse_leaf_cell (build_leaf_cell key pl ov local) =
     \<lparr>lc_key = key, lc_payload_len = pl, lc_overflow_first = ov, lc_local = local\<rparr>"
  by (simp add: parse_leaf_cell_def cell_key_def cell_payload_len_def cell_overflow_def build_leaf_cell_def
      field_at_defs slice_append_left slice_append_right) (simp add: slice_def)

lemma build_leaf_cell_fields [simp]:
  "cell_key (build_leaf_cell key pl ov local) = key"
  "cell_payload_len (build_leaf_cell key pl ov local) = pl"
  "cell_overflow (build_leaf_cell key pl ov local) = ov"
  using arg_cong [OF parse_build_leaf_cell, of lc_key] arg_cong [OF parse_build_leaf_cell, of lc_payload_len]
    arg_cong [OF parse_build_leaf_cell, of lc_overflow_first]
  by (simp_all add: parse_leaf_cell_def)

section \<open>Accounting for the space of a page\<close>

lemma slots_pack:
  assumes "sorted_wrt slots_apart slots" "\<And>p c. (p, c) \<in> set slots \<Longrightarrow> lo \<le> p \<and> p + length c \<le> hi"
  shows "sum_list (map (\<lambda>(p, c). length c) slots) \<le> hi - lo"
proof -
  let ?U = "\<lambda>xs. \<Union>(p, c) \<in> set xs. {p..<p + length c}"
  have fin: "finite (?U xs)" for xs :: "(nat \<times> bytes) list" by auto
  have "sum_list (map (\<lambda>(p, c). length c) slots) = card (?U slots)"
    using assms(1)
  proof (induction slots)
    case Nil
    then show ?case by simp
  next
    case (Cons pc slots)
    obtain q c where pc: "pc = (q, c)" by fastforce
    have "{q..<q + length c} \<inter> ?U slots = {}"
      using Cons.prems by (fastforce simp: pc slots_apart_def)
    then have "card ({q..<q + length c} \<union> ?U slots) = length c + card (?U slots)"
      using fin by (subst card_Un_disjoint) auto
    with Cons show ?case by (simp add: pc)
  qed
  also have "\<dots> \<le> card {lo..<hi}"
    by (rule card_mono) (use assms(2) in fastforce)+
  finally show ?thesis by simp
qed

text \<open>Header, pointers and cells together lie within the page.\<close>

lemma page_cells_space:
  assumes "page_cells h buf cells"
  shows "h + sum_list (map (\<lambda>c. length c + 2) cells) \<le> page_limit (length buf)"
proof -
  note B = page_cells_bounds [OF assms]
  have "sum_list (map (\<lambda>(p, c). length c) (page_slots h buf cells)) \<le> page_limit (length buf) - content_pos buf"
    by (rule slots_pack) (use assms in \<open>auto simp: page_cells_def list_all_iff slot_ok_def\<close>)
  moreover have "map (\<lambda>(p, c). length c) (page_slots h buf cells) = map length cells"
    by (rule nth_equalityI) (simp_all add: page_slots_def)
  ultimately have "sum_list (map length cells) + content_pos buf \<le> page_limit (length buf)" using B(1) by simp
  moreover have "sum_list (map (\<lambda>c. length c + 2) cells) = sum_list (map length cells) + 2 * length cells"
    by (induction cells) auto
  ultimately show ?thesis using B(2) by linarith
qed

end
