(* ===== verification/Node_Pages.thy ===== *)
theory Node_Pages
  imports Layout
begin

text \<open>
  What the leaf and interior operations of \<open>btree/layout.rs\<close> compute on a page that
  carries a given list of cells: the binary search, the routing of a key to a child, and the
  replacement of a child pointer in place.
\<close>

section \<open>Searching a leaf\<close>

definition cell_keys :: "bytes list \<Rightarrow> int list" where
  "cell_keys cells = map (\<lambda>c. sint (cell_key c)) cells"

text \<open>The answers a search may give on sorted keys.\<close>

definition search_result :: "bytes list \<Rightarrow> i64 \<Rightarrow> nat + nat \<Rightarrow> bool" where
  "search_result cells key r \<longleftrightarrow>
     (case r of
        Inr i \<Rightarrow> i < length cells \<and> cell_key (cells ! i) = key
      | Inl i \<Rightarrow> i \<le> length cells \<and> (\<forall>j < i. sint (cell_key (cells ! j)) < sint key) \<and>
          (\<forall>j. i \<le> j \<and> j < length cells \<longrightarrow> sint key < sint (cell_key (cells ! j))))"

lemma sorted_keys_nth:
  assumes "sorted_wrt (<) (cell_keys cells)" "i \<le> j" "j < length cells"
  shows "sint (cell_key (cells ! i)) \<le> sint (cell_key (cells ! j))"
    "i < j \<Longrightarrow> sint (cell_key (cells ! i)) < sint (cell_key (cells ! j))"
proof -
  show *: "sint (cell_key (cells ! i)) < sint (cell_key (cells ! j))" if "i < j"
    using sorted_wrt_nth_less [OF assms(1) that] assms(3) that by (simp add: cell_keys_def)
  then show "sint (cell_key (cells ! i)) \<le> sint (cell_key (cells ! j))"
    using assms(2) by (cases "i = j") auto
qed

lemma sint_eq_i64: "sint (a :: i64) = sint b \<longleftrightarrow> a = b"
  by (rule signed_word_eqI [THEN iffI]) auto

lemma leaf_search_loop_cells:
  assumes "page_cells 5 buf cells" "list_all (\<lambda>c. 8 \<le> length c) cells" "sorted_wrt (<) (cell_keys cells)"
    and "lo \<le> hi" "hi \<le> length cells"
    and "\<forall>j < lo. sint (cell_key (cells ! j)) < sint key"
    and "\<forall>j. hi \<le> j \<and> j < length cells \<longrightarrow> sint key < sint (cell_key (cells ! j))"
  shows "\<exists>r. leaf_search_loop buf key lo hi = Inr r \<and> search_result cells key r"
  using assms
proof (induction buf key lo hi rule: leaf_search_loop.induct)
  case (1 buf key lo hi)
  show ?case
  proof (cases "lo < hi")
    case False
    then have "leaf_search_loop buf key lo hi = Inr (Inl lo)" by (simp add: leaf_search_loop.simps)
    moreover have "lo = hi" using False "1.prems"(4) by simp
    ultimately show ?thesis using "1.prems"(5-7) by (auto simp: search_result_def)
  next
    case True
    define mid where "mid = lo + (hi - lo) div 2"
    have mid: "lo \<le> mid" "mid < hi" "mid < length cells" using True "1.prems"(5) by (auto simp: mid_def)
    let ?k = "cell_key (cells ! mid)"
    have rd: "leaf_key_at buf mid = Inr ?k"
      using "1.prems"(1,2) mid by (intro leaf_key_at_cells) (auto simp: list_all_length)
    have unf: "leaf_search_loop buf key lo hi = (if ?k = key then Inr (Inr mid)
        else if sint ?k < sint key then leaf_search_loop buf key (mid + 1) hi else leaf_search_loop buf key lo mid)"
      using True rd by (subst leaf_search_loop.simps) (simp add: Let_def mid_def)
    consider "?k = key" | "?k \<noteq> key" "sint ?k < sint key" | "?k \<noteq> key" "\<not> sint ?k < sint key" by blast
    then show ?thesis
    proof cases
      case 1
      then show ?thesis using unf mid by (auto simp: search_result_def)
    next
      case 2
      have "\<forall>j < mid + 1. sint (cell_key (cells ! j)) < sint key"
        using sorted_keys_nth(1) [OF "1.prems"(3) _ mid(3)] 2(2) by (metis less_Suc_eq_le Suc_eq_plus1 order.strict_trans1)
      with "1.IH"(1) [OF True mid_def 2 "1.prems"(1-3) _ "1.prems"(5) _ "1.prems"(7)] mid unf 2
      show ?thesis by simp
    next
      case 3
      have "sint key < sint ?k" using 3 sint_eq_i64 [of key ?k] by force
      then have "\<forall>j. mid \<le> j \<and> j < length cells \<longrightarrow> sint key < sint (cell_key (cells ! j))"
        using sorted_keys_nth(1) [OF "1.prems"(3)] by (metis order.strict_trans2)
      with "1.IH"(2) [OF True mid_def 3 "1.prems"(1-3) _ _ "1.prems"(6)] mid unf 3
      show ?thesis by simp
    qed
  qed
qed

lemma leaf_search_cells:
  assumes "page_cells 5 buf cells" "list_all (\<lambda>c. 8 \<le> length c) cells" "sorted_wrt (<) (cell_keys cells)"
  obtains r where "leaf_search buf key = Inr r" "search_result cells key r"
proof -
  have "num_cells buf = Inr (word_of_nat (length cells))" "unat (word_of_nat (length cells) :: u16) = length cells"
    using page_cells_num_cells [OF assms(1)] by (simp_all add: unat_of_nat)
  with leaf_search_loop_cells [OF assms, of 0 "length cells" key] that show thesis
    by (auto simp: leaf_search_def)
qed

text \<open>On sorted keys the answer says whether the key is there, and where it would go.\<close>

lemma search_result_found:
  assumes "sorted_wrt (<) (cell_keys cells)" "search_result cells key r"
  shows "(\<exists>i. r = Inr i) \<longleftrightarrow> key \<in> cell_key ` set cells"
proof (cases r)
  case (Inr i)
  then show ?thesis using assms(2) by (auto simp: search_result_def)
next
  case (Inl i)
  then have less: "\<forall>j < i. sint (cell_key (cells ! j)) < sint key"
    "\<forall>j. i \<le> j \<and> j < length cells \<longrightarrow> sint key < sint (cell_key (cells ! j))"
    using assms(2) by (simp_all add: search_result_def)
  have "cell_key (cells ! j) \<noteq> key" if "j < length cells" for j
    using less that by (metis linorder_not_less order_less_irrefl)
  then have "key \<notin> cell_key ` set cells" by (metis imageE in_set_conv_nth)
  then show ?thesis using Inl by simp
qed

lemma search_result_index:
  assumes "sorted_wrt (<) (cell_keys cells)" "search_result cells key (Inr i)"
  shows "j < length cells \<Longrightarrow> cell_key (cells ! j) = key \<longleftrightarrow> j = i"
proof -
  have i: "i < length cells" "cell_key (cells ! i) = key" using assms(2) by (simp_all add: search_result_def)
  assume j: "j < length cells"
  show ?thesis
  proof
    assume eq: "cell_key (cells ! j) = key"
    show "j = i"
    proof (rule ccontr)
      assume "j \<noteq> i"
      then consider "j < i" | "i < j" by linarith
      then show False
        using sorted_keys_nth(2) [OF assms(1), of j i] sorted_keys_nth(2) [OF assms(1), of i j] i j eq
        by cases auto
    qed
  qed (use i in simp)
qed

section \<open>Interior pages\<close>

definition interior_cells :: "bytes \<Rightarrow> bytes list \<Rightarrow> bool" where
  "interior_cells buf cells \<longleftrightarrow> page_cells 9 buf cells \<and> list_all (\<lambda>c. length c = 12) cells"

definition rightmost_child :: "bytes \<Rightarrow> u32" where
  "rightmost_child buf = u32_at buf 5"

lemma interior_cells_rightmost:
  "interior_cells buf cells \<Longrightarrow> interior_rightmost buf = Inr (rightmost_child buf)"
  using page_cells_bounds [of 9 buf cells]
  by (simp add: interior_cells_def interior_rightmost_def rightmost_child_def read_oks)

lemma interior_key_at_cells:
  assumes "interior_cells buf cells" "i < length cells"
  shows "interior_key_at buf i = Inr (cell_key (cells ! i))"
    "interior_child_at buf i = Inr (cell_child (cells ! i))"
proof -
  have pc: "page_cells 9 buf cells" and len: "length (cells ! i) = 12"
    using assms by (auto simp: interior_cells_def list_all_length)
  note F = page_cells_field [OF pc assms(2)]
  show "interior_key_at buf i = Inr (cell_key (cells ! i))"
    using page_cells_pointer [OF pc assms(2)] F [of 0 8] len
    by (simp add: interior_key_at_def layout_consts read_oks cell_key_def u64_at_def)
  show "interior_child_at buf i = Inr (cell_child (cells ! i))"
    using page_cells_pointer [OF pc assms(2)] F [of 8 4] len
    by (simp add: interior_child_at_def layout_consts read_oks cell_child_def u32_at_def)
qed

text \<open>Where a key goes: the first separator above it, or the rightmost child.\<close>

definition route :: "bytes list \<Rightarrow> u32 \<Rightarrow> i64 \<Rightarrow> u32" where
  "route cells right key =
     (case find (\<lambda>c. sint key < sint (cell_key c)) cells of Some c \<Rightarrow> cell_child c | None \<Rightarrow> right)"

lemma find_child_for_key_from_cells:
  assumes "interior_cells buf cells" "k \<le> length cells"
  shows "find_child_for_key_from buf key [k..<length cells] = Inr (route (drop k cells) (rightmost_child buf) key)"
  using assms(2)
proof (induction "length cells - k" arbitrary: k)
  case 0
  then show ?case by (simp add: route_def interior_cells_rightmost [OF assms(1)])
next
  case (Suc d)
  then have k: "k < length cells" by simp
  have IH: "find_child_for_key_from buf key [Suc k..<length cells] = Inr (route (drop (Suc k) cells) (rightmost_child buf) key)"
    using Suc k by simp
  have "drop k cells = cells ! k # drop (Suc k) cells" using k by (simp add: Cons_nth_drop_Suc)
  then show ?case
    using IH k interior_key_at_cells [OF assms(1) k] by (simp add: upt_conv_Cons route_def)
qed

lemma num_cells_interior:
  assumes "interior_cells buf cells"
  shows "num_cells buf = Inr (word_of_nat (length cells))" "unat (word_of_nat (length cells) :: u16) = length cells"
  using assms page_cells_num_cells [of 9 buf cells] by (simp_all add: interior_cells_def unat_of_nat)

lemma interior_find_child_for_key_cells:
  assumes "interior_cells buf cells"
  shows "interior_find_child_for_key buf key = Inr (route cells (rightmost_child buf) key)"
  using find_child_for_key_from_cells [OF assms, of 0 key] num_cells_interior [OF assms]
  by (simp add: interior_find_child_for_key_def)

text \<open>The slot of a child: the first cell that names it.\<close>

lemma find_child_slot_from_cells:
  assumes "interior_cells buf cells" "k \<le> length cells"
  shows "find_child_slot_from buf child [k..<length cells] =
    Inr (case find (\<lambda>i. cell_child (cells ! i) = child) [k..<length cells] of Some i \<Rightarrow> Cell i | None \<Rightarrow> Rightmost)"
  using assms(2)
proof (induction "length cells - k" arbitrary: k)
  case 0
  then show ?case by simp
next
  case (Suc d)
  then have k: "k < length cells" by simp
  with Suc interior_key_at_cells(2) [OF assms(1) k] show ?case by (simp add: upt_conv_Cons)
qed

lemma interior_find_child_slot_cells:
  assumes "interior_cells buf cells"
  shows "interior_find_child_slot buf child =
    Inr (case find (\<lambda>i. cell_child (cells ! i) = child) [0..<length cells] of Some i \<Rightarrow> Cell i | None \<Rightarrow> Rightmost)"
  using find_child_slot_from_cells [OF assms, of 0 child] num_cells_interior [OF assms]
  by (simp add: interior_find_child_slot_def)

section \<open>Changing a child pointer\<close>

text \<open>Overwriting part of one cell changes that cell only.\<close>

lemma page_cells_patch:
  assumes "page_cells h buf cells" "i < length cells" "off + length bs \<le> length (cells ! i)"
    and "buf' = put_at buf (unat (u16_at buf (h + i * 2)) + off) bs"
  shows "page_cells h buf' (cells[i := put_at (cells ! i) off bs])" "length buf' = length buf"
    "\<And>at m. at + m \<le> h \<Longrightarrow> slice buf' at m = slice buf at m"
proof -
  let ?p = "\<lambda>j. unat (u16_at buf (h + j * 2))" and ?c = "put_at (cells ! i) off bs"
  let ?cells = "cells[i := ?c]"
  note B = page_cells_bounds [OF assms(1)] and S = page_cells_slot [OF assms(1)]
  have pos: "?p i + off + length bs \<le> length buf" using S(2) [OF assms(2)] B(3) assms(3) by linarith
  show len: "length buf' = length buf" using pos by (simp add: assms(4))
  have front: "slice buf' at m = slice buf at m" if "at + m \<le> content_pos buf" for at m
    using that S(1) [OF assms(2)] pos by (simp add: assms(4) slice_simps)
  then show "slice buf' at m = slice buf at m" if "at + m \<le> h" for at m using that B(2) by simp
  have u16: "u16_at buf' at = u16_at buf at" if "at + 2 \<le> content_pos buf" for at
    using front [OF that] by (simp add: u16_at_def)
  have cnt: "cell_count buf' = cell_count buf" "content_pos buf' = content_pos buf"
    using u16 [of 1] u16 [of 3] B(2,4) by (simp_all add: cell_count_def content_pos_def)
  have "pointers h (length cells) buf' = pointers h (length cells) buf"
    using u16 B(2) by (auto simp: pointers_def)
  then have slots: "page_slots h buf' ?cells = zip (pointers h (length cells) buf) ?cells"
    by (simp add: page_slots_def)
  have clen: "length (?cells ! j) = length (cells ! j)" if "j < length cells" for j
    using assms(3) that by (cases "j = i") auto
  have "slot_ok buf' (?p j, ?cells ! j)" if j: "j < length cells" for j
  proof -
    have "slice buf' (?p j) (length (cells ! j)) = ?cells ! j"
    proof (cases "j = i")
      case True
      let ?l = "length (cells ! i)"
      have "slice buf' (?p i) ?l = put_at (slice buf (?p i) ?l) off bs"
      proof (rule nth_equalityI)
        have b: "?p i + ?l \<le> length buf" using S(2) [OF assms(2)] B(3) by linarith
        then show "length (slice buf' (?p i) ?l) = length (put_at (slice buf (?p i) ?l) off bs)"
          using len assms(3) by simp
        fix m
        assume "m < length (slice buf' (?p i) ?l)"
        then have m: "m < ?l" using b len by simp
        have "slice buf' (?p i) ?l ! m = buf' ! (?p i + m)" using m b len by (simp add: slice_def)
        also have "\<dots> = put_at (slice buf (?p i) ?l) off bs ! m"
          using m b pos assms(3) by (auto simp: assms(4) nth_put_at slice_def)
        finally show "slice buf' (?p i) ?l ! m = put_at (slice buf (?p i) ?l) off bs ! m" .
      qed
      then show ?thesis using S(3) [OF assms(2)] True assms(2) by simp
    next
      case False
      have "slice buf' (?p j) (length (cells ! j)) = slice buf (?p j) (length (cells ! j))"
        using page_cells_apart [OF assms(1) j assms(2) False] assms(3) pos
        by (auto simp: assms(4) slice_put_at_before slice_put_at_after)
      then show ?thesis using S(3) [OF j] False by simp
    qed
    then show ?thesis using S(1,2) [OF j] cnt len clen [OF j] by (simp add: slot_ok_def)
  qed
  then have "list_all (slot_ok buf') (page_slots h buf' ?cells)"
    by (auto simp: slots list_all_length nth_pointers)
  moreover have "sorted_wrt slots_apart (page_slots h buf' ?cells)"
    unfolding slots sorted_wrt_iff_nth_less
    using page_cells_apart [OF assms(1)] clen by (auto simp: slots_apart_def nth_pointers)
  ultimately show "page_cells h buf' ?cells" using B cnt len by (simp add: page_cells_def)
qed

lemma length_build_interior_cell [simp]: "length (build_interior_cell key child) = 12"
  by (simp add: build_interior_cell_def)

lemma build_interior_cell_fields [simp]:
  "cell_key (build_interior_cell key child) = key" "cell_child (build_interior_cell key child) = child"
  by (simp_all add: build_interior_cell_def cell_key_def cell_child_def field_at_defs slice_append_left slice_append_right)
    (simp_all add: slice_def)

lemma cell_rebuild:
  assumes "length c = 12"
  shows "build_interior_cell (cell_key c) (cell_child c) = c"
    "put_at c 8 (to_be_bytes 4 child) = build_interior_cell (cell_key c) child"
proof -
  have k: "to_be_bytes 8 (cell_key c) = slice c 0 8" and ch: "to_be_bytes 4 (cell_child c) = slice c 8 4"
    using to_from_be_bytes [of "slice c 0 8", where 'a = 64] to_from_be_bytes [of "slice c 8 4", where 'a = 32] assms
    by (simp_all add: cell_key_def cell_child_def field_at_defs)
  show "build_interior_cell (cell_key c) (cell_child c) = c"
    using assms by (simp add: build_interior_cell_def k ch slice_def)
  show "put_at c 8 (to_be_bytes 4 child) = build_interior_cell (cell_key c) child"
    using assms by (simp add: build_interior_cell_def k put_at_def slice_def)
qed

lemma interior_set_child_at_cells:
  assumes "interior_cells buf cells" "i < length cells"
  obtains buf' where "interior_set_child_at buf i child = Inr buf'" "length buf' = length buf"
    "interior_cells buf' (cells[i := build_interior_cell (cell_key (cells ! i)) child])"
    "rightmost_child buf' = rightmost_child buf" "u8_at buf' 0 = u8_at buf 0"
proof -
  have pc: "page_cells 9 buf cells" and len: "length (cells ! i) = 12"
    using assms by (auto simp: interior_cells_def list_all_length)
  let ?b = "put_at buf (unat (u16_at buf (9 + i * 2)) + 8) (to_be_bytes 4 child)"
  have fits: "8 + length (to_be_bytes 4 child) \<le> length (cells ! i)" by (simp add: len)
  note P = page_cells_patch [OF pc assms(2) fits refl]
  have run: "interior_set_child_at buf i child = Inr ?b"
    using page_cells_pointer [OF pc assms(2)] page_cells_field(2) [OF pc assms(2), of 8 4] len
    by (simp add: interior_set_child_at_def layout_consts write_oks)
  have "interior_cells ?b (cells[i := build_interior_cell (cell_key (cells ! i)) child])"
    using P(1) assms(1) len
    by (auto simp: interior_cells_def list_all_iff cell_rebuild(2) dest!: set_update_subset_insert [THEN subsetD])
  moreover have "rightmost_child ?b = rightmost_child buf" "u8_at ?b 0 = u8_at buf 0"
    using P(3) [of 5 4] P(3) [of 0 1] by (simp_all add: rightmost_child_def u32_at_def u8_at_def)
  ultimately show thesis using that run P(2) by blast
qed

lemma page_cells_front:
  assumes "page_cells h buf cells" "length buf' = length buf"
    and "\<And>at m. 1 \<le> at \<and> at + m \<le> 5 \<or> h \<le> at \<Longrightarrow> slice buf' at m = slice buf at m"
  shows "page_cells h buf' cells"
proof -
  note B = page_cells_bounds [OF assms(1)]
  have cnt: "cell_count buf' = cell_count buf" "content_pos buf' = content_pos buf"
    using assms(3) [of 1 2] assms(3) [of 3 2] by (simp_all add: cell_count_def content_pos_def u16_at_def)
  have "pointers h (length cells) buf' = pointers h (length cells) buf"
    using assms(3) by (auto simp: pointers_def u16_at_def)
  then have slots: "page_slots h buf' cells = page_slots h buf cells" by (simp add: page_slots_def)
  have "slot_ok buf' pc" if "slot_ok buf pc" for pc
    using that cnt assms(2) assms(3) [of "fst pc" "length (snd pc)"] B(2)
    by (auto simp: slot_ok_def split: prod.splits)
  then show ?thesis using assms(1,2) by (auto simp: page_cells_def cnt slots list_all_iff)
qed

lemma interior_set_rightmost_cells:
  assumes "interior_cells buf cells"
  obtains buf' where "interior_set_rightmost buf child = Inr buf'" "length buf' = length buf"
    "interior_cells buf' cells" "rightmost_child buf' = child" "u8_at buf' 0 = u8_at buf 0"
proof -
  have pc: "page_cells 9 buf cells" using assms by (simp add: interior_cells_def)
  note B = page_cells_bounds [OF pc]
  let ?b = "put_at buf 5 (to_be_bytes 4 child)"
  have "page_cells 9 ?b cells"
    by (rule page_cells_front [OF pc]) (use B in \<open>auto simp: slice_simps\<close>)
  then have "interior_cells ?b cells" using assms by (simp add: interior_cells_def)
  moreover have "interior_set_rightmost buf child = Inr ?b" using B by (simp add: interior_set_rightmost_def write_oks)
  moreover have "rightmost_child ?b = child" "u8_at ?b 0 = u8_at buf 0"
    using B by (simp_all add: rightmost_child_def field_at_put_same field_at_put_other)
  ultimately show thesis using that B by simp
qed

lemma init_interior_cells:
  assumes "17 \<le> length buf" "length buf \<le> 65536"
  obtains buf' where "init_interior buf right = Inr buf'" "length buf' = length buf" "interior_cells buf' []"
    "rightmost_child buf' = right" "u8_at buf' 0 = PAGE_TYPE_INTERIOR" "content_pos buf' = page_limit (length buf)"
proof -
  have "8 + 9 \<le> length buf" "(5::nat) \<le> 9" "(9::nat) \<le> 9" using assms by simp_all
  then obtain b where
    b: "init_slotted buf PAGE_TYPE_INTERIOR = Inr b" "length b = length buf" "page_cells 9 b []"
      "u8_at b 0 = PAGE_TYPE_INTERIOR" "content_pos b = page_limit (length buf)"
    using assms(2) by (rule init_slotted_cells [where ty = PAGE_TYPE_INTERIOR])
  let ?b = "put_at b 5 (to_be_bytes 4 right)"
  have "page_cells 9 ?b []" by (rule page_cells_front [OF b(3)]) (use assms b(2) in \<open>auto simp: slice_simps\<close>)
  then have "interior_cells ?b []" by (simp add: interior_cells_def)
  moreover have "init_interior buf right = Inr ?b" using assms b by (simp add: init_interior_def write_oks)
  moreover have "rightmost_child ?b = right" "u8_at ?b 0 = PAGE_TYPE_INTERIOR" "content_pos ?b = page_limit (length buf)"
    using assms b by (simp_all add: rightmost_child_def content_pos_def field_at_put_same field_at_put_other)
  ultimately show thesis using that b(2) assms by simp
qed

end
