(* ===== verification/Row.thy ===== *)
theory Row
  imports Codec Lexis
begin

text \<open>
  \<open>crates/pinax/src/row.rs\<close>: the self-describing row payload. A row is a \<open>u32\<close>
  column count followed by one tagged value per column; encoding appends to a growing
  buffer, decoding walks an offset through the buffer.
\<close>

section \<open>Operations\<close>

definition TAG_NULL :: u8 where "TAG_NULL = 0"
definition TAG_INTEGER :: u8 where "TAG_INTEGER = 1"
definition TAG_REAL :: u8 where "TAG_REAL = 2"
definition TAG_TEXT :: u8 where "TAG_TEXT = 3"
definition TAG_BLOB :: u8 where "TAG_BLOB = 4"
definition TAG_BOOLEAN :: u8 where "TAG_BOOLEAN = 5"
definition TAG_DATETIME :: u8 where "TAG_DATETIME = 6"

lemmas tag_defs = TAG_NULL_def TAG_INTEGER_def TAG_REAL_def TAG_TEXT_def TAG_BLOB_def
  TAG_BOOLEAN_def TAG_DATETIME_def

datatype row = Row (row_values: "sql_value list")

definition too_large_as_u32 :: "nat \<Rightarrow> i64 \<Rightarrow> u32 presult" where
  "too_large_as_u32 len key =
     (if len < 2 ^ 32 then Inr (word_of_nat len) else Inl (Permanent (PayloadTooLarge key len)))"

definition invalid_encoding :: "string \<Rightarrow> pinax_error" where
  "invalid_encoding reason = Fatal (InvalidRowEncoding reason)"

definition push_len_prefixed :: "bytes \<Rightarrow> bytes \<Rightarrow> i64 \<Rightarrow> bytes presult" where
  "push_len_prefixed buf bs key =
     rbind (too_large_as_u32 (length bs) key) (\<lambda>len. Inr (buf @ to_be_bytes 4 len @ bs))"

fun encode_value :: "bytes \<Rightarrow> sql_value \<Rightarrow> i64 \<Rightarrow> bytes presult" where
  "encode_value buf Null key = Inr (buf @ [TAG_NULL])"
| "encode_value buf (Integer v) key = Inr (buf @ [TAG_INTEGER] @ to_be_bytes 8 v)"
| "encode_value buf (Real v) key = Inr (buf @ [TAG_REAL] @ to_be_bytes 8 (real_get v))"
| "encode_value buf (Text s) key = push_len_prefixed (buf @ [TAG_TEXT]) s key"
| "encode_value buf (Blob b) key = push_len_prefixed (buf @ [TAG_BLOB]) b key"
| "encode_value buf (Boolean v) key = Inr (buf @ [TAG_BOOLEAN] @ [if v then 1 else 0])"
| "encode_value buf (Datetime v) key = Inr (buf @ [TAG_DATETIME] @ to_be_bytes 8 (datetime_get v))"

text \<open>The loop of \<open>Row::encode\<close> over the values.\<close>

fun encode_values :: "bytes \<Rightarrow> sql_value list \<Rightarrow> i64 \<Rightarrow> bytes presult" where
  "encode_values buf [] key = Inr buf"
| "encode_values buf (v # vs) key =
     rbind (encode_value buf v key) (\<lambda>buf'. encode_values buf' vs key)"

definition row_encode :: "row \<Rightarrow> i64 \<Rightarrow> bytes presult" where
  "row_encode r key =
     rbind (too_large_as_u32 (length (row_values r)) key) (\<lambda>count.
       encode_values (to_be_bytes 4 count) (row_values r) key)"

definition read_len_prefixed :: "bytes \<Rightarrow> nat \<Rightarrow> (bytes \<times> nat) presult" where
  "read_len_prefixed buf at =
     rbind (read_u32 buf at) (\<lambda>len.
       let len_usize = unat len; start = at + 4
       in rbind (read_vec buf start len_usize) (\<lambda>bs. Inr (bs, start + len_usize)))"

definition decode_value :: "bytes \<Rightarrow> nat \<Rightarrow> (sql_value \<times> nat) presult" where
  "decode_value buf at0 =
     rbind (read_u8 buf at0) (\<lambda>tag.
       let at = at0 + 1 in
       if tag = TAG_NULL then Inr (Null, at)
       else if tag = TAG_INTEGER then
         rbind (read_i64 buf at) (\<lambda>v. Inr (Integer v, at + 8))
       else if tag = TAG_REAL then
         rbind (read_u64 buf at) (\<lambda>bits.
           case real_try_from bits of
             Inl _ \<Rightarrow> Inl (invalid_encoding ''REAL payload decoded to NaN'')
           | Inr real \<Rightarrow> Inr (Real real, at + 8))
       else if tag = TAG_TEXT then
         rbind (read_len_prefixed buf at) (\<lambda>(bs, next).
           if utf8_valid bs then Inr (Text bs, next)
           else Inl (invalid_encoding ''TEXT payload was not valid UTF-8''))
       else if tag = TAG_BLOB then
         rbind (read_len_prefixed buf at) (\<lambda>(bs, next). Inr (Blob bs, next))
       else if tag = TAG_BOOLEAN then
         rbind (read_u8 buf at) (\<lambda>raw. Inr (Boolean (raw \<noteq> 0), at + 1))
       else if tag = TAG_DATETIME then
         rbind (read_i64 buf at) (\<lambda>v. Inr (Datetime (datetime_from v), at + 8))
       else Inl (invalid_encoding ''unrecognized value type tag''))"

text \<open>The loop of \<open>Row::decode\<close>: \<open>n\<close> values still to read, those read so far.\<close>

fun decode_values :: "bytes \<Rightarrow> nat \<Rightarrow> nat \<Rightarrow> sql_value list \<Rightarrow> sql_value list presult" where
  "decode_values buf at 0 vs = Inr vs"
| "decode_values buf at (Suc n) vs =
     rbind (decode_value buf at) (\<lambda>(v, next). decode_values buf next n (vs @ [v]))"

definition row_decode :: "bytes \<Rightarrow> row presult" where
  "row_decode buf =
     rbind (read_u32 buf 0) (\<lambda>count.
       rbind (decode_values buf 4 (unat count) []) (\<lambda>vs. Inr (Row vs)))"

section \<open>Lemmas\<close>

definition row_wf :: "row \<Rightarrow> bool" where
  "row_wf r \<longleftrightarrow> list_all value_wf (row_values r)"

text \<open>What one value adds to the buffer, and the values the format can hold.\<close>

fun value_bytes :: "sql_value \<Rightarrow> bytes" where
  "value_bytes Null = [TAG_NULL]"
| "value_bytes (Integer v) = TAG_INTEGER # to_be_bytes 8 v"
| "value_bytes (Real v) = TAG_REAL # to_be_bytes 8 (real_get v)"
| "value_bytes (Text s) = TAG_TEXT # to_be_bytes 4 (word_of_nat (length s) :: u32) @ s"
| "value_bytes (Blob b) = TAG_BLOB # to_be_bytes 4 (word_of_nat (length b) :: u32) @ b"
| "value_bytes (Boolean v) = [TAG_BOOLEAN, if v then 1 else 0]"
| "value_bytes (Datetime v) = TAG_DATETIME # to_be_bytes 8 (datetime_get v)"

fun value_fits :: "sql_value \<Rightarrow> bool" where
  "value_fits (Text s) = (length s < 2 ^ 32)"
| "value_fits (Blob b) = (length b < 2 ^ 32)"
| "value_fits _ = True"

definition row_fits :: "row \<Rightarrow> bool" where
  "row_fits r \<longleftrightarrow> length (row_values r) < 2 ^ 32 \<and> list_all value_fits (row_values r)"

definition row_bytes :: "row \<Rightarrow> bytes" where
  "row_bytes r =
     to_be_bytes 4 (word_of_nat (length (row_values r)) :: u32) @ concat (map value_bytes (row_values r))"

lemma encode_value_fits: "value_fits v \<Longrightarrow> encode_value buf v key = Inr (buf @ value_bytes v)"
  by (cases v) (auto simp: push_len_prefixed_def too_large_as_u32_def)

lemma encode_value_too_large:
  "\<not> value_fits v \<Longrightarrow> \<exists>n. encode_value buf v key = Inl (Permanent (PayloadTooLarge key n))"
  by (cases v) (auto simp: push_len_prefixed_def too_large_as_u32_def)

lemma encode_values_fits:
  "list_all value_fits vs \<Longrightarrow> encode_values buf vs key = Inr (buf @ concat (map value_bytes vs))"
  by (induction vs arbitrary: buf) (auto simp: encode_value_fits)

lemma encode_values_too_large:
  "\<not> list_all value_fits vs \<Longrightarrow> \<exists>n. encode_values buf vs key = Inl (Permanent (PayloadTooLarge key n))"
proof (induction vs arbitrary: buf)
  case Nil
  then show ?case by simp
next
  case (Cons v vs)
  show ?case
  proof (cases "value_fits v")
    case True
    with Cons show ?thesis by (simp add: encode_value_fits)
  next
    case False
    then obtain n where "encode_value buf v key = Inl (Permanent (PayloadTooLarge key n))"
      using encode_value_too_large by blast
    then show ?thesis by simp
  qed
qed

lemma row_encode_fits: "row_fits r \<Longrightarrow> row_encode r key = Inr (row_bytes r)"
  by (simp add: row_fits_def row_encode_def too_large_as_u32_def encode_values_fits row_bytes_def)

lemma row_encode_too_large:
  "\<not> row_fits r \<Longrightarrow> \<exists>n. row_encode r key = Inl (Permanent (PayloadTooLarge key n))"
  using encode_values_too_large
  by (auto simp: row_fits_def row_encode_def too_large_as_u32_def)

lemma row_encode_Inr: "row_encode r key = Inr bs \<longleftrightarrow> row_fits r \<and> bs = row_bytes r"
  using row_encode_fits [of r key] row_encode_too_large [of r key] by (cases "row_fits r") auto

lemma slice_at_prefix: "slice (pre @ q) (length pre) n = take n q"
  and slice_past_prefix: "slice (pre @ q) (length pre + k) n = take n (drop k q)"
  by (simp_all add: slice_def)

lemma read_u32_prefix:
  "read_u32 (pre @ to_be_bytes 4 w @ post) (length pre) = Inr w"
  using read_u32_ok [of "length pre" "pre @ to_be_bytes 4 w @ post"]
  by (simp add: u32_at_def slice_at_prefix)

lemma read_u64_prefix:
  "read_u64 (pre @ to_be_bytes 8 w @ post) (length pre) = Inr w"
  using read_u64_ok [of "length pre" "pre @ to_be_bytes 8 w @ post"]
  by (simp add: u64_at_def slice_at_prefix)

lemma read_u8_prefix: "read_u8 (pre @ b # post) (length pre) = Inr b"
  using read_u8_ok [of "length pre" "pre @ b # post"]
  by (simp add: u8_at_def slice_at_prefix)

lemma read_vec_prefix: "read_vec (pre @ bs @ post) (length pre) (length bs) = Inr bs"
  using read_vec_ok [of "length pre" "length bs" "pre @ bs @ post"]
  by (simp add: slice_at_prefix)

lemma read_len_prefixed_prefix:
  assumes "length bs < 2 ^ 32"
  shows "read_len_prefixed (pre @ to_be_bytes 4 (word_of_nat (length bs) :: u32) @ bs @ post) (length pre)
    = Inr (bs, length pre + 4 + length bs)"
proof -
  have len: "unat (word_of_nat (length bs) :: u32) = length bs"
    using assms by (simp add: unat_of_nat)
  have "read_vec ((pre @ to_be_bytes 4 (word_of_nat (length bs) :: u32)) @ bs @ post)
      (length (pre @ to_be_bytes 4 (word_of_nat (length bs) :: u32))) (length bs) = Inr bs"
    by (rule read_vec_prefix)
  then have "read_vec (pre @ to_be_bytes 4 (word_of_nat (length bs) :: u32) @ bs @ post)
      (length pre + 4) (length bs) = Inr bs" by simp
  then show ?thesis by (simp add: read_len_prefixed_def read_u32_prefix len Let_def)
qed

lemma decode_value_bytes:
  assumes "value_fits v" "value_wf v"
  shows "decode_value (pre @ value_bytes v @ post) (length pre) = Inr (v, length pre + length (value_bytes v))"
proof -
  have u64: "read_u64 (pre @ t # to_be_bytes 8 w @ post) (Suc (length pre)) = Inr w" for t and w :: u64
    using read_u64_prefix [of "pre @ [t]" w post] by simp
  have i64: "read_i64 (pre @ t # to_be_bytes 8 w @ post) (Suc (length pre)) = Inr w" for t and w :: u64
    using u64 by (simp add: read_i64_u64)
  have u8: "read_u8 (pre @ t # b # post) (Suc (length pre)) = Inr b" for t b
    using read_u8_prefix [of "pre @ [t]" b post] by simp
  have vec: "read_len_prefixed (pre @ t # to_be_bytes 4 (word_of_nat (length bs) :: u32) @ bs @ post)
      (Suc (length pre)) = Inr (bs, length pre + 5 + length bs)" if "length bs < 2 ^ 32" for t bs
    using read_len_prefixed_prefix [OF that, of "pre @ [t]" post] by simp
  show ?thesis
    using assms
    by (cases v) (auto simp: decode_value_def read_u8_prefix u64 i64 u8 vec tag_defs
        real_try_from_def datetime_from_def)
qed

lemma decode_values_bytes:
  "list_all value_fits vs \<Longrightarrow> list_all value_wf vs \<Longrightarrow>
     decode_values (pre @ concat (map value_bytes vs) @ post) (length pre) (length vs) acc = Inr (acc @ vs)"
proof (induction vs arbitrary: pre acc)
  case Nil
  then show ?case by simp
next
  case (Cons v vs)
  have "decode_value (pre @ value_bytes v @ concat (map value_bytes vs) @ post) (length pre) =
      Inr (v, length pre + length (value_bytes v))"
    using Cons.prems by (intro decode_value_bytes) simp_all
  moreover have "decode_values ((pre @ value_bytes v) @ concat (map value_bytes vs) @ post)
      (length (pre @ value_bytes v)) (length vs) (acc @ [v]) = Inr ((acc @ [v]) @ vs)"
    using Cons.prems by (intro Cons.IH) simp_all
  ultimately show ?case by simp
qed

lemma row_decode_bytes:
  assumes "row_fits r" "row_wf r"
  shows "row_decode (row_bytes r @ rest) = Inr r"
proof -
  let ?n = "word_of_nat (length (row_values r)) :: u32"
  have n: "unat ?n = length (row_values r)"
    using assms by (simp add: row_fits_def unat_of_nat)
  have "decode_values (to_be_bytes 4 ?n @ concat (map value_bytes (row_values r)) @ rest)
      (length (to_be_bytes 4 ?n)) (length (row_values r)) [] = Inr ([] @ row_values r)"
    using assms by (intro decode_values_bytes) (simp_all add: row_fits_def row_wf_def)
  then show ?thesis
    using read_u32_prefix [of "[]" ?n]
    by (simp add: row_decode_def row_bytes_def n)
qed

section \<open>Claims\<close>

lemma decode_value_wf: "decode_value buf at = Inr (v, next) \<Longrightarrow> value_wf v"
  by (auto simp: decode_value_def rbind_eq_Inr Let_def real_try_from_def split: if_splits sum.splits)

lemma decode_values_wf:
  "decode_values buf at n acc = Inr vs \<Longrightarrow> list_all value_wf acc \<Longrightarrow> list_all value_wf vs"
proof (induction n arbitrary: at acc)
  case (Suc n)
  then show ?case using decode_value_wf by (fastforce simp: rbind_eq_Inr)
qed simp

lemma encode_values_oversized:
  "\<not> list_all value_fits vs \<Longrightarrow>
     \<exists>n. encode_values buf vs key = Inl (Permanent (PayloadTooLarge key n)) \<and> 2 ^ 32 \<le> n"
proof (induction vs arbitrary: buf)
  case (Cons v vs)
  show ?case
  proof (cases "value_fits v")
    case True
    with Cons show ?thesis by (simp add: encode_value_fits)
  next
    case False
    then show ?thesis by (cases v) (auto simp: push_len_prefixed_def too_large_as_u32_def)
  qed
qed simp

lemma row_encode_oversized:
  "\<not> row_fits r \<Longrightarrow> \<exists>n. row_encode r key = Inl (Permanent (PayloadTooLarge key n)) \<and> 2 ^ 32 \<le> n"
  using encode_values_oversized by (auto simp: row_encode_def row_fits_def too_large_as_u32_def)

text \<open>
  C29: decoding an encoded row gives the row back, also when other bytes follow it in the buffer.
\<close>
lemma row_round_trip:
  assumes "row_wf r" "row_encode r key = Inr bs"
  shows "row_decode (bs @ rest) = Inr r"
  using assms row_decode_bytes by (simp add: row_encode_Inr)

lemma row_round_trip_witness:
  "\<exists>bs. row_encode (Row [Null, Integer (- 1), Text [0xC3, 0xA9], Boolean True]) 7 = Inr bs \<and>
     row_decode (bs @ [0]) = Inr (Row [Null, Integer (- 1), Text [0xC3, 0xA9], Boolean True])"
proof -
  have "row_wf (Row [Null, Integer (- 1), Text [0xC3, 0xA9], Boolean True])" by code_simp
  moreover obtain bs where "row_encode (Row [Null, Integer (- 1), Text [0xC3, 0xA9], Boolean True]) 7 = Inr bs"
    using row_encode_fits by (fastforce simp: row_fits_def)
  ultimately show ?thesis using row_round_trip by blast
qed

text \<open>
  C34: encoding fails exactly when the row has \<open>2 ^ 32\<close> or more columns or a text or blob of
  \<open>2 ^ 32\<close> or more bytes, and the error is \<open>PayloadTooLarge\<close> with the row's key.
\<close>
lemma row_encode_errors:
  "(case row_encode r key of
      Inr bs \<Rightarrow> row_fits r
    | Inl e \<Rightarrow> \<not> row_fits r \<and> (\<exists>n. 2 ^ 32 \<le> n \<and> e = Permanent (PayloadTooLarge key n)))"
proof (cases "row_fits r")
  case True
  then show ?thesis by (simp add: row_encode_fits)
next
  case False
  then obtain n where "row_encode r key = Inl (Permanent (PayloadTooLarge key n))" "2 ^ 32 \<le> n"
    using row_encode_oversized by blast
  with False show ?thesis by auto
qed

text \<open>
  C35: whatever bytes a row is decoded from, its values satisfy what the Rust types promise: every
  text is well-formed UTF-8 and no real is a NaN.
\<close>
lemma row_decode_values:
  assumes "row_decode buf = Inr r"
  shows "row_wf r"
  using assms decode_values_wf by (fastforce simp: row_decode_def rbind_eq_Inr row_wf_def)

lemma row_decode_values_witness:
  "row_decode [0, 0, 0, 1, 3, 0, 0, 0, 1, 65] = Inr (Row [Text [65]]) \<and> row_wf (Row [Text [65]])"
proof -
  have "row_decode [0, 0, 0, 1, 3, 0, 0, 0, 1, 65] = Inr (Row [Text [65]])" by code_simp
  with row_decode_values show ?thesis by blast
qed

end
