(* ===== verification/Overflow.thy ===== *)
theory Overflow
  imports Page_Store Node_Pages Row
begin

text \<open>
  \<open>crates/pinax/src/btree/overflow.rs\<close>: overflow chains, and the boundary at which an
  encoded row is split between its leaf cell and a chain. The two \<open>while\<close> loops need a
  chunk capacity above zero to end, which a page size value outside its newtype would not
  give; they are partial functions whose undefined value is the run that does not return, and
  the lemmas prove that on every page size they do.
\<close>

definition overflow_chunk_cap :: "u32 \<Rightarrow> nat" where
  "overflow_chunk_cap page_size_bytes =
     (let usable = page_size_bytes - checksum_len_u32 in unat usable - OVERFLOW_HEADER_LEN)"

text \<open>The first loop of \<open>write_overflow_chain\<close>: cutting the tail front to back.\<close>

partial_function (option) chunk_loop :: "nat \<Rightarrow> bytes \<Rightarrow> nat \<Rightarrow> bytes list \<Rightarrow> bytes list presult option" where
  "chunk_loop chunk_cap tail start chunks =
     (if start < length tail then
        let fin = min (start + chunk_cap) (length tail) in
        (case get_range tail start fin of
           None \<Rightarrow> Some (Inl (buffer_bounds start (fin - start) (length tail)))
         | Some chunk \<Rightarrow> chunk_loop chunk_cap tail fin (chunks @ [chunk]))
      else Some (Inr chunks))"

definition overflow_page :: "nat \<Rightarrow> u32 \<Rightarrow> bytes \<Rightarrow> bytes presult" where
  "overflow_page page_len next_id chunk =
     rbind (write_u8 (replicate page_len 0) 0 PAGE_TYPE_OVERFLOW) (\<lambda>buf.
     rbind (write_u32 buf 1 next_id) (\<lambda>buf.
       write_bytes buf OVERFLOW_HEADER_LEN chunk))"

text \<open>The second loop, over the chunks last to first.\<close>

fun link_chunks :: "(bytes \<Rightarrow> u64) \<Rightarrow> bytes list \<Rightarrow> u32 \<Rightarrow> u32 pmethod" where
  "link_chunks xxh [] next_id p = (Inr next_id, p)"
| "link_chunks xxh (chunk # chunks) next_id p =
     sbind (spure (overflow_page (bytes_usize (pool_page_size p)) next_id chunk)) (\<lambda>buf.
     sbind allocate_page_id (\<lambda>pid.
     sbind (put_new xxh pid buf) (\<lambda>_.
       link_chunks xxh chunks pid))) p"

type_synonym 'a pdmethod = "(pool, pinax_error, 'a) dmethod"

definition write_overflow_chain :: "(bytes \<Rightarrow> u64) \<Rightarrow> bytes \<Rightarrow> u32 pdmethod" where
  "write_overflow_chain xxh tail p =
     (if tail = [] then Some (Inr 0, p)
      else let chunk_cap = overflow_chunk_cap (page_bytes (pool_page_size p)) in
        Option.bind (chunk_loop chunk_cap tail 0 []) (\<lambda>r.
          dbind (dpure r) (\<lambda>chunks. dlift (link_chunks xxh (rev chunks) 0)) p))"

partial_function (option) read_chain_loop :: "(bytes \<Rightarrow> u64) \<Rightarrow> nat \<Rightarrow> u32 \<Rightarrow> bytes \<Rightarrow> bytes pdmethod" where
  "read_chain_loop xxh total_len current out p =
     (if current \<noteq> 0 \<and> length out < total_len then
        dbind (dlift (pool_get xxh current)) (\<lambda>buf.
        dbind (dpure (expect_page_type current buf PAGE_TYPE_OVERFLOW ''overflow'')) (\<lambda>_.
        dbind (dpure (read_u32 buf 1)) (\<lambda>next_id p.
          let remaining_needed = total_len - length out;
              chunk_cap = overflow_chunk_cap (page_bytes (pool_page_size p));
              taken = min remaining_needed chunk_cap
          in dbind (dpure (read_vec buf OVERFLOW_HEADER_LEN taken)) (\<lambda>chunk.
               read_chain_loop xxh total_len next_id (out @ chunk)) p))) p
      else Some (Inr out, p))"

definition read_overflow_chain :: "(bytes \<Rightarrow> u64) \<Rightarrow> u32 \<Rightarrow> nat \<Rightarrow> bytes pdmethod" where
  "read_overflow_chain xxh first_id total_len = read_chain_loop xxh total_len first_id []"

definition spill_if_needed :: "(bytes \<Rightarrow> u64) \<Rightarrow> bytes \<Rightarrow> (bytes \<times> u32) pdmethod" where
  "spill_if_needed xxh encoded p =
     (let max_loc = unat (max_local (pool_page_size p)) in
      if length encoded \<le> max_loc then Some (Inr (encoded, 0), p)
      else (case (get_range encoded 0 max_loc, get_range encoded max_loc (length encoded)) of
              (Some local, Some tail) \<Rightarrow>
                dbind (write_overflow_chain xxh tail) (\<lambda>overflow_first.
                  dpure (Inr (local, overflow_first))) p
            | (None, _) \<Rightarrow> Some (Inl (buffer_bounds 0 max_loc (length encoded)), p)
            | (_, None) \<Rightarrow> Some (Inl (buffer_bounds max_loc (length encoded - max_loc) (length encoded)), p)))"

definition build_row_cell :: "(bytes \<Rightarrow> u64) \<Rightarrow> i64 \<Rightarrow> row \<Rightarrow> bytes pdmethod" where
  "build_row_cell xxh key row =
     dbind (dpure (row_encode row key)) (\<lambda>encoded.
     dbind (spill_if_needed xxh encoded) (\<lambda>(local, overflow_first).
       dpure (Inr (build_leaf_cell key (u32_from (length encoded) (- 1)) overflow_first local))))"

definition reassemble :: "(bytes \<Rightarrow> u64) \<Rightarrow> leaf_cell \<Rightarrow> bytes pdmethod" where
  "reassemble xxh cell p =
     (if lc_overflow_first cell = 0 then Some (Inr (lc_local cell), p)
      else let max_loc = max_local (pool_page_size p);
               tail_len = unat (saturating_sub (lc_payload_len cell) max_loc)
           in dbind (read_overflow_chain xxh (lc_overflow_first cell) tail_len) (\<lambda>tail.
                dpure (Inr (lc_local cell @ tail))) p)"

section \<open>Chains\<close>

text \<open>
  \<open>chain v cap pid bs\<close>: the pages that start at \<open>pid\<close> and end with a zero link
  carry the bytes \<open>bs\<close>, every page but the last one full.
\<close>

inductive chain :: "(u32 \<Rightarrow> bytes option) \<Rightarrow> nat \<Rightarrow> u32 \<Rightarrow> bytes \<Rightarrow> bool" for v cap where
  chain_end: "chain v cap 0 []"
| chain_page: "v pid = Some b \<Longrightarrow> pid \<noteq> 0 \<Longrightarrow> u8_at b 0 = PAGE_TYPE_OVERFLOW \<Longrightarrow> u32_at b 1 = next_id \<Longrightarrow>
     5 + cap \<le> length b \<Longrightarrow> chunk \<noteq> [] \<Longrightarrow> length chunk \<le> cap \<Longrightarrow> rest \<noteq> [] \<longrightarrow> length chunk = cap \<Longrightarrow>
     slice b 5 (length chunk) = chunk \<Longrightarrow> chain v cap next_id rest \<Longrightarrow> chain v cap pid (chunk @ rest)"

lemma chain_mono: "chain v cap pid bs \<Longrightarrow> v \<subseteq>\<^sub>m w \<Longrightarrow> chain w cap pid bs"
proof (induction rule: chain.induct)
  case chain_end
  show ?case by (rule chain.chain_end)
next
  case (chain_page pid b next_id chunk rest)
  then have "w pid = Some b" by (auto simp: map_le_def dom_def)
  with chain_page show ?case by (blast intro: chain.chain_page)
qed

lemma overflow_chunk_cap_valid:
  assumes "valid_page_size (page_bytes ps)"
  shows "overflow_chunk_cap (page_bytes ps) = bytes_usize ps - 13" "0 < overflow_chunk_cap (page_bytes ps)"
proof -
  have "unat (page_bytes ps - 8) = bytes_usize ps - 8"
    using unat_usable_space [of ps] valid_page_size_bounds(1) [OF assms] by (simp add: usable_space_def page_consts)
  then show *: "overflow_chunk_cap (page_bytes ps) = bytes_usize ps - 13"
    by (simp add: overflow_chunk_cap_def page_consts layout_consts)
  show "0 < overflow_chunk_cap (page_bytes ps)" using valid_page_size_bounds(1) [OF assms] by (simp add: *)
qed

lemma store_inv_page_size:
  "store_inv xxh p \<Longrightarrow> valid_page_size (page_bytes (pool_page_size p)) \<and> 4096 \<le> pool_page_bytes p \<and> pool_page_bytes p \<le> 65536"
  using valid_page_size_bounds [of "pool_page_size p"]
  by (simp add: store_inv_def store_ok_def pool_inv_def pool_coherent_def pool_page_bytes_def)

definition chunk_cap_of :: "pool \<Rightarrow> nat" where
  "chunk_cap_of p = overflow_chunk_cap (page_bytes (pool_page_size p))"

lemma chunk_cap_of_bounds:
  "store_inv xxh p \<Longrightarrow> chunk_cap_of p + 13 = pool_page_bytes p \<and> 0 < chunk_cap_of p"
  using overflow_chunk_cap_valid [of "pool_page_size p"] store_inv_page_size [of xxh p]
  by (auto simp: chunk_cap_of_def pool_page_bytes_def)

lemma extends_frame:
  assumes "store.extends xxh p p'"
  shows "store_inv xxh p'" "pool_page_size p' = pool_page_size p" "pool_root_page_id p' = pool_root_page_id p"
    "chunk_cap_of p' = chunk_cap_of p" "pool_page_bytes p' = pool_page_bytes p" "store_view xxh p \<subseteq>\<^sub>m store_view xxh p'"
  using assms store_frame_sel [of p p'] by (auto simp: store.extends_def chunk_cap_of_def pool_page_bytes_def)

text \<open>A field of the body read from the whole buffer.\<close>

lemma body_fields:
  assumes "page_body buf = b"
  shows "i + n \<le> length b \<Longrightarrow> slice buf i n = slice b i n"
    and "i + 1 \<le> length b \<Longrightarrow> read_u8 buf i = Inr (u8_at b i)"
    and "i + 4 \<le> length b \<Longrightarrow> read_u32 buf i = Inr (u32_at b i)"
    and "i + n \<le> length b \<Longrightarrow> read_vec buf i n = Inr (slice b i n)"
proof -
  have len: "length b \<le> length buf" using assms by (auto simp: page_body_def)
  have s: "slice buf i n = slice b i n" if "i + n \<le> length b" for i n
    using that assms by (auto simp: page_body_def slice_take)
  then show "i + n \<le> length b \<Longrightarrow> slice buf i n = slice b i n" by simp
  show "i + 1 \<le> length b \<Longrightarrow> read_u8 buf i = Inr (u8_at b i)" "i + 4 \<le> length b \<Longrightarrow> read_u32 buf i = Inr (u32_at b i)"
    "i + n \<le> length b \<Longrightarrow> read_vec buf i n = Inr (slice b i n)"
    using len s by (simp_all add: read_oks field_at_defs)
qed

lemma read_chain_loop_chain:
  assumes "chain v cap pid bs" "store_inv xxh p" "v \<subseteq>\<^sub>m store_view xxh p" "cap = chunk_cap_of p"
  shows "\<exists>p'. read_chain_loop xxh (length out + length bs) pid out p = Some (Inr (out @ bs), p') \<and>
    store.extends xxh p p' \<and> bp_next_page_id p' = bp_next_page_id p"
  using assms
proof (induction arbitrary: out p rule: chain.induct)
  case chain_end
  then show ?case using store.extends_refl by (auto simp: read_chain_loop.simps)
next
  case (chain_page pid b next_id chunk rest)
  have "store_view xxh p pid = Some b" using chain_page.hyps(1) chain_page.prems(2) by (auto simp: map_le_def dom_def)
  with chain_page.prems(1) obtain buf p1 where g: "pool_get xxh pid p = (Inr buf, p1)" "page_body buf = b"
    "store.extends xxh p p1" "bp_next_page_id p1 = bp_next_page_id p"
    by (rule store.get_page)
  note E = extends_frame [OF g(3)]
  have cap: "overflow_chunk_cap (page_bytes (pool_page_size p1)) = cap"
    using chain_page.prems(3) E(4) by (simp add: chunk_cap_of_def)
  have rd: "read_u8 buf 0 = Inr PAGE_TYPE_OVERFLOW" "read_u32 buf 1 = Inr next_id"
    using body_fields(2) [OF g(2), of 0] body_fields(3) [OF g(2), of 1] chain_page.hyps(3,4,5) chain_page.prems(1,3)
      chunk_cap_of_bounds [OF chain_page.prems(1)] by simp_all
  have take: "min (length (chunk @ rest)) cap = length chunk"
    using chain_page.hyps(7,8) by (cases "rest = []") auto
  have vec: "read_vec buf 5 (length chunk) = Inr chunk"
    using body_fields(4) [OF g(2), of 5 "length chunk"] chain_page.hyps(5,7,9) by simp
  have sub: "v \<subseteq>\<^sub>m store_view xxh p1" using chain_page.prems(2) E(6) by (rule map_le_trans)
  obtain p' where IH: "read_chain_loop xxh (length (out @ chunk) + length rest) next_id (out @ chunk) p1 =
      Some (Inr ((out @ chunk) @ rest), p')" "store.extends xxh p1 p'" "bp_next_page_id p' = bp_next_page_id p1"
    using chain_page.IH [OF E(1) sub, of "out @ chunk"] chain_page.prems(3) E(4) by auto
  have "read_chain_loop xxh (length out + length (chunk @ rest)) pid out p =
      read_chain_loop xxh (length (out @ chunk) + length rest) next_id (out @ chunk) p1"
    using chain_page.hyps(2,6) rd vec take cap
    by (subst read_chain_loop.simps)
      (simp add: g(1) dbind_def dlift_def dpure_def expect_page_type_def Let_def layout_consts add.assoc)
  with IH g(4) store.extends_trans [OF g(3) IH(2)] show ?case by auto
qed

section \<open>Writing a chain\<close>

function chunk_list :: "nat \<Rightarrow> bytes \<Rightarrow> bytes list" where
  "chunk_list cap bs = (if bs = [] \<or> cap = 0 then [] else take cap bs # chunk_list cap (drop cap bs))"
  by pat_completeness auto
termination
  by (relation "measure (\<lambda>(cap, bs). length bs)") auto

declare chunk_list.simps [simp del]

lemma chunk_loop_list:
  assumes "0 < cap" "start \<le> length tail"
  shows "chunk_loop cap tail start acc = Some (Inr (acc @ chunk_list cap (drop start tail)))"
  using assms(2)
proof (induction "length tail - start" arbitrary: start acc rule: less_induct)
  case less
  show ?case
  proof (cases "start < length tail")
    case False
    then show ?thesis by (simp add: chunk_loop.simps chunk_list.simps)
  next
    case True
    let ?fin = "min (start + cap) (length tail)"
    have "chunk_loop cap tail start acc = chunk_loop cap tail ?fin (acc @ [take cap (drop start tail)])"
      using True less.prems by (subst chunk_loop.simps) (auto simp: get_range_def Let_def min_def)
    also have "\<dots> = Some (Inr ((acc @ [take cap (drop start tail)]) @ chunk_list cap (drop ?fin tail)))"
      using True assms(1) by (intro less.hyps) auto
    also have "drop ?fin tail = drop cap (drop start tail)"
      by (simp add: min_def add.commute)
    finally show ?thesis
      using True assms(1) by (simp add: chunk_list.simps [of cap "drop start tail"])
  qed
qed

lemma concat_chunk_list: "0 < cap \<Longrightarrow> concat (chunk_list cap bs) = bs"
proof (induction cap bs rule: chunk_list.induct)
  case (1 cap bs)
  show ?case
  proof (cases "bs = []")
    case True
    then show ?thesis by (simp add: chunk_list.simps)
  next
    case False
    then show ?thesis using 1 by (simp add: chunk_list.simps [of cap bs])
  qed
qed

lemma length_chunk_list: "0 < cap \<Longrightarrow> length (chunk_list cap bs) \<le> length bs"
proof (induction cap bs rule: chunk_list.induct)
  case (1 cap bs)
  show ?case
  proof (cases "bs = []")
    case True
    then show ?thesis by (simp add: chunk_list.simps)
  next
    case False
    then have "length (chunk_list cap (drop cap bs)) \<le> length (drop cap bs)" using 1 by simp
    moreover have "length bs - cap < length bs" using False 1(2) by simp
    ultimately have "Suc (length (chunk_list cap (drop cap bs))) \<le> length bs" by simp
    then show ?thesis using False 1(2) by (simp add: chunk_list.simps [of cap bs])
  qed
qed

text \<open>Chunks that can be linked one by one in front of \<open>rest\<close>.\<close>

fun linkable :: "nat \<Rightarrow> bytes list \<Rightarrow> bytes \<Rightarrow> bool" where
  "linkable cap [] rest = True"
| "linkable cap (c # cs) rest =
     (c \<noteq> [] \<and> length c \<le> cap \<and> (rest \<noteq> [] \<longrightarrow> length c = cap) \<and> linkable cap cs (c @ rest))"

lemma linkable_snoc:
  "linkable cap (cs @ [c]) rest \<longleftrightarrow> linkable cap cs rest \<and> c \<noteq> [] \<and> length c \<le> cap \<and>
     (concat (rev cs) @ rest \<noteq> [] \<longrightarrow> length c = cap)"
  by (induction cs arbitrary: rest) auto

lemma linkable_chunk_list: "0 < cap \<Longrightarrow> linkable cap (rev (chunk_list cap bs)) []"
proof (induction cap bs rule: chunk_list.induct)
  case (1 cap bs)
  show ?case
  proof (cases "bs = []")
    case True
    then show ?thesis by (simp add: chunk_list.simps)
  next
    case False
    then have "linkable cap (rev (chunk_list cap (drop cap bs))) []" using 1 by simp
    then show ?thesis
      using False 1(2) by (simp add: chunk_list.simps [of cap bs] linkable_snoc concat_chunk_list)
  qed
qed

lemma overflow_page_ok:
  assumes "5 + length chunk \<le> len" "13 \<le> len"
  obtains buf where "overflow_page len next_id chunk = Inr buf" "length buf = len"
    "u8_at buf 0 = PAGE_TYPE_OVERFLOW" "u32_at buf 1 = next_id" "slice buf 5 (length chunk) = chunk"
proof -
  define b1 where "b1 = put_at (replicate len 0) 0 [PAGE_TYPE_OVERFLOW]"
  define b2 where "b2 = put_at b1 1 (to_be_bytes 4 next_id)"
  define b3 where "b3 = put_at b2 5 chunk"
  have l: "length b1 = len" "length b2 = len" "length b3 = len"
    using assms by (simp_all add: b1_def b2_def b3_def)
  have "overflow_page len next_id chunk = Inr b3"
    using assms l by (simp add: overflow_page_def write_oks layout_consts b1_def b2_def b3_def)
  moreover have "u32_at b3 1 = next_id" "slice b3 5 (length chunk) = chunk" "u8_at b3 0 = PAGE_TYPE_OVERFLOW"
    using assms l
    by (simp_all add: b3_def b2_def field_at_put_same field_at_put_other slice_put_at_same,
        simp add: b1_def field_at_put_same)
  ultimately show thesis using that l by blast
qed

lemma page_id_left: "unat (n :: u32) + k < 2 ^ 32 \<Longrightarrow> 0 < k \<Longrightarrow> n \<noteq> - 1 \<and> unat (n + 1) + (k - 1) < 2 ^ 32"
proof -
  assume k: "unat n + k < 2 ^ 32" "0 < k"
  have "n \<noteq> - 1"
  proof
    assume "n = - 1"
    then have "unat n = 2 ^ 32 - 1" by (simp add: unsigned_minus_1_eq_mask mask_eq_exp_minus_1)
    with k show False by simp
  qed
  with k unat_next show ?thesis by fastforce
qed

lemma link_chunks_chain:
  assumes "linkable cap chunks rest" "chain (store_view xxh p) cap next_id rest" "store_inv xxh p"
    and "cap = chunk_cap_of p" "unat (bp_next_page_id p) + length chunks < 2 ^ 32"
  shows "\<exists>first p'. link_chunks xxh chunks next_id p = (Inr first, p') \<and>
    chain (store_view xxh p') cap first (concat (rev chunks) @ rest) \<and> store.extends xxh p p' \<and>
    unat (bp_next_page_id p') = unat (bp_next_page_id p) + length chunks"
  using assms
proof (induction chunks arbitrary: next_id rest p)
  case Nil
  then show ?case using store.extends_refl by auto
next
  case (Cons c cs)
  have cap: "cap + 13 = pool_page_bytes p" using chunk_cap_of_bounds [OF Cons.prems(3)] Cons.prems(4) by simp
  have lens: "5 + length c \<le> pool_page_bytes p" "13 \<le> pool_page_bytes p" using cap Cons.prems(1) by auto
  then obtain buf where buf: "overflow_page (pool_page_bytes p) next_id c = Inr buf" "length buf = pool_page_bytes p"
    "u8_at buf 0 = PAGE_TYPE_OVERFLOW" "u32_at buf 1 = next_id" "slice buf 5 (length c) = c"
    by (rule overflow_page_ok [where next_id = next_id])
  have ids: "bp_next_page_id p \<noteq> - 1" "unat (bp_next_page_id p + 1) + length cs < 2 ^ 32"
    using page_id_left [OF Cons.prems(5)] by simp_all
  from Cons.prems(3) buf(2) ids(1) obtain p1 p2 where put: "allocate_page_id p = (Inr (bp_next_page_id p), p1)"
    "put_new xxh (bp_next_page_id p) buf p1 = (Inr (), p2)" "store.extends xxh p p2"
    "bp_next_page_id p2 = bp_next_page_id p + 1" "store_view xxh p2 (bp_next_page_id p) = Some (page_body buf)"
    by (rule store.put_page)
  note E = extends_frame [OF put(3)]
  have body: "slice (page_body buf) i n = slice buf i n" if "i + n \<le> 5 + cap" for i n
    using slice_page_body [of i n buf] that cap buf(2) by simp
  have "chain (store_view xxh p2) cap (bp_next_page_id p) (c @ rest)"
  proof (rule chain_page [where b = "page_body buf" and next_id = next_id])
    show "store_view xxh p2 (bp_next_page_id p) = Some (page_body buf)" by (rule put(5))
    show "bp_next_page_id p \<noteq> 0" using Cons.prems(3) by (auto simp: store_inv_def store_ok_def)
    show "u8_at (page_body buf) 0 = PAGE_TYPE_OVERFLOW" "u32_at (page_body buf) 1 = next_id"
      using body [of 0 1] body [of 1 4] buf(3,4) Cons.prems(1) by (simp_all add: field_at_defs)
    show "5 + cap \<le> length (page_body buf)" using cap buf(2) by (simp add: page_body_length)
    show "slice (page_body buf) 5 (length c) = c" using body [of 5 "length c"] buf(5) Cons.prems(1) by simp
    show "chain (store_view xxh p2) cap next_id rest" using chain_mono [OF Cons.prems(2) E(6)] .
  qed (use Cons.prems(1) in simp_all)
  moreover have "linkable cap cs (c @ rest)" using Cons.prems(1) by simp
  moreover have "unat (bp_next_page_id p2) + length cs < 2 ^ 32" using ids(2) put(4) by simp
  moreover have "cap = chunk_cap_of p2" using Cons.prems(4) E(4) by simp
  ultimately obtain first p' where IH: "link_chunks xxh cs (bp_next_page_id p) p2 = (Inr first, p')"
    "chain (store_view xxh p') cap first (concat (rev cs) @ c @ rest)" "store.extends xxh p2 p'"
    "unat (bp_next_page_id p') = unat (bp_next_page_id p2) + length cs"
    using Cons.IH E(1) by blast
  have "link_chunks xxh (c # cs) next_id p = (Inr first, p')"
    using buf(1) put(1,2) IH(1) by (simp add: sbind_def spure_def pool_page_bytes_def)
  moreover have "store.extends xxh p p'" using put(3) IH(3) by (rule store.extends_trans)
  ultimately show ?case using IH(2,4) put(4) unat_next [OF ids(1)] by auto
qed

lemma write_overflow_chain_ok:
  assumes "store_inv xxh p" "unat (bp_next_page_id p) + length tail < 2 ^ 32"
  obtains first p' where "write_overflow_chain xxh tail p = Some (Inr first, p')" "store.extends xxh p p'"
    "chain (store_view xxh p') (chunk_cap_of p) first tail" "first = 0 \<longleftrightarrow> tail = []"
    "unat (bp_next_page_id p') \<le> unat (bp_next_page_id p) + length tail"
proof (cases "tail = []")
  case True
  with that assms(1) show thesis
    using store.extends_refl [OF assms(1)] chain_end by (simp add: write_overflow_chain_def)
next
  case False
  let ?cap = "chunk_cap_of p" and ?cl = "chunk_list (chunk_cap_of p) tail"
  have cap: "0 < ?cap" using chunk_cap_of_bounds [OF assms(1)] by simp
  have len: "length ?cl \<le> length tail" using cap by (rule length_chunk_list)
  then have "unat (bp_next_page_id p) + length (rev ?cl) < 2 ^ 32" using assms(2) by simp
  from link_chunks_chain [OF linkable_chunk_list [OF cap] chain_end assms(1) refl this] obtain first p' where
    L: "link_chunks xxh (rev ?cl) 0 p = (Inr first, p')" "chain (store_view xxh p') ?cap first (concat (rev (rev ?cl)) @ [])"
      "store.extends xxh p p'" "unat (bp_next_page_id p') = unat (bp_next_page_id p) + length (rev ?cl)"
    by blast
  have c: "chain (store_view xxh p') ?cap first tail" using L(2) cap by (simp add: concat_chunk_list)
  have "first \<noteq> 0"
  proof
    assume "first = 0"
    with c show False using False by (auto elim: chain.cases)
  qed
  moreover have "write_overflow_chain xxh tail p = Some (Inr first, p')"
    using False L(1) chunk_loop_list [OF cap, of 0 tail "[]"]
    by (simp add: write_overflow_chain_def dbind_def dpure_def dlift_def chunk_cap_of_def)
  ultimately show thesis using that c False L(3,4) len by simp
qed

section \<open>Rows in cells\<close>

text \<open>A leaf cell whose payload, local bytes and chain together, decodes to \<open>row\<close>.\<close>

definition cell_holds :: "(u32 \<Rightarrow> bytes option) \<Rightarrow> nat \<Rightarrow> u32 \<Rightarrow> bytes \<Rightarrow> row \<Rightarrow> bool" where
  "cell_holds v cap ml c row \<longleftrightarrow> leaf_cell_wf ml c \<and>
     (if cell_overflow c = 0 then row_decode (drop 16 c) = Inr row
      else \<exists>tail. chain v cap (cell_overflow c) tail \<and>
        length tail = unat (saturating_sub (cell_payload_len c) ml) \<and> row_decode (drop 16 c @ tail) = Inr row)"

lemma cell_holds_mono: "cell_holds v cap ml c row \<Longrightarrow> v \<subseteq>\<^sub>m w \<Longrightarrow> cell_holds w cap ml c row"
  using chain_mono by (fastforce simp: cell_holds_def split: if_splits)

definition max_local_of :: "pool \<Rightarrow> u32" where
  "max_local_of p = max_local (pool_page_size p)"

lemma unat_max_local_of: "store_inv xxh p \<Longrightarrow> unat (max_local_of p) = pool_page_bytes p - 43"
  using store_inv_page_size [of xxh p] unat_max_local [of "pool_page_size p"]
  by (simp add: max_local_of_def pool_page_bytes_def)

lemma extends_max_local: "store.extends xxh p p' \<Longrightarrow> max_local_of p' = max_local_of p"
  using extends_frame(2) [of xxh p p'] by (simp add: max_local_of_def)

lemma reassemble_holds:
  assumes "store_inv xxh p" "cell_holds (store_view xxh p) (chunk_cap_of p) (max_local_of p) c row"
  obtains bs p' where "reassemble xxh (parse_leaf_cell c) p = Some (Inr bs, p')" "row_decode bs = Inr row"
    "store.extends xxh p p'" "bp_next_page_id p' = bp_next_page_id p"
proof (cases "cell_overflow c = 0")
  case True
  with assms that [of "drop 16 c" p] store.extends_refl [OF assms(1)] show thesis
    by (simp add: reassemble_def parse_leaf_cell_def cell_holds_def)
next
  case False
  with assms(2) obtain tail where t: "chain (store_view xxh p) (chunk_cap_of p) (cell_overflow c) tail"
    "length tail = unat (saturating_sub (cell_payload_len c) (max_local_of p))" "row_decode (drop 16 c @ tail) = Inr row"
    by (auto simp: cell_holds_def)
  from read_chain_loop_chain [OF t(1) assms(1) map_le_refl refl, of "[]"] obtain p' where
    "read_chain_loop xxh (length tail) (cell_overflow c) [] p = Some (Inr tail, p')"
    "store.extends xxh p p'" "bp_next_page_id p' = bp_next_page_id p"
    by auto
  with False t that show thesis
    by (simp add: reassemble_def parse_leaf_cell_def read_overflow_chain_def dbind_def dpure_def max_local_of_def Let_def)
qed

lemma spill_ok:
  assumes "store_inv xxh p" "unat (bp_next_page_id p) + length bs < 2 ^ 32"
  obtains local first p' where "spill_if_needed xxh bs p = Some (Inr (local, first), p')" "store.extends xxh p p'"
    "local = take (unat (max_local_of p)) bs" "first = 0 \<longleftrightarrow> length bs \<le> unat (max_local_of p)"
    "chain (store_view xxh p') (chunk_cap_of p) first (drop (unat (max_local_of p)) bs)"
    "unat (bp_next_page_id p') \<le> unat (bp_next_page_id p) + length bs"
proof (cases "length bs \<le> unat (max_local_of p)")
  case True
  with that [of bs 0 p] store.extends_refl [OF assms(1)] chain_end show thesis
    by (simp add: spill_if_needed_def max_local_of_def)
next
  case False
  let ?m = "unat (max_local_of p)" and ?tail = "drop (unat (max_local_of p)) bs"
  have "unat (bp_next_page_id p) + length ?tail < 2 ^ 32" using assms(2) by simp
  with assms(1) obtain first p' where W: "write_overflow_chain xxh ?tail p = Some (Inr first, p')" "store.extends xxh p p'"
    "chain (store_view xxh p') (chunk_cap_of p) first ?tail" "first = 0 \<longleftrightarrow> ?tail = []"
    "unat (bp_next_page_id p') \<le> unat (bp_next_page_id p) + length ?tail"
    by (rule write_overflow_chain_ok)
  have "get_range bs 0 ?m = Some (take ?m bs)" "get_range bs ?m (length bs) = Some ?tail"
    using False by (simp_all add: get_range_def)
  then have "spill_if_needed xxh bs p = Some (Inr (take ?m bs, first), p')"
    using False W(1) by (simp add: spill_if_needed_def max_local_of_def [symmetric] dbind_def dpure_def Let_def)
  then show thesis using that W False by simp
qed

text \<open>The bytes a row takes on its leaf page: the fixed part of a cell and what is not spilled.\<close>

definition row_cell_len :: "pool \<Rightarrow> row \<Rightarrow> nat" where
  "row_cell_len p row = 16 + min (length (row_bytes row)) (unat (max_local_of p))"

lemma build_row_cell_fields:
  assumes "store_inv xxh p" "row_fits row" "row_wf row"
    and "unat (bp_next_page_id p) + length (row_bytes row) < 2 ^ 32"
  obtains c p' where "build_row_cell xxh key row p = Some (Inr c, p')" "store.extends xxh p p'" "cell_key c = key"
    "cell_holds (store_view xxh p') (chunk_cap_of p) (max_local_of p) c row"
    "length c = row_cell_len p row"
    "unat (bp_next_page_id p') \<le> unat (bp_next_page_id p) + length (row_bytes row)"
    "unat (cell_payload_len c) = length (row_bytes row)"
    "cell_overflow c = 0 \<longleftrightarrow> length (row_bytes row) \<le> unat (max_local_of p)"
proof -
  let ?bs = "row_bytes row" and ?ml = "max_local_of p"
  from assms(1,4) obtain local first p' where S: "spill_if_needed xxh ?bs p = Some (Inr (local, first), p')"
    "store.extends xxh p p'" "local = take (unat ?ml) ?bs" "first = 0 \<longleftrightarrow> length ?bs \<le> unat ?ml"
    "chain (store_view xxh p') (chunk_cap_of p) first (drop (unat ?ml) ?bs)"
    "unat (bp_next_page_id p') \<le> unat (bp_next_page_id p) + length ?bs"
    by (rule spill_ok)
  let ?pl = "u32_from (length ?bs) (- 1)" and ?c = "build_leaf_cell key (u32_from (length ?bs) (- 1)) first local"
  have pl: "unat ?pl = length ?bs" using assms(4) by (simp add: u32_from_def unat_of_nat)
  have "unat (leaf_local_len ?pl ?ml) = min (length ?bs) (unat ?ml)"
    by (simp add: leaf_local_len_def min_def word_le_nat_alt pl)
  then have wf: "leaf_cell_wf ?ml ?c" by (simp add: leaf_cell_wf_def S(3) min.commute)
  have local: "drop 16 ?c = local" using arg_cong [OF parse_build_leaf_cell, of lc_local] by (simp add: parse_leaf_cell_def)
  have dec: "row_decode ?bs = Inr row" using row_decode_bytes [OF assms(2,3), of "[]"] by simp
  have "cell_holds (store_view xxh p') (chunk_cap_of p) ?ml ?c row"
  proof (cases "first = 0")
    case True
    with wf local dec S(3,4) show ?thesis by (simp add: cell_holds_def)
  next
    case False
    then have "length (drop (unat ?ml) ?bs) = unat (saturating_sub ?pl ?ml)"
      using S(4) pl by (simp add: saturating_sub_def word_le_nat_alt unat_sub)
    moreover have "row_decode (local @ drop (unat ?ml) ?bs) = Inr row" using dec S(3) by simp
    ultimately show ?thesis using False wf local S(5) unfolding cell_holds_def by auto
  qed
  moreover have "build_row_cell xxh key row p = Some (Inr ?c, p')"
    using S(1) by (simp add: build_row_cell_def row_encode_fits [OF assms(2)] dbind_def dpure_def)
  moreover have "length ?c = row_cell_len p row" by (simp add: S(3) row_cell_len_def min.commute)
  moreover have "unat (cell_payload_len ?c) = length ?bs" "cell_overflow ?c = first"
    using arg_cong [OF parse_build_leaf_cell, of lc_payload_len] arg_cong [OF parse_build_leaf_cell, of lc_overflow_first] pl
    by (simp_all add: parse_leaf_cell_def)
  ultimately show thesis using that S(2,4,6) by simp
qed

lemma build_row_cell_ok:
  assumes "store_inv xxh p" "row_fits row" "row_wf row"
    and "unat (bp_next_page_id p) + length (row_bytes row) < 2 ^ 32"
  obtains c p' where "build_row_cell xxh key row p = Some (Inr c, p')" "store.extends xxh p p'" "cell_key c = key"
    "cell_holds (store_view xxh p') (chunk_cap_of p) (max_local_of p) c row"
    "length c = row_cell_len p row"
    "unat (bp_next_page_id p') \<le> unat (bp_next_page_id p) + length (row_bytes row)"
  by (rule build_row_cell_fields [OF assms]) (rule that)

end
