(* ===== verification/Mutate.thy ===== *)
theory Mutate
  imports Overflow
begin

text \<open>
  \<open>crates/pinax/src/btree/mutate.rs\<close>: the descent to a leaf, the propagation of a
  replaced or split child through the ancestors, and the root of the new version. The descent
  follows child pointers until it meets a leaf, so a cyclic file would keep it going: it is a
  partial function.
\<close>

datatype node_result = Replaced u32 | Split u32 u32 i64

partial_function (option) descend_loop :: "(bytes \<Rightarrow> u64) \<Rightarrow> i64 \<Rightarrow> u32 list \<Rightarrow> u32 \<Rightarrow> (u32 list) pdmethod" where
  "descend_loop xxh key path current p =
     dbind (dlift (pool_get xxh current)) (\<lambda>buf.
     dbind (dpure (read_u8 buf 0)) (\<lambda>page_type p.
       if page_type = PAGE_TYPE_LEAF then dpure (Inr path) p
       else
         dbind (dpure (expect_page_type current buf PAGE_TYPE_INTERIOR ''interior'')) (\<lambda>_.
         dbind (dpure (interior_find_child_for_key buf key)) (\<lambda>child.
           descend_loop xxh key (path @ [child]) child)) p)) p"

definition descend_path :: "(bytes \<Rightarrow> u64) \<Rightarrow> u32 \<Rightarrow> i64 \<Rightarrow> (u32 list) pdmethod" where
  "descend_path xxh root key = descend_loop xxh key [root] root"

fun interior_entries_from :: "bytes \<Rightarrow> nat list \<Rightarrow> i64 list \<Rightarrow> u32 list \<Rightarrow> (i64 list \<times> u32 list) presult" where
  "interior_entries_from buf [] keys children =
     rbind (interior_rightmost buf) (\<lambda>r. Inr (keys, children @ [r]))"
| "interior_entries_from buf (i # is) keys children =
     rbind (interior_key_at buf i) (\<lambda>k.
     rbind (interior_child_at buf i) (\<lambda>c.
       interior_entries_from buf is (keys @ [k]) (children @ [c])))"

definition interior_entries :: "bytes \<Rightarrow> (i64 list \<times> u32 list) presult" where
  "interior_entries buf = rbind (num_cells buf) (\<lambda>n. interior_entries_from buf [0..<unat n] [] [])"

text \<open>\<open>slice.get(i).unwrap_or(&d)\<close>.\<close>

definition get_or :: "'a list \<Rightarrow> nat \<Rightarrow> 'a \<Rightarrow> 'a" where
  "get_or xs i d = (if i < length xs then xs ! i else d)"

fun insert_interior_cells :: "u32 list \<Rightarrow> nat \<Rightarrow> i64 list \<Rightarrow> bytes \<Rightarrow> bytes presult" where
  "insert_interior_cells children i [] buf = Inr buf"
| "insert_interior_cells children i (key # keys) buf =
     rbind (insert_cell_at buf INTERIOR_HEADER_LEN i (build_interior_cell key (get_or children i 0))) (\<lambda>buf.
       insert_interior_cells children (i + 1) keys buf)"

definition build_interior_page :: "nat \<Rightarrow> i64 list \<Rightarrow> u32 list \<Rightarrow> bytes presult" where
  "build_interior_page page_len keys children =
     (let rightmost = (if children = [] then 0 else last children) in
      rbind (init_interior (replicate page_len 0) rightmost) (\<lambda>buf.
        insert_interior_cells children 0 keys buf))"

text \<open>\<open>Vec::insert\<close>, and \<open>iter().position\<close>.\<close>

definition list_insert :: "nat \<Rightarrow> 'a \<Rightarrow> 'a list \<Rightarrow> 'a list" where
  "list_insert i x xs = take i xs @ x # drop i xs"

fun position_of :: "'a \<Rightarrow> 'a list \<Rightarrow> nat option" where
  "position_of x [] = None"
| "position_of x (y # ys) = (if y = x then Some 0 else map_option Suc (position_of x ys))"

definition splice_split_into_entries ::
    "i64 list \<Rightarrow> u32 list \<Rightarrow> u32 \<Rightarrow> i64 \<Rightarrow> u32 \<Rightarrow> u32 \<Rightarrow> i64 list \<times> u32 list" where
  "splice_split_into_entries keys children old_child_id separator_key left_child right_child =
     (let position = (case position_of old_child_id children of Some i \<Rightarrow> i | None \<Rightarrow> length children - 1);
          children' = list_insert position left_child children
      in (list_insert position separator_key keys, children'[position + 1 := right_child]))"

definition max_interior_entries :: "nat \<Rightarrow> nat" where
  "max_interior_entries page_len =
     (let usable = page_len - 8; per_cell = INTERIOR_CELL_LEN + POINTER_LEN
      in (usable - INTERIOR_HEADER_LEN) div max per_cell 1)"

definition put_page :: "(bytes \<Rightarrow> u64) \<Rightarrow> bytes \<Rightarrow> u32 pmethod" where
  "put_page xxh buf =
     sbind allocate_page_id (\<lambda>pid. sbind (put_new xxh pid buf) (\<lambda>_. spure (Inr pid)))"

definition split_interior_entries ::
    "(bytes \<Rightarrow> u64) \<Rightarrow> nat \<Rightarrow> i64 list \<Rightarrow> u32 list \<Rightarrow> node_result pmethod" where
  "split_interior_entries xxh page_len keys children =
     (let mid = length keys div 2 in
      sbind (spure (if mid < length keys then Inr (keys ! mid)
                    else Inl (buffer_bounds mid 1 (length keys)))) (\<lambda>promoted.
      let left_keys = (case get_range keys 0 mid of Some ks \<Rightarrow> ks | None \<Rightarrow> []);
          left_children = (case get_range children 0 (mid + 1) of Some cs \<Rightarrow> cs | None \<Rightarrow> []);
          right_keys = (case get_range keys (mid + 1) (length keys) of Some ks \<Rightarrow> ks | None \<Rightarrow> []);
          right_children = (case get_range children (mid + 1) (length children) of Some cs \<Rightarrow> cs | None \<Rightarrow> [])
      in sbind (spure (build_interior_page page_len left_keys left_children)) (\<lambda>left_buf.
         sbind (spure (build_interior_page page_len right_keys right_children)) (\<lambda>right_buf.
         sbind (put_page xxh left_buf) (\<lambda>left_id.
         sbind (put_page xxh right_buf) (\<lambda>right_id.
           spure (Inr (Split left_id right_id promoted))))))))"

definition replace_child :: "bytes \<Rightarrow> u32 \<Rightarrow> u32 \<Rightarrow> bytes presult" where
  "replace_child buf old_child_id new_child =
     rbind (interior_find_child_slot buf old_child_id) (\<lambda>slot.
       case slot of
         Cell idx \<Rightarrow> interior_set_child_at buf idx new_child
       | Rightmost \<Rightarrow> interior_set_rightmost buf new_child)"

definition apply_result_to_interior ::
    "(bytes \<Rightarrow> u64) \<Rightarrow> u32 \<Rightarrow> u32 \<Rightarrow> node_result \<Rightarrow> node_result pmethod" where
  "apply_result_to_interior xxh ancestor_id old_child_id result p =
     (let page_len = bytes_usize (pool_page_size p) in
      case result of
        Replaced new_child \<Rightarrow>
          sbind (pool_get xxh ancestor_id) (\<lambda>buf.
          sbind (spure (replace_child buf old_child_id new_child)) (\<lambda>buf.
          sbind (put_page xxh buf) (\<lambda>new_id.
            spure (Inr (Replaced new_id))))) p
      | Split left right separator_key \<Rightarrow>
          sbind (pool_get xxh ancestor_id) (\<lambda>buf.
          sbind (spure (interior_entries buf)) (\<lambda>(keys, children).
          let (keys, children) = splice_split_into_entries keys children old_child_id separator_key left right
          in if length keys \<le> max_interior_entries page_len then
               sbind (spure (build_interior_page page_len keys children)) (\<lambda>rebuilt.
               sbind (put_page xxh rebuilt) (\<lambda>new_id.
                 spure (Inr (Replaced new_id))))
             else split_interior_entries xxh page_len keys children)) p)"

definition finalize_root :: "(bytes \<Rightarrow> u64) \<Rightarrow> node_result \<Rightarrow> u32 pmethod" where
  "finalize_root xxh result p =
     (case result of
        Replaced pid \<Rightarrow> (Inr pid, p)
      | Split left right separator_key \<Rightarrow>
          sbind (spure (init_interior (replicate (bytes_usize (pool_page_size p)) 0) right)) (\<lambda>buf.
          sbind (spure (insert_cell_at buf INTERIOR_HEADER_LEN 0 (build_interior_cell separator_key left))) (\<lambda>buf.
            put_page xxh buf)) p)"

definition collapse_root_if_needed :: "(bytes \<Rightarrow> u64) \<Rightarrow> u32 \<Rightarrow> u32 pmethod" where
  "collapse_root_if_needed xxh root =
     sbind (pool_get xxh root) (\<lambda>buf.
       spure (rbind (read_u8 buf 0) (\<lambda>page_type.
         if page_type \<noteq> PAGE_TYPE_INTERIOR then Inr root
         else rbind (num_cells buf) (\<lambda>n.
           if n = 0 then interior_rightmost buf else Inr root))))"

end
