(* ===== verification/BTree.thy ===== *)
theory BTree
  imports Mutate
begin

text \<open>
  \<open>crates/pinax/src/btree/mod.rs\<close>: the operations of the copy-on-write B+tree. Each is
  the whole operation, up to and including the commit of the new root.
\<close>

section \<open>Leaf insertion\<close>

fun insert_leaf_cells :: "nat \<Rightarrow> bytes list \<Rightarrow> bytes \<Rightarrow> bytes presult" where
  "insert_leaf_cells i [] buf = Inr buf"
| "insert_leaf_cells i (cell # cells) buf =
     rbind (insert_cell_at buf LEAF_HEADER_LEN i cell) (\<lambda>buf. insert_leaf_cells (i + 1) cells buf)"

fun collect_leaf_cells :: "bytes \<Rightarrow> u32 \<Rightarrow> nat list \<Rightarrow> bytes list presult" where
  "collect_leaf_cells buf max_loc [] = Inr []"
| "collect_leaf_cells buf max_loc (i # is) =
     rbind (pointer_at buf LEAF_HEADER_LEN i) (\<lambda>offset.
     rbind (leaf_cell_byte_len buf i max_loc) (\<lambda>len.
     rbind (read_vec buf (unat offset) (unat len)) (\<lambda>cell.
     rbind (collect_leaf_cells buf max_loc is) (\<lambda>cells.
       Inr (cell # cells)))))"

definition build_leaf_page :: "nat \<Rightarrow> bytes list \<Rightarrow> bytes presult" where
  "build_leaf_page page_len cells =
     rbind (init_leaf (replicate page_len 0)) (\<lambda>buf. insert_leaf_cells 0 cells buf)"

definition leaf_split_with_new_cell ::
    "(bytes \<Rightarrow> u64) \<Rightarrow> bytes \<Rightarrow> nat \<Rightarrow> bytes \<Rightarrow> node_result pmethod" where
  "leaf_split_with_new_cell xxh leaf_buf insert_idx new_cell p =
     (let page_len = bytes_usize (pool_page_size p); max_loc = max_local (pool_page_size p) in
      sbind (spure (num_cells leaf_buf)) (\<lambda>n.
      sbind (spure (collect_leaf_cells leaf_buf max_loc [0..<unat n])) (\<lambda>cells.
      let clamped_idx = min insert_idx (length cells);
          all_cells = list_insert clamped_idx new_cell cells;
          mid = length all_cells div 2;
          left_half = take mid all_cells;
          right_half = drop mid all_cells
      in sbind (spure (build_leaf_page page_len left_half)) (\<lambda>left_buf.
         sbind (spure (build_leaf_page page_len right_half)) (\<lambda>right_buf.
         sbind (spure (case right_half of
                         [] \<Rightarrow> Inl (buffer_bounds 0 1 0)
                       | c # _ \<Rightarrow> read_i64 c 0)) (\<lambda>separator_key.
         sbind (put_page xxh left_buf) (\<lambda>left_id.
         sbind (put_page xxh right_buf) (\<lambda>right_id.
           spure (Inr (Split left_id right_id separator_key))))))))) p)"

definition leaf_insert_or_split ::
    "(bytes \<Rightarrow> u64) \<Rightarrow> bytes \<Rightarrow> nat \<Rightarrow> bytes \<Rightarrow> node_result pmethod" where
  "leaf_insert_or_split xxh leaf_buf insert_idx cell =
     (let needed = u16_from (length cell + POINTER_LEN) (- 1) in
      sbind (spure (free_space leaf_buf LEAF_HEADER_LEN)) (\<lambda>free.
        if needed \<le> free then
          sbind (spure (insert_cell_at leaf_buf LEAF_HEADER_LEN insert_idx cell)) (\<lambda>buf.
          sbind (put_page xxh buf) (\<lambda>pid.
            spure (Inr (Replaced pid))))
        else leaf_split_with_new_cell xxh leaf_buf insert_idx cell))"

text \<open>The loop over the ancestors, nearest first.\<close>

fun propagate :: "(bytes \<Rightarrow> u64) \<Rightarrow> u32 list \<Rightarrow> u32 \<Rightarrow> node_result \<Rightarrow> node_result pmethod" where
  "propagate xxh [] old_child_id result p = (Inr result, p)"
| "propagate xxh (ancestor_id # ancestors) old_child_id result p =
     sbind (apply_result_to_interior xxh ancestor_id old_child_id result) (\<lambda>result.
       propagate xxh ancestors ancestor_id result) p"

definition path_leaf :: "u32 list \<Rightarrow> u32 presult" where
  "path_leaf path = (if path = [] then Inl (buffer_bounds 0 1 0) else Inr (last path))"

definition path_ancestors :: "u32 list \<Rightarrow> u32 list" where
  "path_ancestors path = rev (take (length path - 1) path)"

section \<open>The operations\<close>

definition btree_insert :: "(bytes \<Rightarrow> u64) \<Rightarrow> i64 \<Rightarrow> row \<Rightarrow> u32 pdmethod" where
  "btree_insert xxh key row p =
     (let root = pool_root_page_id p in
      if root = EMPTY_TREE_ROOT then
        dbind (build_row_cell xxh key row) (\<lambda>cell p.
        dbind (dpure (init_leaf (replicate (bytes_usize (pool_page_size p)) 0))) (\<lambda>buf.
        dbind (dpure (insert_cell_at buf LEAF_HEADER_LEN 0 cell)) (\<lambda>buf.
        dbind (dlift (put_page xxh buf)) (\<lambda>pid.
        dbind (dlift (pool_commit xxh pid)) (\<lambda>_.
          dpure (Inr pid))))) p) p
      else
        dbind (descend_path xxh root key) (\<lambda>path.
        dbind (dpure (path_leaf path)) (\<lambda>leaf_id.
        dbind (dlift (pool_get xxh leaf_id)) (\<lambda>leaf_buf.
        dbind (dpure (leaf_search leaf_buf key)) (\<lambda>found.
        dbind (dpure (case found of
                        Inr _ \<Rightarrow> Inl (Permanent (KeyAlreadyExists key))
                      | Inl idx \<Rightarrow> Inr idx)) (\<lambda>insert_idx.
        dbind (build_row_cell xxh key row) (\<lambda>cell.
        dbind (dlift (leaf_insert_or_split xxh leaf_buf insert_idx cell)) (\<lambda>result.
        dbind (dlift (propagate xxh (path_ancestors path) leaf_id result)) (\<lambda>result.
        dbind (dlift (finalize_root xxh result)) (\<lambda>new_root.
        dbind (dlift (pool_commit xxh new_root)) (\<lambda>_.
          dpure (Inr new_root))))))))))) p)"

partial_function (option) get_loop :: "(bytes \<Rightarrow> u64) \<Rightarrow> i64 \<Rightarrow> u32 \<Rightarrow> u32 \<Rightarrow> (row option) pdmethod" where
  "get_loop xxh key max_loc current p =
     dbind (dlift (pool_get xxh current)) (\<lambda>buf.
     dbind (dpure (read_u8 buf 0)) (\<lambda>page_type p.
       if page_type = PAGE_TYPE_LEAF then
         dbind (dpure (leaf_search buf key)) (\<lambda>found.
           case found of
             Inr idx \<Rightarrow>
               dbind (dpure (leaf_cell_at buf idx max_loc)) (\<lambda>cell.
               dbind (reassemble xxh cell) (\<lambda>full.
               dbind (dpure (row_decode full)) (\<lambda>row.
                 dpure (Inr (Some row)))))
           | Inl _ \<Rightarrow> dpure (Inr None)) p
       else
         dbind (dpure (expect_page_type current buf PAGE_TYPE_INTERIOR ''interior'')) (\<lambda>_.
         dbind (dpure (interior_find_child_for_key buf key)) (\<lambda>child.
           get_loop xxh key max_loc child)) p)) p"

definition btree_get :: "(bytes \<Rightarrow> u64) \<Rightarrow> i64 \<Rightarrow> (row option) pdmethod" where
  "btree_get xxh key p =
     (let root = pool_root_page_id p in
      if root = EMPTY_TREE_ROOT then Some (Inr None, p)
      else get_loop xxh key (max_local (pool_page_size p)) root p)"

text \<open>The descent and search that update and delete share.\<close>

definition find_key :: "(bytes \<Rightarrow> u64) \<Rightarrow> i64 \<Rightarrow> (u32 list \<times> u32 \<times> bytes \<times> nat) pdmethod" where
  "find_key xxh key p =
     (let root = pool_root_page_id p in
      if root = EMPTY_TREE_ROOT then Some (Inl (Permanent (KeyNotFound key)), p)
      else
        dbind (descend_path xxh root key) (\<lambda>path.
        dbind (dpure (path_leaf path)) (\<lambda>leaf_id.
        dbind (dlift (pool_get xxh leaf_id)) (\<lambda>leaf_buf.
        dbind (dpure (leaf_search leaf_buf key)) (\<lambda>found.
        dbind (dpure (case found of
                        Inr idx \<Rightarrow> Inr idx
                      | Inl _ \<Rightarrow> Inl (Permanent (KeyNotFound key)))) (\<lambda>idx.
          dpure (Inr (path, leaf_id, leaf_buf, idx))))))) p)"

definition btree_update :: "(bytes \<Rightarrow> u64) \<Rightarrow> i64 \<Rightarrow> row \<Rightarrow> u32 pdmethod" where
  "btree_update xxh key row =
     dbind (find_key xxh key) (\<lambda>(path, leaf_id, leaf_buf, idx).
     dbind (build_row_cell xxh key row) (\<lambda>new_cell.
     dbind (dpure (remove_cell_at leaf_buf LEAF_HEADER_LEN idx)) (\<lambda>(_, buf).
     dbind (dlift (leaf_insert_or_split xxh buf idx new_cell)) (\<lambda>result.
     dbind (dlift (propagate xxh (path_ancestors path) leaf_id result)) (\<lambda>result.
     dbind (dlift (finalize_root xxh result)) (\<lambda>new_root.
     dbind (dlift (pool_commit xxh new_root)) (\<lambda>_.
       dpure (Inr new_root))))))))"

definition btree_delete :: "(bytes \<Rightarrow> u64) \<Rightarrow> i64 \<Rightarrow> (u32 \<times> row) pdmethod" where
  "btree_delete xxh key p =
     (let max_loc = max_local (pool_page_size p) in
      dbind (find_key xxh key) (\<lambda>(path, leaf_id, leaf_buf, idx).
      dbind (dpure (leaf_cell_at leaf_buf idx max_loc)) (\<lambda>removed_cell.
      dbind (reassemble xxh removed_cell) (\<lambda>removed_full.
      dbind (dpure (row_decode removed_full)) (\<lambda>removed_row.
      dbind (dpure (remove_cell_at leaf_buf LEAF_HEADER_LEN idx)) (\<lambda>(_, buf).
      dbind (dlift (put_page xxh buf)) (\<lambda>new_leaf_id.
      dbind (dlift (propagate xxh (path_ancestors path) leaf_id (Replaced new_leaf_id))) (\<lambda>result.
      dbind (dlift (finalize_root xxh result)) (\<lambda>new_root.
      dbind (dlift (collapse_root_if_needed xxh new_root)) (\<lambda>new_root.
      dbind (dlift (pool_commit xxh new_root)) (\<lambda>_.
        dpure (Inr (new_root, removed_row)))))))))))) p)"

section \<open>Scanning\<close>

text \<open>A \<open>for\<close> loop whose body may not return and pushes onto \<open>out\<close>.\<close>

fun dfold :: "('acc \<Rightarrow> 'x \<Rightarrow> ('s, 'e, 'acc) dmethod) \<Rightarrow> 'acc \<Rightarrow> 'x list \<Rightarrow> ('s, 'e, 'acc) dmethod" where
  "dfold f acc [] s = Some (Inr acc, s)"
| "dfold f acc (x # xs) s = dbind (f acc x) (\<lambda>acc. dfold f acc xs) s"

lemma dfold_mono [partial_function_mono]:
  assumes "\<And>acc x s. mono_option (\<lambda>f. g f acc x s)"
  shows "mono_option (\<lambda>f. dfold (g f) acc xs s)"
proof (induction xs arbitrary: acc s)
  case Nil
  then show ?case by (simp add: monotone_def flat_ord_def)
next
  case (Cons x xs)
  have "mono_option (\<lambda>f. dbind (g f acc x) (\<lambda>acc. dfold (g f) acc xs) s)"
    by (rule dbind_mono [OF assms Cons])
  then show ?case by simp
qed

definition scan_cell ::
    "(bytes \<Rightarrow> u64) \<Rightarrow> bytes \<Rightarrow> u32 \<Rightarrow> (i64 \<times> row) list \<Rightarrow> nat \<Rightarrow> ((i64 \<times> row) list) pdmethod" where
  "scan_cell xxh buf max_loc out i =
     dbind (dpure (leaf_cell_at buf i max_loc)) (\<lambda>cell.
     dbind (reassemble xxh cell) (\<lambda>full.
     dbind (dpure (row_decode full)) (\<lambda>row.
       dpure (Inr (out @ [(lc_key cell, row)])))))"

partial_function (option) scan_node ::
    "(bytes \<Rightarrow> u64) \<Rightarrow> u32 \<Rightarrow> (i64 \<times> row) list \<Rightarrow> ((i64 \<times> row) list) pdmethod" where
  "scan_node xxh pid out p =
     dbind (dlift (pool_get xxh pid)) (\<lambda>buf.
     dbind (dpure (read_u8 buf 0)) (\<lambda>page_type p.
       if page_type = PAGE_TYPE_LEAF then
         dbind (dpure (num_cells buf)) (\<lambda>n.
           dfold (scan_cell xxh buf (max_local (pool_page_size p))) out [0..<unat n]) p
       else
         dbind (dpure (expect_page_type pid buf PAGE_TYPE_INTERIOR ''interior'')) (\<lambda>_.
         dbind (dpure (interior_entries buf)) (\<lambda>(_, children).
           dfold (\<lambda>out child. scan_node xxh child out) out children)) p)) p"

definition btree_scan :: "(bytes \<Rightarrow> u64) \<Rightarrow> ((i64 \<times> row) list) pdmethod" where
  "btree_scan xxh p =
     (let root = pool_root_page_id p in
      if root \<noteq> EMPTY_TREE_ROOT then scan_node xxh root [] p else Some (Inr [], p))"

end
