(* ===== verification/Tree_Rep.thy ===== *)
theory Tree_Rep
  imports BTree
begin

text \<open>
  The abstract tree behind the pages. A \<open>tree\<close> records the page id and the cells of
  every leaf and the separators of every interior node; \<open>stored v t\<close> says that the page
  store \<open>v\<close> holds it, \<open>bst lo hi t\<close> that its keys are where the separators route
  them. \<open>represents\<close> ties a pool and such a tree to the finite map the database promises.
\<close>

section \<open>Trees\<close>

datatype tree = Leaf u32 "bytes list" | Node u32 spine
  and spine = Last tree | Sep tree i64 spine

fun root_id :: "tree \<Rightarrow> u32" where
  "root_id (Leaf pid cs) = pid"
| "root_id (Node pid s) = pid"

fun tree_cells :: "tree \<Rightarrow> bytes list" and spine_leaf_cells :: "spine \<Rightarrow> bytes list" where
  "tree_cells (Leaf pid cs) = cs"
| "tree_cells (Node pid s) = spine_leaf_cells s"
| "spine_leaf_cells (Last t) = tree_cells t"
| "spine_leaf_cells (Sep t k s) = tree_cells t @ spine_leaf_cells s"

fun height :: "tree \<Rightarrow> nat" and spine_height :: "spine \<Rightarrow> nat" where
  "height (Leaf pid cs) = 0"
| "height (Node pid s) = Suc (spine_height s)"
| "spine_height (Last t) = height t"
| "spine_height (Sep t k s) = max (height t) (spine_height s)"

text \<open>Every leaf at depth \<open>h\<close>.\<close>

fun level :: "nat \<Rightarrow> tree \<Rightarrow> bool" and level_spine :: "nat \<Rightarrow> spine \<Rightarrow> bool" where
  "level h (Leaf pid cs) \<longleftrightarrow> h = 0"
| "level h (Node pid s) \<longleftrightarrow> (case h of 0 \<Rightarrow> False | Suc n \<Rightarrow> level_spine n s)"
| "level_spine h (Last t) \<longleftrightarrow> level h t"
| "level_spine h (Sep t k s) \<longleftrightarrow> level h t \<and> level_spine h s"

lemma level_height: "level h t \<Longrightarrow> height t = h" "level_spine h s \<Longrightarrow> spine_height s = h"
  by (induction t and s arbitrary: h and h) (auto split: nat.splits)

text \<open>The cells and the rightmost pointer of an interior page, and all its children.\<close>

fun spine_cells :: "spine \<Rightarrow> bytes list" where
  "spine_cells (Last t) = []"
| "spine_cells (Sep t k s) = build_interior_cell k (root_id t) # spine_cells s"

fun spine_right :: "spine \<Rightarrow> u32" where
  "spine_right (Last t) = root_id t"
| "spine_right (Sep t k s) = spine_right s"

fun spine_children :: "spine \<Rightarrow> u32 list" where
  "spine_children (Last t) = [root_id t]"
| "spine_children (Sep t k s) = root_id t # spine_children s"

fun spine_keys :: "spine \<Rightarrow> i64 list" where
  "spine_keys (Last t) = []"
| "spine_keys (Sep t k s) = k # spine_keys s"

fun bst :: "int \<Rightarrow> int \<Rightarrow> tree \<Rightarrow> bool" and bst_spine :: "int \<Rightarrow> int \<Rightarrow> spine \<Rightarrow> bool" where
  "bst lo hi (Leaf pid cs) \<longleftrightarrow>
     sorted_wrt (<) (cell_keys cs) \<and> list_all (\<lambda>c. lo \<le> sint (cell_key c) \<and> sint (cell_key c) < hi) cs"
| "bst lo hi (Node pid s) \<longleftrightarrow> bst_spine lo hi s"
| "bst_spine lo hi (Last t) \<longleftrightarrow> bst lo hi t"
| "bst_spine lo hi (Sep t k s) \<longleftrightarrow> lo \<le> sint k \<and> sint k \<le> hi \<and> bst lo (sint k) t \<and> bst_spine (sint k) hi s"

section \<open>Pages of a tree\<close>

definition pad :: "bytes \<Rightarrow> bytes" where
  "pad b = b @ replicate 8 0"

definition leaf_page :: "bytes \<Rightarrow> bytes list \<Rightarrow> bool" where
  "leaf_page b cells \<longleftrightarrow> u8_at b 0 = PAGE_TYPE_LEAF \<and> page_cells 5 (pad b) cells"

definition interior_page :: "bytes \<Rightarrow> bytes list \<Rightarrow> u32 \<Rightarrow> bool" where
  "interior_page b cells right \<longleftrightarrow> u8_at b 0 = PAGE_TYPE_INTERIOR \<and> interior_cells (pad b) cells \<and>
     rightmost_child (pad b) = right"

fun stored :: "(u32 \<Rightarrow> bytes option) \<Rightarrow> tree \<Rightarrow> bool" and stored_spine :: "(u32 \<Rightarrow> bytes option) \<Rightarrow> spine \<Rightarrow> bool" where
  "stored v (Leaf pid cs) \<longleftrightarrow> (\<exists>b. v pid = Some b \<and> leaf_page b cs)"
| "stored v (Node pid s) \<longleftrightarrow> (\<exists>b. v pid = Some b \<and> interior_page b (spine_cells s) (spine_right s)) \<and>
     distinct (spine_children s) \<and> stored_spine v s"
| "stored_spine v (Last t) \<longleftrightarrow> stored v t"
| "stored_spine v (Sep t k s) \<longleftrightarrow> stored v t \<and> stored_spine v s"

lemma page_body_pad [simp]: "page_body (pad b) = b"
  and length_pad [simp]: "length (pad b) = length b + 8"
  by (simp_all add: page_body_def pad_def)

lemma body_page_cells:
  assumes "page_body buf = b" "8 \<le> length buf"
  shows "page_cells h buf cells \<longleftrightarrow> page_cells h (pad b) cells"
proof -
  have "page_body buf = page_body (pad b)" "length buf = length (pad b)"
    using assms page_body_length [of buf] by auto
  then show ?thesis using page_cells_cong [of buf "pad b"] page_cells_cong [of "pad b" buf] by metis
qed

lemma leaf_page_buf:
  assumes "leaf_page b cells" "page_body buf = b" "8 \<le> length buf"
  shows "page_cells 5 buf cells" "read_u8 buf 0 = Inr PAGE_TYPE_LEAF"
proof -
  have pc: "page_cells 5 (pad b) cells" using assms(1) by (simp add: leaf_page_def)
  then show "page_cells 5 buf cells" using body_page_cells [OF assms(2,3)] by simp
  have "1 \<le> length b" using page_cells_bounds [OF pc] by simp
  then show "read_u8 buf 0 = Inr PAGE_TYPE_LEAF"
    using body_fields(2) [OF assms(2), of 0] assms(1) by (simp add: leaf_page_def)
qed

lemma leaf_page_of_buf:
  assumes "page_cells 5 buf cells" "u8_at buf 0 = PAGE_TYPE_LEAF"
  shows "leaf_page (page_body buf) cells"
proof -
  note B = page_cells_bounds [OF assms(1)]
  have "u8_at (page_body buf) 0 = u8_at buf 0" using B slice_page_body [of 0 1 buf] by (simp add: u8_at_def)
  then show ?thesis using assms body_page_cells [OF refl, of buf 5 cells] B by (simp add: leaf_page_def)
qed

lemma interior_page_buf:
  assumes "interior_page b cells right" "page_body buf = b" "8 \<le> length buf"
  shows "interior_cells buf cells" "rightmost_child buf = right" "read_u8 buf 0 = Inr PAGE_TYPE_INTERIOR"
    "u8_at buf 0 = PAGE_TYPE_INTERIOR"
proof -
  have ic: "interior_cells (pad b) cells" using assms(1) by (simp add: interior_page_def)
  then have pc: "page_cells 9 (pad b) cells" by (simp add: interior_cells_def)
  have len: "9 \<le> length b" using page_cells_bounds [OF pc] by simp
  show "interior_cells buf cells" using ic body_page_cells [OF assms(2,3), of 9 cells] by (simp add: interior_cells_def)
  have "slice buf 5 4 = slice b 5 4" "slice (pad b) 5 4 = slice b 5 4" "slice buf 0 1 = slice b 0 1"
    using body_fields(1) [OF assms(2)] body_fields(1) [OF page_body_pad] len by auto
  then show "rightmost_child buf = right" "u8_at buf 0 = PAGE_TYPE_INTERIOR"
    using assms(1) by (simp_all add: interior_page_def rightmost_child_def u32_at_def u8_at_def)
  show "read_u8 buf 0 = Inr PAGE_TYPE_INTERIOR"
    using body_fields(2) [OF assms(2), of 0] assms(1) len by (simp add: interior_page_def)
qed

lemma interior_page_of_buf:
  assumes "interior_cells buf cells" "u8_at buf 0 = PAGE_TYPE_INTERIOR"
  shows "interior_page (page_body buf) cells (rightmost_child buf)"
proof -
  have pc: "page_cells 9 buf cells" using assms(1) by (simp add: interior_cells_def)
  note B = page_cells_bounds [OF pc]
  have "slice (pad (page_body buf)) 5 4 = slice (page_body buf) 5 4"
    using body_fields(1) [OF page_body_pad, of 5 4 "page_body buf"] B by (simp add: page_body_length)
  then have "rightmost_child (pad (page_body buf)) = rightmost_child buf" "u8_at (page_body buf) 0 = u8_at buf 0"
    using B slice_page_body [of 5 4 buf] slice_page_body [of 0 1 buf]
    by (simp_all add: rightmost_child_def u32_at_def u8_at_def)
  then show ?thesis
    using assms body_page_cells [OF refl, of buf 9 cells] B by (simp add: interior_page_def interior_cells_def)
qed

lemma stored_mono:
  "stored v t \<Longrightarrow> v \<subseteq>\<^sub>m w \<Longrightarrow> stored w t"
  "stored_spine v s \<Longrightarrow> v \<subseteq>\<^sub>m w \<Longrightarrow> stored_spine w s"
proof (induction t and s)
  case (Leaf pid cs)
  then show ?case by (fastforce simp: map_le_def dom_def)
next
  case (Node pid s)
  then show ?case by (fastforce simp: map_le_def dom_def)
qed auto

lemma spine_cells_children:
  "map cell_child (spine_cells s) @ [spine_right s] = spine_children s"
  "map cell_key (spine_cells s) = spine_keys s" "list_all (\<lambda>c. length c = 12) (spine_cells s)"
  "length (spine_children s) = length (spine_cells s) + 1" "length (spine_keys s) = length (spine_cells s)"
  by (induction s rule: spine_right.induct) auto

section \<open>Routing\<close>

fun route_spine :: "i64 \<Rightarrow> spine \<Rightarrow> tree" where
  "route_spine key (Last t) = t"
| "route_spine key (Sep t k s) = (if sint key < sint k then t else route_spine key s)"

fun route_lo :: "i64 \<Rightarrow> int \<Rightarrow> spine \<Rightarrow> int" where
  "route_lo key lo (Last t) = lo"
| "route_lo key lo (Sep t k s) = (if sint key < sint k then lo else route_lo key (sint k) s)"

fun route_hi :: "i64 \<Rightarrow> int \<Rightarrow> spine \<Rightarrow> int" where
  "route_hi key hi (Last t) = hi"
| "route_hi key hi (Sep t k s) = (if sint key < sint k then sint k else route_hi key hi s)"

lemma route_root: "route (spine_cells s) (spine_right s) key = root_id (route_spine key s)"
  by (induction s rule: spine_right.induct) (auto simp: route_def)

lemma tree_route_induct:
  assumes "\<And>pid cs. P (Leaf pid cs)" "\<And>pid s. P (route_spine key s) \<Longrightarrow> P (Node pid s)"
  shows "P t"
proof -
  have "P t \<and> P (route_spine key (Last t))" and "P (route_spine key s)" for s
    by (induction t and s) (use assms in auto)
  then show ?thesis by blast
qed

lemma bst_bounds:
  "bst lo hi t \<Longrightarrow> c \<in> set (tree_cells t) \<Longrightarrow> lo \<le> sint (cell_key c) \<and> sint (cell_key c) < hi"
  "bst_spine lo hi s \<Longrightarrow> c \<in> set (spine_leaf_cells s) \<Longrightarrow> lo \<le> sint (cell_key c) \<and> sint (cell_key c) < hi"
  by (induction t and s arbitrary: lo hi and lo hi) (force simp: list_all_iff)+

lemma bst_route:
  assumes "bst_spine lo hi s" "lo \<le> sint key" "sint key < hi"
  shows "bst (route_lo key lo s) (route_hi key hi s) (route_spine key s)"
    "route_lo key lo s \<le> sint key" "sint key < route_hi key hi s" "lo \<le> route_lo key lo s" "route_hi key hi s \<le> hi"
proof -
  have "bst (route_lo key lo s) (route_hi key hi s) (route_spine key s) \<and> route_lo key lo s \<le> sint key \<and>
    sint key < route_hi key hi s \<and> lo \<le> route_lo key lo s \<and> route_hi key hi s \<le> hi"
    using assms(1,2)
  proof (induction s arbitrary: lo rule: spine_right.induct)
    case (1 t)
    then show ?case using assms(3) by simp
  next
    case (2 t k s)
    show ?case
    proof (cases "sint key < sint k")
      case True
      with "2.prems" show ?thesis by simp
    next
      case False
      with "2.prems" have "bst_spine (sint k) hi s" "sint k \<le> sint key" and lo: "lo \<le> sint k" by simp_all
      with "2.IH" [of "sint k"] have IH: "bst (route_lo key (sint k) s) (route_hi key hi s) (route_spine key s)"
        "route_lo key (sint k) s \<le> sint key" "sint key < route_hi key hi s" "sint k \<le> route_lo key (sint k) s"
        "route_hi key hi s \<le> hi" by blast+
      then show ?thesis using False order_trans [OF lo IH(4)] by simp
    qed
  qed
  then show "bst (route_lo key lo s) (route_hi key hi s) (route_spine key s)"
    "route_lo key lo s \<le> sint key" "sint key < route_hi key hi s" "lo \<le> route_lo key lo s" "route_hi key hi s \<le> hi"
    by blast+
qed

text \<open>A key is in the subtree the routing chooses or nowhere.\<close>

lemma key_routed:
  assumes "bst_spine lo hi s" "c \<in> set (spine_leaf_cells s)" "cell_key c = key"
  shows "c \<in> set (tree_cells (route_spine key s))"
  using assms
proof (induction s arbitrary: lo rule: spine_right.induct)
  case (1 t)
  then show ?case by simp
next
  case (2 t k s)
  show ?case
  proof (cases "sint key < sint k")
    case True
    then have "c \<notin> set (spine_leaf_cells s)" using "2.prems" bst_bounds(2) [of "sint k" hi s c] by auto
    with 2 True show ?thesis by simp
  next
    case False
    then have "c \<notin> set (tree_cells t)" using "2.prems" bst_bounds(1) [of lo "sint k" t c] by auto
    with 2 False show ?thesis by auto
  qed
qed

lemma routed_cells: "set (tree_cells (route_spine key s)) \<subseteq> set (spine_leaf_cells s)"
  by (induction s rule: spine_right.induct) auto

lemma stored_routed: "stored_spine v s \<Longrightarrow> stored v (route_spine key s)"
  by (induction s rule: spine_right.induct) auto

end
