(* ===== verification/Tree_Read.thy ===== *)
theory Tree_Read
  imports Tree_Rep
begin

text \<open>
  Lookup and scan on a stored tree: both return, and what they return is what the tree holds.
\<close>

section \<open>The map a tree stands for\<close>

definition holds :: "(bytes \<Rightarrow> u64) \<Rightarrow> pool \<Rightarrow> bytes \<Rightarrow> row \<Rightarrow> bool" where
  "holds xxh p c row \<longleftrightarrow> cell_holds (store_view xxh p) (chunk_cap_of p) (max_local_of p) c row"

definition readable :: "(bytes \<Rightarrow> u64) \<Rightarrow> pool \<Rightarrow> bytes set \<Rightarrow> bool" where
  "readable xxh p cs \<longleftrightarrow> (\<forall>c \<in> cs. \<exists>row. holds xxh p c row)"

text \<open>The bounds every \<open>i64\<close> key satisfies.\<close>

definition KEY_MIN :: int where "KEY_MIN = - (2 ^ 63)"
definition KEY_END :: int where "KEY_END = 2 ^ 63"

definition tree_ok :: "(bytes \<Rightarrow> u64) \<Rightarrow> pool \<Rightarrow> int \<Rightarrow> int \<Rightarrow> tree \<Rightarrow> bool" where
  "tree_ok xxh p lo hi t \<longleftrightarrow> stored (store_view xxh p) t \<and> bst lo hi t \<and> readable xxh p (set (tree_cells t))"

definition maps_to :: "(bytes \<Rightarrow> u64) \<Rightarrow> pool \<Rightarrow> bytes set \<Rightarrow> (i64 \<rightharpoonup> row) \<Rightarrow> bool" where
  "maps_to xxh p cs M \<longleftrightarrow>
     (\<forall>key row. M key = Some row \<longleftrightarrow> (\<exists>c \<in> cs. cell_key c = key \<and> holds xxh p c row))"

lemma key_range: "KEY_MIN \<le> sint (key :: i64)" "sint key < KEY_END"
proof -
  have "- (2 ^ (LENGTH(64) - 1)) \<le> sint key" by (rule sint_ge)
  moreover have "sint key < 2 ^ (LENGTH(64) - 1)" by (rule sint_lt)
  ultimately show "KEY_MIN \<le> sint key" "sint key < KEY_END" by (simp_all add: KEY_MIN_def KEY_END_def)
qed

text \<open>A pool that shows at least the pages of another; every operation of the tree leads to one.\<close>

definition grows :: "(bytes \<Rightarrow> u64) \<Rightarrow> pool \<Rightarrow> pool \<Rightarrow> bool" where
  "grows xxh p p' \<longleftrightarrow> store_inv xxh p' \<and> pool_page_size p' = pool_page_size p \<and> store_view xxh p \<subseteq>\<^sub>m store_view xxh p'"

lemma extends_grows: "store.extends xxh p p' \<Longrightarrow> grows xxh p p'"
  using extends_frame [of xxh p p'] by (simp add: grows_def)

lemma grows_trans: "grows xxh p q \<Longrightarrow> grows xxh q r \<Longrightarrow> grows xxh p r"
  using map_le_trans by (auto simp: grows_def)

lemma holds_grows: "holds xxh p c row \<Longrightarrow> grows xxh p p' \<Longrightarrow> holds xxh p' c row"
  using cell_holds_mono by (auto simp: holds_def grows_def chunk_cap_of_def max_local_of_def)

lemma holds_unique:
  assumes "store_inv xxh p" "holds xxh p c row" "holds xxh p c row'"
  shows "row' = row"
proof -
  from assms(1) assms(2) [unfolded holds_def] obtain bs p1 where
    "reassemble xxh (parse_leaf_cell c) p = Some (Inr bs, p1)" "row_decode bs = Inr row" by (rule reassemble_holds)
  moreover from assms(1) assms(3) [unfolded holds_def] obtain bs' p2 where
    "reassemble xxh (parse_leaf_cell c) p = Some (Inr bs', p2)" "row_decode bs' = Inr row'" by (rule reassemble_holds)
  ultimately show ?thesis by simp
qed

lemma readable_grows: "readable xxh p cs \<Longrightarrow> grows xxh p p' \<Longrightarrow> readable xxh p' cs"
  unfolding readable_def using holds_grows by blast

lemma tree_ok_grows: "tree_ok xxh p lo hi t \<Longrightarrow> grows xxh p p' \<Longrightarrow> tree_ok xxh p' lo hi t"
  using stored_mono(1) readable_grows by (auto simp: tree_ok_def grows_def)

lemma maps_to_grows:
  assumes "maps_to xxh p cs M" "readable xxh p cs" "grows xxh p p'"
  shows "maps_to xxh p' cs M"
  unfolding maps_to_def
proof (intro allI iffI)
  fix key row
  assume "M key = Some row"
  then show "\<exists>c\<in>cs. cell_key c = key \<and> holds xxh p' c row"
    using assms(1,3) holds_grows unfolding maps_to_def by blast
next
  fix key row
  assume "\<exists>c\<in>cs. cell_key c = key \<and> holds xxh p' c row"
  then obtain c where c: "c \<in> cs" "cell_key c = key" "holds xxh p' c row" by blast
  with assms(2) obtain row' where r: "holds xxh p c row'" unfolding readable_def by blast
  have "store_inv xxh p'" using assms(3) by (simp add: grows_def)
  then have "row' = row" using holds_unique [OF _ c(3)] holds_grows [OF r assms(3)] by simp
  then show "M key = Some row" using assms(1) c r unfolding maps_to_def by blast
qed

lemmas holds_extends = holds_grows [OF _ extends_grows]
lemmas readable_extends = readable_grows [OF _ extends_grows]
lemmas tree_ok_extends = tree_ok_grows [OF _ extends_grows]
lemmas maps_to_extends = maps_to_grows [OF _ _ extends_grows]

lemma leaf_cells_wf:
  assumes "readable xxh p (set cs)"
  shows "list_all (leaf_cell_wf (max_local_of p)) cs" "list_all (\<lambda>c. 8 \<le> length c) cs"
proof -
  show *: "list_all (leaf_cell_wf (max_local_of p)) cs"
    using assms by (auto simp: readable_def holds_def cell_holds_def list_all_iff)
  show "list_all (\<lambda>c. 8 \<le> length c) cs"
    using * by (auto simp: list_all_iff leaf_cell_wf_def)
qed

section \<open>Reaching a page of the tree\<close>

lemma stored_leaf_get:
  assumes "store_inv xxh p" "stored (store_view xxh p) (Leaf pid cs)"
  obtains buf p' where "pool_get xxh pid p = (Inr buf, p')" "store.extends xxh p p'"
    "bp_next_page_id p' = bp_next_page_id p" "page_cells 5 buf cs" "read_u8 buf 0 = Inr PAGE_TYPE_LEAF"
    "u8_at buf 0 = PAGE_TYPE_LEAF" "length buf = pool_page_bytes p" "store_view xxh p pid = Some (page_body buf)"
proof -
  from assms(2) obtain b where b: "store_view xxh p pid = Some b" "leaf_page b cs" by auto
  from assms(1) b(1) obtain buf p' where g: "pool_get xxh pid p = (Inr buf, p')" "page_body buf = b"
    "length buf = pool_page_bytes p" "store.extends xxh p p'" "bp_next_page_id p' = bp_next_page_id p"
    by (rule store.get_page)
  have "8 \<le> length buf" using g(3) store_inv_page_size [OF assms(1)] by simp
  note L = leaf_page_buf [OF b(2) g(2) this]
  have "u8_at buf 0 = PAGE_TYPE_LEAF" using L(2) page_cells_bounds [OF L(1)] by (simp add: read_oks)
  with L g b(1) that show thesis by blast
qed

lemma stored_node_get:
  assumes "store_inv xxh p" "stored (store_view xxh p) (Node pid s)"
  obtains buf p' where "pool_get xxh pid p = (Inr buf, p')" "store.extends xxh p p'"
    "bp_next_page_id p' = bp_next_page_id p" "interior_cells buf (spine_cells s)" "rightmost_child buf = spine_right s"
    "read_u8 buf 0 = Inr PAGE_TYPE_INTERIOR" "u8_at buf 0 = PAGE_TYPE_INTERIOR" "length buf = pool_page_bytes p"
proof -
  from assms(2) obtain b where b: "store_view xxh p pid = Some b" "interior_page b (spine_cells s) (spine_right s)" by auto
  from assms(1) b(1) obtain buf p' where g: "pool_get xxh pid p = (Inr buf, p')" "page_body buf = b"
    "length buf = pool_page_bytes p" "store.extends xxh p p'" "bp_next_page_id p' = bp_next_page_id p"
    by (rule store.get_page)
  have "8 \<le> length buf" using g(3) store_inv_page_size [OF assms(1)] by simp
  note L = interior_page_buf [OF b(2) g(2) this]
  with g that show thesis by blast
qed

lemma tree_ok_routed:
  assumes "tree_ok xxh p lo hi (Node pid s)" "lo \<le> sint key" "sint key < hi"
  shows "tree_ok xxh p (route_lo key lo s) (route_hi key hi s) (route_spine key s)"
  using assms bst_route(1) [of lo hi s key] stored_routed routed_cells [of key s]
  by (auto simp: tree_ok_def readable_def)

section \<open>Lookup\<close>

lemma get_loop_tree:
  assumes "store_inv xxh p" "tree_ok xxh p lo hi t" "lo \<le> sint key" "sint key < hi"
  shows "\<exists>r p'. get_loop xxh key (max_local_of p) (root_id t) p = Some (Inr r, p') \<and> store.extends xxh p p' \<and>
    bp_next_page_id p' = bp_next_page_id p \<and>
    (\<forall>row. r = Some row \<longleftrightarrow> (\<exists>c \<in> set (tree_cells t). cell_key c = key \<and> holds xxh p c row))"
  using assms
proof (induction t arbitrary: p lo hi rule: tree_route_induct [where key = key])
  case (1 pid cs)
  have ok: "stored (store_view xxh p) (Leaf pid cs)" "sorted_wrt (<) (cell_keys cs)" "readable xxh p (set cs)"
    using "1.prems"(2) by (simp_all add: tree_ok_def)
  from "1.prems"(1) ok(1) obtain buf p1 where g: "pool_get xxh pid p = (Inr buf, p1)" "store.extends xxh p p1"
    "bp_next_page_id p1 = bp_next_page_id p" "page_cells 5 buf cs" "read_u8 buf 0 = Inr PAGE_TYPE_LEAF"
    by (rule stored_leaf_get)
  note wf = leaf_cells_wf [OF ok(3)]
  obtain r where r: "leaf_search buf key = Inr r" "search_result cs key r"
    using leaf_search_cells [OF g(4) wf(2) ok(2)] by blast
  have unf: "get_loop xxh key (max_local_of p) pid p =
      (case r of
         Inr idx \<Rightarrow> dbind (dpure (leaf_cell_at buf idx (max_local_of p))) (\<lambda>cell.
           dbind (reassemble xxh cell) (\<lambda>full. dbind (dpure (row_decode full)) (\<lambda>row. dpure (Inr (Some row))))) p1
       | Inl _ \<Rightarrow> Some (Inr None, p1))"
    using g r by (subst get_loop.simps) (simp add: dbind_def dlift_def dpure_def split: sum.split)
  show ?case
  proof (cases r)
    case (Inl i)
    then have "key \<notin> cell_key ` set cs" using search_result_found [OF ok(2) r(2)] by simp
    then show ?thesis using unf Inl g(2,3) by auto
  next
    case (Inr i)
    then have i: "i < length cs" "cell_key (cs ! i) = key" using r(2) by (simp_all add: search_result_def)
    then obtain row where row: "holds xxh p (cs ! i) row" using ok(3) nth_mem unfolding readable_def by blast
    have cell: "leaf_cell_at buf i (max_local_of p) = Inr (parse_leaf_cell (cs ! i))"
      using wf(1) i by (intro leaf_cell_at_cells [OF g(4)]) (simp_all add: list_all_length)
    have "holds xxh p1 (cs ! i) row" using row g(2) by (rule holds_extends)
    with extends_frame(1) [OF g(2)] obtain bs p2 where
      re: "reassemble xxh (parse_leaf_cell (cs ! i)) p1 = Some (Inr bs, p2)" "row_decode bs = Inr row"
        "store.extends xxh p1 p2" "bp_next_page_id p2 = bp_next_page_id p1"
      unfolding holds_def by (rule reassemble_holds)
    have "get_loop xxh key (max_local_of p) pid p = Some (Inr (Some row), p2)"
      using unf Inr cell re by (simp add: dbind_def dpure_def)
    moreover have "(\<exists>c \<in> set cs. cell_key c = key \<and> holds xxh p c row') \<longleftrightarrow> row' = row" for row'
    proof
      assume "\<exists>c \<in> set cs. cell_key c = key \<and> holds xxh p c row'"
      then obtain j where j: "j < length cs" "cell_key (cs ! j) = key" "holds xxh p (cs ! j) row'"
        by (auto simp: in_set_conv_nth)
      then have "j = i" using search_result_index [OF ok(2), of key i j] r(2) Inr by simp
      with j row holds_unique [OF "1.prems"(1)] show "row' = row" by blast
    next
      assume "row' = row"
      then show "\<exists>c \<in> set cs. cell_key c = key \<and> holds xxh p c row'" using i row by (metis nth_mem)
    qed
    ultimately show ?thesis using re(3,4) g(2,3) store.extends_trans by auto
  qed
next
  case (2 pid s)
  have ok: "stored (store_view xxh p) (Node pid s)" "bst_spine lo hi s"
    using "2.prems"(2) by (simp_all add: tree_ok_def)
  from "2.prems"(1) ok(1) obtain buf p1 where g: "pool_get xxh pid p = (Inr buf, p1)" "store.extends xxh p p1"
    "bp_next_page_id p1 = bp_next_page_id p" "interior_cells buf (spine_cells s)" "rightmost_child buf = spine_right s"
    "read_u8 buf 0 = Inr PAGE_TYPE_INTERIOR"
    by (rule stored_node_get)
  have child: "interior_find_child_for_key buf key = Inr (root_id (route_spine key s))"
    using interior_find_child_for_key_cells [OF g(4), of key] g(5) route_root by simp
  have "get_loop xxh key (max_local_of p) pid p = get_loop xxh key (max_local_of p) (root_id (route_spine key s)) p1"
    using g(1,6) child
    by (subst get_loop.simps) (simp add: dbind_def dlift_def dpure_def expect_page_type_def page_consts)
  moreover have "tree_ok xxh p1 (route_lo key lo s) (route_hi key hi s) (route_spine key s)"
    using tree_ok_extends [OF tree_ok_routed [OF "2.prems"(2-4)] g(2)] .
  with "2.IH" [OF extends_frame(1) [OF g(2)] this bst_route(2,3) [OF ok(2) "2.prems"(3,4)]] extends_max_local [OF g(2)]
  obtain r p' where IH: "get_loop xxh key (max_local_of p) (root_id (route_spine key s)) p1 = Some (Inr r, p')"
    "store.extends xxh p1 p'" "bp_next_page_id p' = bp_next_page_id p1"
    "\<forall>row. r = Some row \<longleftrightarrow> (\<exists>c \<in> set (tree_cells (route_spine key s)). cell_key c = key \<and> holds xxh p1 c row)"
    by auto
  moreover have "(\<exists>c \<in> set (tree_cells (route_spine key s)). cell_key c = key \<and> holds xxh p1 c row) \<longleftrightarrow>
      (\<exists>c \<in> set (spine_leaf_cells s). cell_key c = key \<and> holds xxh p c row)" for row
  proof
    assume "\<exists>c \<in> set (tree_cells (route_spine key s)). cell_key c = key \<and> holds xxh p1 c row"
    then obtain c where c: "c \<in> set (tree_cells (route_spine key s))" "cell_key c = key" "holds xxh p1 c row" by blast
    then have "c \<in> set (spine_leaf_cells s)" using routed_cells by blast
    moreover from this obtain row' where r': "holds xxh p c row'"
      using "2.prems"(2) by (auto simp: tree_ok_def readable_def)
    then have "row' = row" using holds_unique [OF extends_frame(1) [OF g(2)] c(3)] holds_extends [OF r' g(2)] by simp
    ultimately show "\<exists>c \<in> set (spine_leaf_cells s). cell_key c = key \<and> holds xxh p c row" using c(2) r' by blast
  next
    assume "\<exists>c \<in> set (spine_leaf_cells s). cell_key c = key \<and> holds xxh p c row"
    then show "\<exists>c \<in> set (tree_cells (route_spine key s)). cell_key c = key \<and> holds xxh p1 c row"
      using key_routed [OF ok(2)] holds_extends [OF _ g(2)] by blast
  qed
  ultimately show ?case using g(3) store.extends_trans [OF g(2)] by auto
qed

section \<open>Scanning\<close>

lemma interior_entries_from_cells:
  assumes "interior_cells buf cells" "k \<le> length cells"
  shows "interior_entries_from buf [k..<length cells] keys children =
    Inr (keys @ map cell_key (drop k cells), children @ map cell_child (drop k cells) @ [rightmost_child buf])"
  using assms(2)
proof (induction "length cells - k" arbitrary: k keys children)
  case 0
  then show ?case by (simp add: interior_cells_rightmost [OF assms(1)])
next
  case (Suc d)
  then have k: "k < length cells" by simp
  with Suc interior_key_at_cells [OF assms(1) k] show ?case
    by (simp add: upt_conv_Cons flip: Cons_nth_drop_Suc)
qed

lemma interior_entries_cells:
  assumes "interior_cells buf (spine_cells s)" "rightmost_child buf = spine_right s"
  shows "interior_entries buf = Inr (spine_keys s, spine_children s)"
  using interior_entries_from_cells [OF assms(1), of 0 "[]" "[]"] num_cells_interior [OF assms(1)] assms(2)
    spine_cells_children(1,2) [of s]
  by (simp add: interior_entries_def)

text \<open>The rows of a list of cells, in order.\<close>

definition rows_of :: "(bytes \<Rightarrow> u64) \<Rightarrow> pool \<Rightarrow> bytes list \<Rightarrow> (i64 \<times> row) list \<Rightarrow> bool" where
  "rows_of xxh p cs rs \<longleftrightarrow> list_all2 (\<lambda>c (key, row). cell_key c = key \<and> holds xxh p c row) cs rs"

lemma rows_of_append: "rows_of xxh p cs rs \<Longrightarrow> rows_of xxh p ds ss \<Longrightarrow> rows_of xxh p (cs @ ds) (rs @ ss)"
  by (simp add: rows_of_def list_all2_appendI)

lemma rows_of_back:
  assumes "rows_of xxh p' cs rs" "store.extends xxh p p'" "readable xxh p (set cs)"
  shows "rows_of xxh p cs rs"
  using assms(1) unfolding rows_of_def
proof (rule list.rel_mono_strong)
  fix c r
  assume c: "c \<in> set cs" and r: "case r of (key, row) \<Rightarrow> cell_key c = key \<and> holds xxh p' c row"
  obtain row where row: "holds xxh p c row" using assms(3) c by (auto simp: readable_def)
  with r holds_unique [OF extends_frame(1) [OF assms(2)]] holds_extends [OF row assms(2)]
  show "case r of (key, row) \<Rightarrow> cell_key c = key \<and> holds xxh p c row" by auto
qed

lemma scan_leaf:
  assumes "page_cells 5 buf cs" "store_inv xxh p" "readable xxh p (set cs)" "k \<le> length cs" "ml = max_local_of p"
  shows "\<exists>rs p'. dfold (scan_cell xxh buf ml) out [k..<length cs] p = Some (Inr (out @ rs), p') \<and>
    store.extends xxh p p' \<and> bp_next_page_id p' = bp_next_page_id p \<and> rows_of xxh p (drop k cs) rs"
  using assms(2-5)
proof (induction "length cs - k" arbitrary: k out p)
  case 0
  then show ?case using store.extends_refl by (auto simp: rows_of_def)
next
  case (Suc d)
  then have k: "k < length cs" and d: "d = length cs - Suc k" by simp_all
  obtain row where row: "holds xxh p (cs ! k) row" using Suc.prems(2) k nth_mem unfolding readable_def by blast
  have cell: "leaf_cell_at buf k ml = Inr (parse_leaf_cell (cs ! k))"
    using leaf_cells_wf(1) [OF Suc.prems(2)] k Suc.prems(4)
    by (intro leaf_cell_at_cells [OF assms(1)]) (simp_all add: list_all_length)
  from Suc.prems(1) row [unfolded holds_def] obtain bs p1 where
    re: "reassemble xxh (parse_leaf_cell (cs ! k)) p = Some (Inr bs, p1)" "row_decode bs = Inr row"
      "store.extends xxh p p1" "bp_next_page_id p1 = bp_next_page_id p"
    by (rule reassemble_holds)
  let ?out = "out @ [(cell_key (cs ! k), row)]"
  have "scan_cell xxh buf ml out k p = Some (Inr ?out, p1)"
    using cell re by (simp add: scan_cell_def dbind_def dpure_def) (simp add: parse_leaf_cell_def)
  then have step: "dfold (scan_cell xxh buf ml) out [k..<length cs] p = dfold (scan_cell xxh buf ml) ?out [Suc k..<length cs] p1"
    using k by (simp add: upt_conv_Cons dbind_def)
  obtain rs p' where IH: "dfold (scan_cell xxh buf ml) ?out [Suc k..<length cs] p1 = Some (Inr (?out @ rs), p')"
    "store.extends xxh p1 p'" "bp_next_page_id p' = bp_next_page_id p1" "rows_of xxh p1 (drop (Suc k) cs) rs"
    using Suc.hyps(1) [OF d, of p1 ?out] k Suc.prems(4) extends_frame(1) [OF re(3)]
      readable_extends [OF Suc.prems(2) re(3)] extends_max_local [OF re(3)] by auto
  have sub: "readable xxh p (set (drop (Suc k) cs))"
    using Suc.prems(2) set_drop_subset [of "Suc k" cs] by (auto simp: readable_def)
  have "rows_of xxh p (cs ! k # drop (Suc k) cs) ((cell_key (cs ! k), row) # rs)"
    using rows_of_back [OF IH(4) re(3) sub] row by (simp add: rows_of_def)
  then have "rows_of xxh p (drop k cs) ((cell_key (cs ! k), row) # rs)" using k by (simp add: Cons_nth_drop_Suc)
  then show ?case using step IH re(4) store.extends_trans [OF re(3) IH(2)] by auto
qed

lemma scan_node_tree:
  "store_inv xxh p \<Longrightarrow> stored (store_view xxh p) t \<Longrightarrow> readable xxh p (set (tree_cells t)) \<Longrightarrow>
     \<exists>rs p'. scan_node xxh (root_id t) out p = Some (Inr (out @ rs), p') \<and> store.extends xxh p p' \<and>
       bp_next_page_id p' = bp_next_page_id p \<and> rows_of xxh p (tree_cells t) rs"
  "store_inv xxh p \<Longrightarrow> stored_spine (store_view xxh p) s \<Longrightarrow> readable xxh p (set (spine_leaf_cells s)) \<Longrightarrow>
     \<exists>rs p'. dfold (\<lambda>out child. scan_node xxh child out) out (spine_children s) p = Some (Inr (out @ rs), p') \<and>
       store.extends xxh p p' \<and> bp_next_page_id p' = bp_next_page_id p \<and> rows_of xxh p (spine_leaf_cells s) rs"
proof (induction t and s arbitrary: out p and out p)
  case (Leaf pid cs)
  from Leaf.prems(1,2) obtain buf p1 where g: "pool_get xxh pid p = (Inr buf, p1)" "store.extends xxh p p1"
    "bp_next_page_id p1 = bp_next_page_id p" "page_cells 5 buf cs" "read_u8 buf 0 = Inr PAGE_TYPE_LEAF"
    by (rule stored_leaf_get)
  have "num_cells buf = Inr (word_of_nat (length cs))" "unat (word_of_nat (length cs) :: u16) = length cs"
    using page_cells_num_cells [OF g(4)] by (simp_all add: unat_of_nat)
  then have unf: "scan_node xxh pid out p = dfold (scan_cell xxh buf (max_local_of p1)) out [0..<length cs] p1"
    using g(1,5) by (subst scan_node.simps) (simp add: dbind_def dlift_def dpure_def max_local_of_def)
  have rd: "readable xxh p1 (set cs)" using readable_extends [OF _ g(2)] Leaf.prems(3) by simp
  from scan_leaf [OF g(4) extends_frame(1) [OF g(2)] rd, of 0 "max_local_of p1" out] obtain rs p' where
    "dfold (scan_cell xxh buf (max_local_of p1)) out [0..<length cs] p1 = Some (Inr (out @ rs), p')"
    "store.extends xxh p1 p'" "bp_next_page_id p' = bp_next_page_id p1" "rows_of xxh p1 cs rs" by auto
  then show ?case using unf g(3) store.extends_trans [OF g(2)] rows_of_back [OF _ g(2)] Leaf.prems(3) by auto
next
  case (Node pid s)
  from Node.prems(1,2) obtain buf p1 where g: "pool_get xxh pid p = (Inr buf, p1)" "store.extends xxh p p1"
    "bp_next_page_id p1 = bp_next_page_id p" "interior_cells buf (spine_cells s)" "rightmost_child buf = spine_right s"
    "read_u8 buf 0 = Inr PAGE_TYPE_INTERIOR"
    by (rule stored_node_get)
  have unf: "scan_node xxh pid out p = dfold (\<lambda>out child. scan_node xxh child out) out (spine_children s) p1"
    using g(1,6) interior_entries_cells [OF g(4,5)]
    by (subst scan_node.simps) (simp add: dbind_def dlift_def dpure_def expect_page_type_def page_consts)
  have st: "stored_spine (store_view xxh p1) s" using Node.prems(2) stored_mono(2) extends_frame(6) [OF g(2)] by auto
  have rd: "readable xxh p1 (set (spine_leaf_cells s))" using readable_extends [OF _ g(2)] Node.prems(3) by simp
  from Node.IH [OF extends_frame(1) [OF g(2)] st rd, of out]
  show ?case using unf g(3) store.extends_trans [OF g(2)] rows_of_back [OF _ g(2)] Node.prems(3) by auto
next
  case (Last t)
  from Last.IH [of p out] Last.prems show ?case by (auto simp: dbind_def)
next
  case (Sep t k s)
  have st: "stored (store_view xxh p) t" "stored_spine (store_view xxh p) s" using Sep.prems(2) by simp_all
  have rd: "readable xxh p (set (tree_cells t))" "readable xxh p (set (spine_leaf_cells s))"
    using Sep.prems(3) by (auto simp: readable_def)
  from Sep.IH(1) [OF Sep.prems(1) st(1) rd(1), of out] obtain rs p1 where
    1: "scan_node xxh (root_id t) out p = Some (Inr (out @ rs), p1)" "store.extends xxh p p1"
      "bp_next_page_id p1 = bp_next_page_id p" "rows_of xxh p (tree_cells t) rs" by blast
  from Sep.IH(2) [OF extends_frame(1) [OF 1(2)] stored_mono(2) [OF st(2) extends_frame(6) [OF 1(2)]]
      readable_extends [OF rd(2) 1(2)], of "out @ rs"] obtain ss p2 where
    2: "dfold (\<lambda>out child. scan_node xxh child out) (out @ rs) (spine_children s) p1 = Some (Inr ((out @ rs) @ ss), p2)"
      "store.extends xxh p1 p2" "bp_next_page_id p2 = bp_next_page_id p1" "rows_of xxh p1 (spine_leaf_cells s) ss" by blast
  have "rows_of xxh p (spine_leaf_cells s) ss" using rows_of_back [OF 2(4) 1(2) rd(2)] .
  then have "rows_of xxh p (tree_cells t @ spine_leaf_cells s) (rs @ ss)" using 1(4) rows_of_append by blast
  then show ?case
    using 1 2 store.extends_trans [OF 1(2) 2(2)] by (auto simp: dbind_def intro!: exI [of _ "rs @ ss"])
qed

end
