(* ===== verification/Tree_Write.thy ===== *)
theory Tree_Write
  imports Tree_Read
begin

text \<open>
  What the copy-on-write path of insert, update and delete leaves behind: new pages for the
  leaf and its ancestors, which together with the untouched pages store the changed tree.
\<close>

section \<open>Writing one page\<close>

lemma put_page_ok:
  assumes "store_inv xxh p" "length buf = pool_page_bytes p" "bp_next_page_id p \<noteq> - 1"
  obtains p' where "put_page xxh buf p = (Inr (bp_next_page_id p), p')" "store.extends xxh p p'"
    "bp_next_page_id p' = bp_next_page_id p + 1" "store_view xxh p' (bp_next_page_id p) = Some (page_body buf)"
proof -
  from assms obtain p1 p' where "allocate_page_id p = (Inr (bp_next_page_id p), p1)"
    "put_new xxh (bp_next_page_id p) buf p1 = (Inr (), p')" "store.extends xxh p p'"
    "bp_next_page_id p' = bp_next_page_id p + 1" "store_view xxh p' (bp_next_page_id p) = Some (page_body buf)"
    by (rule store.put_page)
  with that show thesis by (simp add: put_page_def sbind_def spure_def)
qed

lemma extends_next: "store.extends xxh p p' \<Longrightarrow> bp_next_page_id p \<le> bp_next_page_id p'"
  by (simp add: store.extends_def)

section \<open>Building a leaf page\<close>

definition cells_fit :: "nat \<Rightarrow> nat \<Rightarrow> nat list \<Rightarrow> bool" where
  "cells_fit h page_len lens \<longleftrightarrow> h + sum_list (map (\<lambda>l. l + 2) lens) \<le> page_limit page_len"

lemma insert_leaf_cells_ok:
  assumes "page_cells 5 buf done_cells" "5 + 2 * length done_cells + sum_list (map (\<lambda>c. length c + 2) cells) \<le> content_pos buf"
  shows "\<exists>buf'. insert_leaf_cells (length done_cells) cells buf = Inr buf' \<and> length buf' = length buf \<and>
    page_cells 5 buf' (done_cells @ cells) \<and> u8_at buf' 0 = u8_at buf 0"
  using assms
proof (induction cells arbitrary: done_cells buf)
  case Nil
  then show ?case by simp
next
  case (Cons c cs)
  have "5 + 2 * (length done_cells + 1) + length c \<le> content_pos buf" using Cons.prems(2) by simp
  with Cons.prems(1) obtain b where b: "insert_cell_at buf 5 (length done_cells) c = Inr b" "length b = length buf"
    "page_cells 5 b (take (length done_cells) done_cells @ c # drop (length done_cells) done_cells)"
    "content_pos b = content_pos buf - length c"
    "\<And>at m. at + m \<le> 1 \<or> 5 \<le> at \<and> at + m \<le> 5 \<Longrightarrow> slice b at m = slice buf at m"
    using page_cells_insert [of 5 buf done_cells "length done_cells" c] by blast
  have pc: "page_cells 5 b (done_cells @ [c])" using b(3) by simp
  have "5 + 2 * length (done_cells @ [c]) + sum_list (map (\<lambda>c. length c + 2) cs) \<le> content_pos b"
    using Cons.prems(2) by (simp add: b(4))
  from Cons.IH [OF pc this] obtain buf' where IH: "insert_leaf_cells (Suc (length done_cells)) cs b = Inr buf'"
    "length buf' = length b" "page_cells 5 buf' (done_cells @ c # cs)" "u8_at buf' 0 = u8_at b 0"
    by auto
  moreover have "u8_at b 0 = u8_at buf 0" using b(5) [of 0 1] by (simp add: u8_at_def)
  ultimately show ?case using b(1,2) by (simp add: layout_consts)
qed

lemma build_leaf_page_ok:
  assumes "cells_fit 5 len (map length cells)" "4096 \<le> len" "len \<le> 65536"
  obtains buf where "build_leaf_page len cells = Inr buf" "length buf = len" "leaf_page (page_body buf) cells"
proof -
  have l: "8 + 5 \<le> length (replicate len (0 :: u8))" "(5::nat) \<le> 5" "(5::nat) \<le> 9" "length (replicate len (0 :: u8)) \<le> 65536"
    using assms(2,3) by simp_all
  obtain b where b: "init_slotted (replicate len 0) PAGE_TYPE_LEAF = Inr b" "length b = length (replicate len (0 :: u8))"
    "page_cells 5 b []" "u8_at b 0 = PAGE_TYPE_LEAF" "content_pos b = page_limit (length (replicate len (0 :: u8)))"
    by (rule init_slotted_cells [OF l])
  have "5 + 2 * length ([] :: bytes list) + sum_list (map (\<lambda>c. length c + 2) cells) \<le> content_pos b"
    using assms(1) b(5) by (simp add: cells_fit_def comp_def)
  from insert_leaf_cells_ok [OF b(3) this] obtain buf where
    "insert_leaf_cells 0 cells b = Inr buf" "length buf = len" "page_cells 5 buf cells" "u8_at buf 0 = PAGE_TYPE_LEAF"
    using b(2,4) by auto
  then show thesis
    using that b(1) leaf_page_of_buf by (simp add: build_leaf_page_def init_leaf_def)
qed

lemma collect_leaf_cells_ok:
  assumes "page_cells 5 buf cs" "list_all (leaf_cell_wf ml) cs" "k \<le> length cs"
  shows "collect_leaf_cells buf ml [k..<length cs] = Inr (drop k cs)"
  using assms(3)
proof (induction "length cs - k" arbitrary: k)
  case 0
  then show ?case by simp
next
  case (Suc d)
  then have k: "k < length cs" and d: "d = length cs - Suc k" by simp_all
  have "leaf_cell_wf ml (cs ! k)" using assms(2) k by (simp add: list_all_length)
  from leaf_cell_byte_len_cells [OF assms(1) k this] obtain len where
    len: "leaf_cell_byte_len buf k ml = Inr len" "unat len = length (cs ! k)" by blast
  have "read_vec buf (unat (u16_at buf (5 + k * 2))) (length (cs ! k)) = Inr (cs ! k)"
    using page_cells_field [OF assms(1) k, of 0 "length (cs ! k)"] by (simp add: read_vec_ok slice_full)
  then show ?case
    using k len page_cells_pointer [OF assms(1) k] Suc.hyps(1) [OF d] k
    by (simp add: upt_conv_Cons layout_consts Cons_nth_drop_Suc)
qed

section \<open>Inserting into a leaf\<close>

text \<open>The page has room for one more cell, or the two halves of the split fit a page each.\<close>

definition halves_fit :: "nat \<Rightarrow> nat list \<Rightarrow> bool" where
  "halves_fit page_len lens \<longleftrightarrow>
     cells_fit 5 page_len (take (length lens div 2) lens) \<and> cells_fit 5 page_len (drop (length lens div 2) lens)"

definition leaf_accepts :: "bytes \<Rightarrow> bytes list \<Rightarrow> nat \<Rightarrow> nat \<Rightarrow> bool" where
  "leaf_accepts buf cs idx len \<longleftrightarrow>
     5 + 2 * (length cs + 1) + len \<le> content_pos buf \<or> halves_fit (length buf) (list_insert idx len (map length cs))"

text \<open>The leaf or the two leaves an insertion leaves on the page store.\<close>

definition leaf_result :: "(u32 \<Rightarrow> bytes option) \<Rightarrow> u32 \<Rightarrow> node_result \<Rightarrow> bytes list \<Rightarrow> bool" where
  "leaf_result v n0 R cs \<longleftrightarrow>
     (case R of
        Replaced pid \<Rightarrow> n0 \<le> pid \<and> stored v (Leaf pid cs)
      | Split l r k \<Rightarrow> n0 \<le> l \<and> n0 \<le> r \<and> l \<noteq> r \<and> (\<exists>left c right. cs = left @ c # right \<and> k = cell_key c \<and>
          stored v (Leaf l left) \<and> stored v (Leaf r (c # right))))"

lemma map_list_insert: "map f (list_insert i x xs) = list_insert i (f x) (map f xs)"
  by (simp add: list_insert_def take_map drop_map)

lemma leaf_split_ok:
  assumes "store_inv xxh p" "page_cells 5 buf cs" "list_all (leaf_cell_wf (max_local_of p)) cs" "idx \<le> length cs"
    and "8 \<le> length c" "halves_fit (pool_page_bytes p) (map length (list_insert idx c cs))"
    and "unat (bp_next_page_id p) + 2 < 2 ^ 32"
  shows "\<exists>R p'. leaf_split_with_new_cell xxh buf idx c p = (Inr R, p') \<and> store.extends xxh p p' \<and>
    leaf_result (store_view xxh p') (bp_next_page_id p) R (list_insert idx c cs) \<and>
    unat (bp_next_page_id p') \<le> unat (bp_next_page_id p) + 2"
proof -
  let ?all = "list_insert idx c cs" and ?n = "bp_next_page_id p"
  let ?l = "take (length ?all div 2) ?all" and ?r = "drop (length ?all div 2) ?all"
  note ps = store_inv_page_size [OF assms(1)]
  have fit: "cells_fit 5 (pool_page_bytes p) (map length ?l)" "cells_fit 5 (pool_page_bytes p) (map length ?r)"
    using assms(6) by (simp_all add: halves_fit_def take_map drop_map)
  obtain lb where lb: "build_leaf_page (pool_page_bytes p) ?l = Inr lb" "length lb = pool_page_bytes p" "leaf_page (page_body lb) ?l"
    using build_leaf_page_ok [OF fit(1)] ps by blast
  obtain rb where rb: "build_leaf_page (pool_page_bytes p) ?r = Inr rb" "length rb = pool_page_bytes p" "leaf_page (page_body rb) ?r"
    using build_leaf_page_ok [OF fit(2)] ps by blast
  have ids: "?n \<noteq> - 1" "unat (?n + 1) + 1 < 2 ^ 32" "?n + 1 \<noteq> - 1"
    using page_id_left [OF assms(7)] page_id_left [of "?n + 1" 1] by auto
  from assms(1) lb(2) ids(1) obtain p1 where p1: "put_page xxh lb p = (Inr ?n, p1)" "store.extends xxh p p1"
    "bp_next_page_id p1 = ?n + 1" "store_view xxh p1 ?n = Some (page_body lb)" by (rule put_page_ok)
  have "length rb = pool_page_bytes p1" "bp_next_page_id p1 \<noteq> - 1" using rb(2) extends_frame(5) [OF p1(2)] p1(3) ids(3) by simp_all
  with extends_frame(1) [OF p1(2)] obtain p2 where p2: "put_page xxh rb p1 = (Inr (?n + 1), p2)" "store.extends xxh p1 p2"
    "bp_next_page_id p2 = ?n + 1 + 1" "store_view xxh p2 (?n + 1) = Some (page_body rb)"
    using put_page_ok p1(3) by metis
  have len: "length ?all = Suc (length cs)" using assms(4) by (simp add: list_insert_def)
  have "?r \<noteq> []" unfolding len using len by (simp add: drop_eq_Nil2)
  then obtain c' right where r: "?r = c' # right" by (cases ?r) auto
  have "set ?r \<subseteq> set ?all" by (rule set_drop_subset)
  then have "c' \<in> set ?all" by (simp add: r)
  moreover have "set ?all = insert c (set cs)" by (simp add: list_insert_def, metis append_take_drop_id set_append)
  ultimately have "8 \<le> length c'" using assms(3,5) by (auto simp: list_all_iff leaf_cell_wf_def)
  then have key: "read_i64 c' 0 = Inr (cell_key c')" by (simp add: read_oks cell_key_def)
  have nm: "num_cells buf = Inr (word_of_nat (length cs))" "unat (word_of_nat (length cs) :: u16) = length cs"
    using page_cells_num_cells [OF assms(2)] by (simp_all add: unat_of_nat)
  have col: "collect_leaf_cells buf (max_local_of p) [0..<length cs] = Inr cs"
    using collect_leaf_cells_ok [OF assms(2,3), of 0] by simp
  have "leaf_split_with_new_cell xxh buf idx c p = (Inr (Split ?n (?n + 1) (cell_key c')), p2)"
    using lb(1) rb(1) p1(1) p2(1) key nm col assms(4) r
    by (simp add: leaf_split_with_new_cell_def sbind_def spure_def max_local_of_def [symmetric] pool_page_bytes_def [symmetric] Let_def)
  moreover have "store_view xxh p2 ?n = Some (page_body lb)" using store.extends_view [OF p2(2) p1(4)] .
  then have "stored (store_view xxh p2) (Leaf ?n ?l)" "stored (store_view xxh p2) (Leaf (?n + 1) (c' # right))"
    using lb(3) rb(3) p2(4) r by auto
  moreover have "?all = ?l @ c' # right" using append_take_drop_id [of "length ?all div 2" ?all] r by simp
  moreover have "?n \<le> ?n + 1" "?n \<noteq> ?n + 1" using unat_next [OF ids(1)] by (auto simp: word_le_nat_alt)
  ultimately have "leaf_result (store_view xxh p2) ?n (Split ?n (?n + 1) (cell_key c')) ?all"
    unfolding leaf_result_def node_result.case by blast
  moreover have "unat (bp_next_page_id p2) \<le> unat ?n + 2"
    unfolding p2(3) unat_next [OF ids(3)] unat_next [OF ids(1)] by simp
  ultimately show ?thesis
    using \<open>leaf_split_with_new_cell xxh buf idx c p = _\<close> store.extends_trans [OF p1(2) p2(2)] by blast
qed

lemma leaf_insert_or_split_ok:
  assumes "store_inv xxh p" "page_cells 5 buf cs" "u8_at buf 0 = PAGE_TYPE_LEAF" "length buf = pool_page_bytes p"
    and "list_all (leaf_cell_wf (max_local_of p)) cs" "idx \<le> length cs"
    and "8 \<le> length c" "length c \<le> 16 + unat (max_local_of p)" "leaf_accepts buf cs idx (length c)"
    and "unat (bp_next_page_id p) + 2 < 2 ^ 32"
  shows "\<exists>R p'. leaf_insert_or_split xxh buf idx c p = (Inr R, p') \<and> store.extends xxh p p' \<and>
    leaf_result (store_view xxh p') (bp_next_page_id p) R (list_insert idx c cs) \<and>
    unat (bp_next_page_id p') \<le> unat (bp_next_page_id p) + 2"
proof -
  let ?n = "bp_next_page_id p"
  from free_space_cells [OF assms(2)] obtain fs where
    fs: "free_space buf 5 = Inr fs" "unat fs = content_pos buf - (5 + 2 * length cs)" by blast
  have "4096 \<le> pool_page_bytes p" "pool_page_bytes p \<le> 65536" using store_inv_page_size [OF assms(1)] by simp_all
  then have "length c + 2 < 65536" using assms(8) unat_max_local_of [OF assms(1)] by linarith
  then have need: "unat (u16_from (length c + 2) (- 1)) = length c + 2" by (rule u16_from_small)
  have B: "5 + 2 * length cs \<le> content_pos buf" using page_cells_bounds [OF assms(2)] by simp
  show ?thesis
  proof (cases "u16_from (length c + 2) (- 1) \<le> fs")
    case True
    then have room: "5 + 2 * (length cs + 1) + length c \<le> content_pos buf"
      using need fs(2) B by (simp add: word_le_nat_alt)
    obtain b where b: "insert_cell_at buf 5 idx c = Inr b" "length b = length buf"
      "page_cells 5 b (take idx cs @ c # drop idx cs)"
      "\<And>at m. at + m \<le> 1 \<or> 5 \<le> at \<and> at + m \<le> 5 \<Longrightarrow> slice b at m = slice buf at m"
      using page_cells_insert [OF assms(2,6) room] by blast
    have "u8_at b 0 = PAGE_TYPE_LEAF" using b(4) [of 0 1] assms(3) by (simp add: u8_at_def)
    then have lp: "leaf_page (page_body b) (list_insert idx c cs)" using b(3) leaf_page_of_buf by (simp add: list_insert_def)
    have "length b = pool_page_bytes p" "?n \<noteq> - 1" using b(2) assms(4) page_id_left [OF assms(10)] by simp_all
    with assms(1) obtain p' where p': "put_page xxh b p = (Inr ?n, p')" "store.extends xxh p p'"
      "bp_next_page_id p' = ?n + 1" "store_view xxh p' ?n = Some (page_body b)" by (rule put_page_ok)
    have "leaf_insert_or_split xxh buf idx c p = (Inr (Replaced ?n), p')"
      using True fs(1) b(1) p'(1) by (simp add: leaf_insert_or_split_def sbind_def spure_def layout_consts Let_def)
    moreover have "leaf_result (store_view xxh p') ?n (Replaced ?n) (list_insert idx c cs)"
      using lp p'(4) by (simp add: leaf_result_def)
    moreover have "unat (bp_next_page_id p') \<le> unat ?n + 2" using p'(3) unat_next [OF \<open>?n \<noteq> - 1\<close>] by simp
    ultimately show ?thesis using p'(2) by blast
  next
    case False
    then have "\<not> 5 + 2 * (length cs + 1) + length c \<le> content_pos buf"
      using need fs(2) by (simp add: word_le_nat_alt)
    then have "halves_fit (pool_page_bytes p) (map length (list_insert idx c cs))"
      using assms(4,9) by (simp add: leaf_accepts_def map_list_insert)
    from leaf_split_ok [OF assms(1,2,5,6,7) this assms(10)]
    show ?thesis using False fs(1) by (simp add: leaf_insert_or_split_def sbind_def spure_def layout_consts Let_def)
  qed
qed

section \<open>The path to a leaf\<close>

fun path_ids :: "i64 \<Rightarrow> tree \<Rightarrow> u32 list" and path_spine :: "i64 \<Rightarrow> spine \<Rightarrow> u32 list" where
  "path_ids key (Leaf pid cs) = [pid]"
| "path_ids key (Node pid s) = pid # path_spine key s"
| "path_spine key (Last t) = path_ids key t"
| "path_spine key (Sep t k s) = (if sint key < sint k then path_ids key t else path_spine key s)"

fun leaf_for :: "i64 \<Rightarrow> tree \<Rightarrow> u32 \<times> bytes list" and leaf_for_spine :: "i64 \<Rightarrow> spine \<Rightarrow> u32 \<times> bytes list" where
  "leaf_for key (Leaf pid cs) = (pid, cs)"
| "leaf_for key (Node pid s) = leaf_for_spine key s"
| "leaf_for_spine key (Last t) = leaf_for key t"
| "leaf_for_spine key (Sep t k s) = (if sint key < sint k then leaf_for key t else leaf_for_spine key s)"

text \<open>The cells that are not in the leaf a key belongs to.\<close>

fun other_cells :: "i64 \<Rightarrow> tree \<Rightarrow> bytes set" and other_spine :: "i64 \<Rightarrow> spine \<Rightarrow> bytes set" where
  "other_cells key (Leaf pid cs) = {}"
| "other_cells key (Node pid s) = other_spine key s"
| "other_spine key (Last t) = other_cells key t"
| "other_spine key (Sep t k s) =
     (if sint key < sint k then other_cells key t \<union> set (spine_leaf_cells s)
      else set (tree_cells t) \<union> other_spine key s)"

fun siblings :: "i64 \<Rightarrow> spine \<Rightarrow> bytes set" where
  "siblings key (Last t) = {}"
| "siblings key (Sep t k s) =
     (if sint key < sint k then set (spine_leaf_cells s) else set (tree_cells t) \<union> siblings key s)"

lemma routed_path:
  "path_spine key s = path_ids key (route_spine key s)"
  "leaf_for_spine key s = leaf_for key (route_spine key s)"
  "other_spine key s = siblings key s \<union> other_cells key (route_spine key s)"
  "set (spine_leaf_cells s) = siblings key s \<union> set (tree_cells (route_spine key s))"
  by (induction s rule: spine_right.induct) auto

lemma path_ids_shape:
  "path_ids key t \<noteq> []" "hd (path_ids key t) = root_id t" "last (path_ids key t) = fst (leaf_for key t)"
  by (induction t rule: tree_route_induct [where key = key]) (auto simp: routed_path)

lemma path_ids_height: "length (path_ids key t) \<le> Suc (height t)"
proof -
  have "length (path_ids key t) \<le> Suc (height t)" "length (path_spine key s) \<le> Suc (spine_height s)" for s
    by (induction t and s) auto
  then show ?thesis by blast
qed

lemma tree_cells_split: "set (tree_cells t) = other_cells key t \<union> set (snd (leaf_for key t))"
  by (induction t rule: tree_route_induct [where key = key]) (auto simp: routed_path [where key = key])

lemma leaf_for_stored:
  "stored v t \<Longrightarrow> stored v (Leaf (fst (leaf_for key t)) (snd (leaf_for key t)))"
proof (induction t rule: tree_route_induct [where key = key])
  case (2 pid s)
  have "stored v (route_spine key s)" using stored_routed 2(2) by simp
  with 2(1) show ?case by (simp add: routed_path)
qed simp

lemma descend_loop_tree:
  assumes "store_inv xxh p" "stored (store_view xxh p) t"
  shows "\<exists>p'. descend_loop xxh key path (root_id t) p = Some (Inr (path @ tl (path_ids key t)), p') \<and>
    store.extends xxh p p' \<and> bp_next_page_id p' = bp_next_page_id p"
  using assms
proof (induction t arbitrary: p path rule: tree_route_induct [where key = key])
  case (1 pid cs)
  from "1.prems" obtain buf p1 where g: "pool_get xxh pid p = (Inr buf, p1)" "store.extends xxh p p1"
    "bp_next_page_id p1 = bp_next_page_id p" "read_u8 buf 0 = Inr PAGE_TYPE_LEAF"
    by (rule stored_leaf_get)
  then show ?case by (subst descend_loop.simps) (simp add: dbind_def dlift_def dpure_def)
next
  case (2 pid s)
  from "2.prems" obtain buf p1 where g: "pool_get xxh pid p = (Inr buf, p1)" "store.extends xxh p p1"
    "bp_next_page_id p1 = bp_next_page_id p" "interior_cells buf (spine_cells s)" "rightmost_child buf = spine_right s"
    "read_u8 buf 0 = Inr PAGE_TYPE_INTERIOR"
    by (rule stored_node_get)
  let ?t = "route_spine key s"
  have child: "interior_find_child_for_key buf key = Inr (root_id ?t)"
    using interior_find_child_for_key_cells [OF g(4), of key] g(5) route_root by simp
  have step: "descend_loop xxh key path pid p = descend_loop xxh key (path @ [root_id ?t]) (root_id ?t) p1"
    using g(1,6) child
    by (subst descend_loop.simps) (simp add: dbind_def dlift_def dpure_def expect_page_type_def page_consts)
  have "stored_spine (store_view xxh p) s" using "2.prems"(2) by simp
  then have "stored (store_view xxh p1) ?t" by (rule stored_mono(1) [OF stored_routed extends_frame(6) [OF g(2)]])
  from "2.IH" [OF extends_frame(1) [OF g(2)] this, of "path @ [root_id ?t]"] obtain p' where
    IH: "descend_loop xxh key (path @ [root_id ?t]) (root_id ?t) p1 =
        Some (Inr ((path @ [root_id ?t]) @ tl (path_ids key ?t)), p')"
      "store.extends xxh p1 p'" "bp_next_page_id p' = bp_next_page_id p1" by blast
  have "root_id ?t # tl (path_ids key ?t) = path_ids key ?t"
    using path_ids_shape(1,2) [of key ?t] by (metis list.collapse)
  then have "(path @ [root_id ?t]) @ tl (path_ids key ?t) = path @ path_ids key ?t" by simp
  with step IH g(3) store.extends_trans [OF g(2) IH(2)] show ?case by (simp add: routed_path)
qed

lemma descend_path_tree:
  assumes "store_inv xxh p" "stored (store_view xxh p) t"
  obtains p' where "descend_path xxh (root_id t) key p = Some (Inr (path_ids key t), p')" "store.extends xxh p p'"
    "bp_next_page_id p' = bp_next_page_id p"
proof -
  have "[root_id t] @ tl (path_ids key t) = path_ids key t"
    using path_ids_shape(1,2) [of key t] by (metis append_Cons append_Nil list.collapse)
  with descend_loop_tree [OF assms, of key "[root_id t]"] that show thesis by (auto simp: descend_path_def)
qed

section \<open>Changing one child of an interior node\<close>

fun route_index :: "i64 \<Rightarrow> spine \<Rightarrow> nat" where
  "route_index key (Last t) = 0"
| "route_index key (Sep t k s) = (if sint key < sint k then 0 else Suc (route_index key s))"

fun replace_routed :: "i64 \<Rightarrow> tree \<Rightarrow> spine \<Rightarrow> spine" where
  "replace_routed key t' (Last t) = Last t'"
| "replace_routed key t' (Sep t k s) = (if sint key < sint k then Sep t' k s else Sep t k (replace_routed key t' s))"

fun splice_routed :: "i64 \<Rightarrow> tree \<Rightarrow> i64 \<Rightarrow> tree \<Rightarrow> spine \<Rightarrow> spine" where
  "splice_routed key lt k' rt (Last t) = Sep lt k' (Last rt)"
| "splice_routed key lt k' rt (Sep t k s) =
     (if sint key < sint k then Sep lt k' (Sep rt k s) else Sep t k (splice_routed key lt k' rt s))"

lemma route_index_child:
  "route_index key s < length (spine_children s)" "spine_children s ! route_index key s = root_id (route_spine key s)"
  by (induction s rule: spine_right.induct) auto

lemma replace_routed_bst:
  "bst_spine lo hi s \<Longrightarrow> bst (route_lo key lo s) (route_hi key hi s) t' \<Longrightarrow> bst_spine lo hi (replace_routed key t' s)"
  by (induction s arbitrary: lo rule: spine_right.induct) auto

lemma level_routed:
  "level_spine h s \<Longrightarrow> level h (route_spine key s)"
  "level_spine h s \<Longrightarrow> level h t' \<Longrightarrow> level_spine h (replace_routed key t' s)"
  "level_spine h s \<Longrightarrow> level h lt \<Longrightarrow> level h rt \<Longrightarrow> level_spine h (splice_routed key lt k' rt s)"
  by (induction s rule: spine_right.induct) auto

lemma splice_routed_bst:
  assumes "bst_spine lo hi s" "lo \<le> sint key" "sint key < hi"
    and "bst (route_lo key lo s) (sint k') lt" "bst (sint k') (route_hi key hi s) rt"
    and "route_lo key lo s \<le> sint k'" "sint k' \<le> route_hi key hi s"
  shows "bst_spine lo hi (splice_routed key lt k' rt s)"
  using assms
proof (induction s arbitrary: lo rule: spine_right.induct)
  case (1 t)
  then show ?case by simp
next
  case (2 t k s)
  then show ?case by (cases "sint key < sint k") auto
qed

lemma replace_routed_cells:
  "set (spine_leaf_cells (replace_routed key t' s)) = siblings key s \<union> set (tree_cells t')"
  "set (spine_leaf_cells (splice_routed key lt k' rt s)) = siblings key s \<union> set (tree_cells lt) \<union> set (tree_cells rt)"
  by (induction s rule: spine_right.induct) auto

lemma replace_routed_stored:
  "stored_spine v s \<Longrightarrow> stored v t' \<Longrightarrow> stored_spine v (replace_routed key t' s)"
  "stored_spine v s \<Longrightarrow> stored v lt \<Longrightarrow> stored v rt \<Longrightarrow> stored_spine v (splice_routed key lt k' rt s)"
  by (induction s rule: spine_right.induct) auto

lemma replace_routed_children:
  "spine_children (replace_routed key t' s) = (spine_children s)[route_index key s := root_id t']"
  by (induction s rule: spine_right.induct) auto

lemma splice_routed_lists:
  "spine_children (splice_routed key lt k' rt s) =
     (list_insert (route_index key s) (root_id lt) (spine_children s))[route_index key s + 1 := root_id rt]"
  "spine_keys (splice_routed key lt k' rt s) = list_insert (route_index key s) k' (spine_keys s)"
  by (induction s rule: spine_right.induct) (auto simp: list_insert_def)

lemma replace_routed_page:
  "route_index key s < length (spine_cells s) \<Longrightarrow>
     spine_cells (replace_routed key t' s) = (spine_cells s)[route_index key s :=
       build_interior_cell (cell_key (spine_cells s ! route_index key s)) (root_id t')] \<and>
     spine_right (replace_routed key t' s) = spine_right s"
  "\<not> route_index key s < length (spine_cells s) \<Longrightarrow>
     spine_cells (replace_routed key t' s) = spine_cells s \<and> spine_right (replace_routed key t' s) = root_id t'"
  by (induction s rule: spine_right.induct) auto

lemma spine_cell_child: "i < length (spine_cells s) \<Longrightarrow> cell_child (spine_cells s ! i) = spine_children s ! i"
proof -
  assume i: "i < length (spine_cells s)"
  have "spine_children s ! i = (map cell_child (spine_cells s) @ [spine_right s]) ! i"
    by (simp only: spine_cells_children(1))
  then show ?thesis using i by (simp add: nth_append)
qed

lemma find_routed_child:
  assumes "distinct (spine_children s)"
  shows "find (\<lambda>i. cell_child (spine_cells s ! i) = root_id (route_spine key s)) [0..<length (spine_cells s)] =
    (if route_index key s < length (spine_cells s) then Some (route_index key s) else None)"
proof -
  let ?i = "route_index key s" and ?n = "length (spine_cells s)"
  have eq: "cell_child (spine_cells s ! j) = root_id (route_spine key s) \<longleftrightarrow> j = ?i" if "j < ?n" for j
    using that route_index_child [where key = key and s = s] assms spine_cell_child [OF that] spine_cells_children(4) [of s]
    by (auto simp: nth_eq_iff_index_eq simp flip: route_index_child(2))
  show ?thesis
  proof (cases "?i < ?n")
    case True
    then show ?thesis using eq by (auto simp: find_Some_iff intro!: exI [of _ ?i])
  next
    case False
    then show ?thesis using eq by (auto simp: find_None_iff)
  qed
qed

lemma replace_child_ok:
  assumes "interior_cells buf (spine_cells s)" "rightmost_child buf = spine_right s" "distinct (spine_children s)"
    and "u8_at buf 0 = PAGE_TYPE_INTERIOR"
  obtains buf' where "replace_child buf (root_id (route_spine key s)) (root_id t') = Inr buf'" "length buf' = length buf"
    "interior_page (page_body buf') (spine_cells (replace_routed key t' s)) (spine_right (replace_routed key t' s))"
proof (cases "route_index key s < length (spine_cells s)")
  case True
  from interior_set_child_at_cells [OF assms(1) True, of "root_id t'"] obtain b where
    b: "interior_set_child_at buf (route_index key s) (root_id t') = Inr b" "length b = length buf"
      "interior_cells b (spine_cells (replace_routed key t' s))" "rightmost_child b = rightmost_child buf" "u8_at b 0 = u8_at buf 0"
    using replace_routed_page(1) [OF True, of t'] by auto
  show thesis
    by (rule that [OF _ b(2)])
      (use b True assms interior_find_child_slot_cells [OF assms(1)] find_routed_child [OF assms(3), of key]
        replace_routed_page(1) [OF True, of t'] interior_page_of_buf [OF b(3)] in \<open>simp_all add: replace_child_def\<close>)
next
  case False
  from interior_set_rightmost_cells [OF assms(1), of "root_id t'"] obtain b where
    b: "interior_set_rightmost buf (root_id t') = Inr b" "length b = length buf"
      "interior_cells b (spine_cells s)" "rightmost_child b = root_id t'" "u8_at b 0 = u8_at buf 0"
    by auto
  show thesis
    by (rule that [OF _ b(2)])
      (use b False assms interior_find_child_slot_cells [OF assms(1)] find_routed_child [OF assms(3), of key]
        replace_routed_page(2) [OF False, of t'] interior_page_of_buf [OF b(3)] in \<open>simp_all add: replace_child_def\<close>)
qed

end
