(* ===== verification/Tree_Propagate.thy ===== *)
theory Tree_Propagate
  imports Tree_Write
begin

text \<open>
  The ancestors of a changed leaf: rebuilding or splitting an interior page, the loop over the
  path, and the new root.
\<close>

section \<open>Building an interior page\<close>

lemma spine_cells_zip: "spine_cells s = map2 build_interior_cell (spine_keys s) (spine_children s)"
proof (induction s rule: spine_right.induct)
  case (1 t)
  then show ?case by simp
next
  case (2 t k s)
  then show ?case by simp
qed

lemma spine_right_last: "spine_right s = last (spine_children s)" "spine_children s \<noteq> []"
  using spine_cells_children(1) [of s] by (metis last_snoc, metis snoc_eq_iff_butlast)

lemma insert_interior_cells_ok:
  assumes "page_cells 9 buf done_cells" "length done_cells = i" "i + length keys \<le> length children"
    and "9 + 2 * i + 14 * length keys \<le> content_pos buf" "list_all (\<lambda>c. length c = 12) done_cells"
  shows "\<exists>buf'. insert_interior_cells children i keys buf = Inr buf' \<and> length buf' = length buf \<and>
    interior_cells buf' (done_cells @ map2 build_interior_cell keys (drop i children)) \<and>
    rightmost_child buf' = rightmost_child buf \<and> u8_at buf' 0 = u8_at buf 0"
  using assms
proof (induction keys arbitrary: i done_cells buf)
  case Nil
  then show ?case by (simp add: interior_cells_def)
next
  case (Cons k ks)
  let ?c = "build_interior_cell k (children ! i)"
  have i: "i < length children" using Cons.prems(3) by simp
  have "i \<le> length done_cells" "9 + 2 * (length done_cells + 1) + length ?c \<le> content_pos buf"
    using Cons.prems(2,4) by simp_all
  with Cons.prems(1) obtain b where b: "insert_cell_at buf 9 i ?c = Inr b" "length b = length buf"
    "page_cells 9 b (take i done_cells @ ?c # drop i done_cells)" "content_pos b = content_pos buf - length ?c"
    "\<And>at m. at + m \<le> 1 \<or> 5 \<le> at \<and> at + m \<le> 9 \<Longrightarrow> slice b at m = slice buf at m"
    using page_cells_insert [of 9 buf done_cells i ?c] by blast
  have pc: "page_cells 9 b (done_cells @ [?c])" using b(3) Cons.prems(2) by simp
  have room: "9 + 2 * Suc i + 14 * length ks \<le> content_pos b" using Cons.prems(4) by (simp add: b(4))
  obtain buf' where IH: "insert_interior_cells children (Suc i) ks b = Inr buf'" "length buf' = length b"
    "interior_cells buf' ((done_cells @ [?c]) @ map2 build_interior_cell ks (drop (Suc i) children))"
    "rightmost_child buf' = rightmost_child b" "u8_at buf' 0 = u8_at b 0"
    using Cons.IH [OF pc _ _ room] Cons.prems(2,3,5) by auto
  have "rightmost_child b = rightmost_child buf" "u8_at b 0 = u8_at buf 0"
    using b(5) [of 5 4] b(5) [of 0 1] by (simp_all add: rightmost_child_def u32_at_def u8_at_def)
  moreover have "drop i children = children ! i # drop (Suc i) children" using i by (simp add: Cons_nth_drop_Suc)
  ultimately show ?case
    using b(1,2) IH i by (simp add: get_or_def layout_consts)
qed

lemma build_interior_page_ok:
  assumes "cells_fit 9 len (replicate (length (spine_keys s)) 12)" "4096 \<le> len" "len \<le> 65536"
  obtains buf where "build_interior_page len (spine_keys s) (spine_children s) = Inr buf" "length buf = len"
    "interior_page (page_body buf) (spine_cells s) (spine_right s)"
proof -
  have l: "17 \<le> length (replicate len (0 :: u8))" "length (replicate len (0 :: u8)) \<le> 65536" using assms(2,3) by simp_all
  obtain b where b: "init_interior (replicate len 0) (spine_right s) = Inr b" "length b = length (replicate len (0 :: u8))"
    "interior_cells b []" "rightmost_child b = spine_right s" "u8_at b 0 = PAGE_TYPE_INTERIOR"
    "content_pos b = page_limit (length (replicate len (0 :: u8)))"
    by (rule init_interior_cells [OF l])
  have room: "9 + 2 * 0 + 14 * length (spine_keys s) \<le> content_pos b"
    using assms(1) b(6) by (simp add: cells_fit_def sum_list_replicate)
  have le: "0 + length (spine_keys s) \<le> length (spine_children s)" using spine_cells_children(4,5) [of s] by simp
  have "page_cells 9 b []" using b(3) by (simp add: interior_cells_def)
  from insert_interior_cells_ok [OF this _ le room] obtain buf where
    "insert_interior_cells (spine_children s) 0 (spine_keys s) b = Inr buf" "length buf = length b"
    "interior_cells buf (spine_cells s)" "rightmost_child buf = spine_right s" "u8_at buf 0 = PAGE_TYPE_INTERIOR"
    using b(4,5) by (auto simp: spine_cells_zip)
  then show thesis
    using that b(1,2) interior_page_of_buf [of buf "spine_cells s"] spine_right_last [of s]
    by (simp add: build_interior_page_def)
qed

lemma max_interior_entries_fit:
  assumes "valid_page_size (page_bytes ps)" "n \<le> max_interior_entries (bytes_usize ps)"
  shows "cells_fit 9 (bytes_usize ps) (replicate n 12)"
  using assms(1)
  by (rule valid_page_size_cases)
    (use assms(2) in \<open>simp_all add: max_interior_entries_def layout_consts cells_fit_def sum_list_replicate page_limit_def\<close>)

section \<open>Splitting an interior node\<close>

fun split_spine :: "nat \<Rightarrow> spine \<Rightarrow> spine \<times> i64 \<times> spine" where
  "split_spine n (Last t) = (Last t, 0, Last t)"
| "split_spine 0 (Sep t k s) = (Last t, k, s)"
| "split_spine (Suc n) (Sep t k s) = (case split_spine n s of (l, k', r) \<Rightarrow> (Sep t k l, k', r))"

lemma split_spine_lists:
  assumes "split_spine n s = (l, k, r)" "n < length (spine_keys s)"
  shows "spine_keys l = take n (spine_keys s)" "spine_children l = take (Suc n) (spine_children s)"
    "spine_keys r = drop (Suc n) (spine_keys s)" "spine_children r = drop (Suc n) (spine_children s)"
    "k = spine_keys s ! n" "spine_leaf_cells s = spine_leaf_cells l @ spine_leaf_cells r"
  using assms by (induction n s arbitrary: l rule: split_spine.induct) (auto split: prod.splits)

lemma split_spine_bst:
  assumes "split_spine n s = (l, k, r)" "n < length (spine_keys s)" "bst_spine lo hi s"
  shows "bst_spine lo (sint k) l" "bst_spine (sint k) hi r" "lo \<le> sint k" "sint k \<le> hi"
proof -
  have "bst_spine lo (sint k) l \<and> bst_spine (sint k) hi r \<and> lo \<le> sint k \<and> sint k \<le> hi"
    using assms
  proof (induction n s arbitrary: l lo rule: split_spine.induct)
    case (3 n t k0 s)
    obtain l' where l': "split_spine n s = (l', k, r)" "l = Sep t k0 l'"
      using "3.prems"(1) by (auto split: prod.splits)
    with "3.IH" [OF l'(1), of "sint k0"] "3.prems" show ?case by auto
  qed auto
  then show "bst_spine lo (sint k) l" "bst_spine (sint k) hi r" "lo \<le> sint k" "sint k \<le> hi" by blast+
qed

lemma split_spine_stored:
  assumes "split_spine n s = (l, k, r)" "n < length (spine_keys s)" "stored_spine v s"
  shows "stored_spine v l" "stored_spine v r"
proof -
  have "stored_spine v l \<and> stored_spine v r"
    using assms by (induction n s arbitrary: l rule: split_spine.induct) (auto split: prod.splits)
  then show "stored_spine v l" "stored_spine v r" by blast+
qed

lemma split_spine_level:
  assumes "split_spine n s = (l, k, r)" "n < length (spine_keys s)" "level_spine h s"
  shows "level_spine h l" "level_spine h r"
proof -
  have "level_spine h l \<and> level_spine h r"
    using assms by (induction n s arbitrary: l rule: split_spine.induct) (auto split: prod.splits)
  then show "level_spine h l" "level_spine h r" by blast+
qed

section \<open>The result of a mutation below\<close>

definition result_ok ::
    "(bytes \<Rightarrow> u64) \<Rightarrow> pool \<Rightarrow> u32 \<Rightarrow> nat \<Rightarrow> int \<Rightarrow> int \<Rightarrow> node_result \<Rightarrow> bytes set \<Rightarrow> bool" where
  "result_ok xxh p n0 h lo hi R C \<longleftrightarrow>
     (case R of
        Replaced pid \<Rightarrow> n0 \<le> pid \<and> (\<exists>t. root_id t = pid \<and> level h t \<and> tree_ok xxh p lo hi t \<and> set (tree_cells t) = C)
      | Split l r k \<Rightarrow> n0 \<le> l \<and> n0 \<le> r \<and> l \<noteq> r \<and> lo \<le> sint k \<and> sint k \<le> hi \<and>
          (\<exists>lt rt. root_id lt = l \<and> root_id rt = r \<and> level h lt \<and> level h rt \<and> tree_ok xxh p lo (sint k) lt \<and>
             tree_ok xxh p (sint k) hi rt \<and> set (tree_cells lt) \<union> set (tree_cells rt) = C))"

lemma result_ok_extends:
  "result_ok xxh p n0 h lo hi R C \<Longrightarrow> store.extends xxh p p' \<Longrightarrow> result_ok xxh p' n0 h lo hi R C"
  unfolding result_ok_def by (cases R) (simp_all, (blast intro: tree_ok_extends)+)

lemma put_node_ok:
  assumes "store_inv xxh p" "length buf = pool_page_bytes p" "bp_next_page_id p \<noteq> - 1"
    and "interior_page (page_body buf) (spine_cells s) (spine_right s)" "distinct (spine_children s)"
    and "stored_spine (store_view xxh p) s" "bst_spine lo hi s" "readable xxh p (set (spine_leaf_cells s))"
  obtains p' where "put_page xxh buf p = (Inr (bp_next_page_id p), p')" "store.extends xxh p p'"
    "bp_next_page_id p' = bp_next_page_id p + 1" "tree_ok xxh p' lo hi (Node (bp_next_page_id p) s)"
proof -
  from assms(1-3) obtain p' where p': "put_page xxh buf p = (Inr (bp_next_page_id p), p')" "store.extends xxh p p'"
    "bp_next_page_id p' = bp_next_page_id p + 1" "store_view xxh p' (bp_next_page_id p) = Some (page_body buf)"
    by (rule put_page_ok)
  have "tree_ok xxh p' lo hi (Node (bp_next_page_id p) s)"
    using assms(4-8) p'(4) stored_mono(2) [OF assms(6) extends_frame(6) [OF p'(2)]] readable_extends [OF assms(8) p'(2)]
    by (auto simp: tree_ok_def)
  with p' that show thesis by blast
qed

lemma tree_ok_parts:
  "tree_ok xxh p lo hi (Node pid s) \<longleftrightarrow> stored (store_view xxh p) (Node pid s) \<and> bst_spine lo hi s \<and>
     readable xxh p (set (spine_leaf_cells s))"
  by (auto simp: tree_ok_def)

lemma apply_replaced_ok:
  assumes inv: "store_inv xxh p" and ok: "tree_ok xxh p lo hi (Node pid s)"
    and lev: "level_spine h s"
    and res: "result_ok xxh p n0 h (route_lo key lo s) (route_hi key hi s) (Replaced new) C"
    and fresh: "\<forall>c \<in> set (spine_children s). c < n0" "n0 \<le> bp_next_page_id p" and ids: "bp_next_page_id p \<noteq> - 1"
  shows "\<exists>R' p'. apply_result_to_interior xxh pid (root_id (route_spine key s)) (Replaced new) p = (Inr R', p') \<and>
    store.extends xxh p p' \<and> unat (bp_next_page_id p') \<le> unat (bp_next_page_id p) + 2 \<and>
    result_ok xxh p' n0 (Suc h) lo hi R' (siblings key s \<union> C)"
proof -
  let ?n = "bp_next_page_id p"
  from res obtain t where t: "root_id t = new" "tree_ok xxh p (route_lo key lo s) (route_hi key hi s) t"
    "set (tree_cells t) = C" "n0 \<le> new" "level h t" by (auto simp: result_ok_def)
  have st: "stored (store_view xxh p) (Node pid s)" "bst_spine lo hi s" "readable xxh p (set (spine_leaf_cells s))"
    using ok by (simp_all add: tree_ok_parts)
  from inv st(1) obtain buf p1 where g: "pool_get xxh pid p = (Inr buf, p1)" "store.extends xxh p p1"
    "bp_next_page_id p1 = ?n" "interior_cells buf (spine_cells s)" "rightmost_child buf = spine_right s"
    "u8_at buf 0 = PAGE_TYPE_INTERIOR" "length buf = pool_page_bytes p"
    by (rule stored_node_get)
  let ?s = "replace_routed key t s"
  have dist: "distinct (spine_children s)" using st(1) by simp
  from g(4,5) dist g(6) obtain b where b: "replace_child buf (root_id (route_spine key s)) (root_id t) = Inr b"
    "length b = length buf" "interior_page (page_body b) (spine_cells ?s) (spine_right ?s)"
    by (rule replace_child_ok)
  have "new \<notin> set (spine_children s)" using fresh(1) t(4) by force
  then have d: "distinct (spine_children ?s)" using dist t(1) by (simp add: replace_routed_children distinct_list_update)
  have "stored_spine (store_view xxh p) s" "stored (store_view xxh p) t" using st(1) t(2) by (simp_all add: tree_ok_def)
  then have ss: "stored_spine (store_view xxh p1) ?s"
    using stored_mono(2) [OF replace_routed_stored(1) extends_frame(6) [OF g(2)]] by blast
  have bs: "bst_spine lo hi ?s" using replace_routed_bst st(2) t(2) by (auto simp: tree_ok_def)
  have rd: "readable xxh p1 (set (spine_leaf_cells ?s))"
    using readable_extends [OF _ g(2)] st(3) t(2) routed_path(4) [of s key]
    by (auto simp: readable_def tree_ok_def replace_routed_cells)
  have "length b = pool_page_bytes p1" "bp_next_page_id p1 \<noteq> - 1"
    using b(2) g(3,7) ids extends_frame(5) [OF g(2)] by simp_all
  from put_node_ok [OF extends_frame(1) [OF g(2)] this b(3) d ss bs rd] obtain p2 where
    p2: "put_page xxh b p1 = (Inr ?n, p2)" "store.extends xxh p1 p2" "bp_next_page_id p2 = ?n + 1"
      "tree_ok xxh p2 lo hi (Node ?n ?s)" using g(3) by metis
  have "apply_result_to_interior xxh pid (root_id (route_spine key s)) (Replaced new) p = (Inr (Replaced ?n), p2)"
    using g(1) b(1) p2(1) t(1) by (simp add: apply_result_to_interior_def sbind_def spure_def)
  moreover have "result_ok xxh p2 n0 (Suc h) lo hi (Replaced ?n) (siblings key s \<union> C)"
    using p2(4) fresh(2) t(3) level_routed(2) [OF lev t(5)]
    by (auto simp: result_ok_def replace_routed_cells intro!: exI [of _ "Node ?n ?s"])
  moreover have "unat (bp_next_page_id p2) \<le> unat ?n + 2" unfolding p2(3) unat_next [OF ids] by simp
  ultimately show ?thesis using store.extends_trans [OF g(2) p2(2)] by blast
qed

section \<open>A split child\<close>

lemma result_ok_SplitI:
  assumes "n0 \<le> root_id lt" "n0 \<le> root_id rt" "root_id lt \<noteq> root_id rt" "lo \<le> sint k" "sint k \<le> hi"
    and "level h lt" "level h rt"
    and "tree_ok xxh p lo (sint k) lt" "tree_ok xxh p (sint k) hi rt"
    and "set (tree_cells lt) \<union> set (tree_cells rt) = C"
  shows "result_ok xxh p n0 h lo hi (Split (root_id lt) (root_id rt) k) C"
  using assms by (auto simp: result_ok_def)

lemma result_ok_ReplacedI:
  "n0 \<le> root_id t \<Longrightarrow> level h t \<Longrightarrow> tree_ok xxh p lo hi t \<Longrightarrow> set (tree_cells t) = C \<Longrightarrow>
     result_ok xxh p n0 h lo hi (Replaced (root_id t)) C"
  by (auto simp: result_ok_def)

lemma position_of_nth: "distinct xs \<Longrightarrow> i < length xs \<Longrightarrow> position_of (xs ! i) xs = Some i"
  by (induction xs arbitrary: i) (auto simp: nth_Cons split: nat.splits)

lemma splice_entries:
  assumes "distinct (spine_children s)"
  shows "splice_split_into_entries (spine_keys s) (spine_children s) (root_id (route_spine key s)) k (root_id lt) (root_id rt) =
    (spine_keys (splice_routed key lt k rt s), spine_children (splice_routed key lt k rt s))"
proof -
  have "position_of (spine_children s ! route_index key s) (spine_children s) = Some (route_index key s)"
    using position_of_nth [OF assms] route_index_child(1) by blast
  then show ?thesis
    unfolding splice_split_into_entries_def splice_routed_lists route_index_child(2) by (simp add: Let_def)
qed

lemma splice_children_set:
  "set (spine_children (splice_routed key lt k rt s)) \<subseteq> {root_id lt, root_id rt} \<union> set (spine_children s)"
  by (induction s rule: spine_right.induct) auto

lemma splice_children_distinct:
  assumes "distinct (spine_children s)" "root_id lt \<noteq> root_id rt"
    and "root_id lt \<notin> set (spine_children s)" "root_id rt \<notin> set (spine_children s)"
  shows "distinct (spine_children (splice_routed key lt k rt s))"
  using assms
proof (induction s rule: spine_right.induct)
  case (2 t k' s)
  then show ?case using splice_children_set [of key lt k rt s] by auto
qed simp

lemma splice_length: "length (spine_keys (splice_routed key lt k rt s)) = Suc (length (spine_keys s))"
  by (induction s rule: spine_right.induct) auto

lemma entries_fit:
  assumes "interior_cells buf (spine_cells s)" "n \<le> length (spine_keys s)"
  shows "cells_fit 9 (length buf) (replicate n 12)"
proof -
  have "page_cells 9 buf (spine_cells s)" using assms(1) by (simp add: interior_cells_def)
  from page_cells_space [OF this]
  have "9 + sum_list (map (\<lambda>c. length c + 2) (spine_cells s)) \<le> page_limit (length buf)" .
  moreover have "map (\<lambda>c. length c + 2) (spine_cells s) = replicate (length (spine_cells s)) 14"
    using spine_cells_children(3) [of s] by (intro nth_equalityI) (simp_all add: list_all_length)
  ultimately show ?thesis
    using assms(2) spine_cells_children(5) [of s] by (simp add: cells_fit_def sum_list_replicate)
qed

lemma split_interior_entries_ok:
  assumes inv: "store_inv xxh p" and lev: "level_spine h s"
    and s: "stored_spine (store_view xxh p) s" "bst_spine lo hi s"
    "readable xxh p (set (spine_leaf_cells s))" "distinct (spine_children s)"
    and fit: "\<And>n. n < length (spine_keys s) \<Longrightarrow> cells_fit 9 (pool_page_bytes p) (replicate n 12)"
    and keys: "spine_keys s \<noteq> []" and ids: "unat (bp_next_page_id p) + 2 < 2 ^ 32" and n0: "n0 \<le> bp_next_page_id p"
  shows "\<exists>R p'. split_interior_entries xxh (pool_page_bytes p) (spine_keys s) (spine_children s) p = (Inr R, p') \<and>
    store.extends xxh p p' \<and> unat (bp_next_page_id p') \<le> unat (bp_next_page_id p) + 2 \<and>
    result_ok xxh p' n0 (Suc h) lo hi R (set (spine_leaf_cells s))"
proof -
  let ?n = "bp_next_page_id p" and ?m = "length (spine_keys s) div 2" and ?N = "length (spine_keys s)"
  have m: "?m < ?N" using keys by (cases "spine_keys s") auto
  obtain l k r where sp: "split_spine ?m s = (l, k, r)" by (cases "split_spine ?m s") auto
  note L = split_spine_lists [OF sp m] and Bs = split_spine_bst [OF sp m s(2)] and St = split_spine_stored [OF sp m s(1)]
  have ch: "length (spine_children s) = ?N + 1" using spine_cells_children(4,5) [of s] by simp
  have ps: "4096 \<le> pool_page_bytes p" "pool_page_bytes p \<le> 65536" using store_inv_page_size [OF inv] by simp_all
  have len: "length (spine_keys l) < ?N" "length (spine_keys r) < ?N" using m by (simp_all add: L)
  obtain lb where lb: "build_interior_page (pool_page_bytes p) (spine_keys l) (spine_children l) = Inr lb"
    "length lb = pool_page_bytes p" "interior_page (page_body lb) (spine_cells l) (spine_right l)"
    by (rule build_interior_page_ok [OF fit [OF len(1)] ps])
  obtain rb where rb: "build_interior_page (pool_page_bytes p) (spine_keys r) (spine_children r) = Inr rb"
    "length rb = pool_page_bytes p" "interior_page (page_body rb) (spine_cells r) (spine_right r)"
    by (rule build_interior_page_ok [OF fit [OF len(2)] ps])
  have id: "?n \<noteq> - 1" "unat (?n + 1) + 1 < 2 ^ 32" "?n + 1 \<noteq> - 1"
    using page_id_left [OF ids] page_id_left [of "?n + 1" 1] by auto
  have rd: "readable xxh p (set (spine_leaf_cells l))" "readable xxh p (set (spine_leaf_cells r))"
    using s(3) L(6) by (auto simp: readable_def)
  have d: "distinct (spine_children l)" "distinct (spine_children r)" using s(4) by (simp_all add: L)
  from put_node_ok [OF inv lb(2) id(1) lb(3) d(1) St(1) Bs(1) rd(1)] obtain p1 where
    p1: "put_page xxh lb p = (Inr ?n, p1)" "store.extends xxh p p1" "bp_next_page_id p1 = ?n + 1"
      "tree_ok xxh p1 lo (sint k) (Node ?n l)" by blast
  have "length rb = pool_page_bytes p1" "bp_next_page_id p1 \<noteq> - 1"
    using rb(2) extends_frame(5) [OF p1(2)] p1(3) id(3) by simp_all
  from put_node_ok [OF extends_frame(1) [OF p1(2)] this rb(3) d(2) stored_mono(2) [OF St(2) extends_frame(6) [OF p1(2)]]
      Bs(2) readable_extends [OF rd(2) p1(2)]] obtain p2 where
    p2: "put_page xxh rb p1 = (Inr (?n + 1), p2)" "store.extends xxh p1 p2" "bp_next_page_id p2 = ?n + 1 + 1"
      "tree_ok xxh p2 (sint k) hi (Node (?n + 1) r)" using p1(3) by metis
  have ranges: "get_range (spine_keys s) 0 ?m = Some (spine_keys l)" "get_range (spine_children s) 0 (?m + 1) = Some (spine_children l)"
    "get_range (spine_keys s) (?m + 1) ?N = Some (spine_keys r)"
    "get_range (spine_children s) (?m + 1) (length (spine_children s)) = Some (spine_children r)"
    using m ch by (simp_all add: get_range_def L)
  have run: "split_interior_entries xxh (pool_page_bytes p) (spine_keys s) (spine_children s) p = (Inr (Split ?n (?n + 1) k), p2)"
    unfolding split_interior_entries_def Let_def ranges
    using m lb(1) rb(1) p1(1) p2(1) L(5) by (simp add: sbind_def spure_def)
  have "unat (?n + 1) = unat ?n + 1" using unat_next [OF id(1)] .
  then have "n0 \<le> ?n + 1" "?n \<noteq> ?n + 1" using n0 by (auto simp: word_le_nat_alt)
  then have "result_ok xxh p2 n0 (Suc h) lo hi (Split ?n (?n + 1) k) (set (spine_leaf_cells s))"
    using result_ok_SplitI [of n0 "Node ?n l" "Node (?n + 1) r" lo k hi "Suc h" xxh p2]
      n0 Bs(3,4) split_spine_level [OF sp m lev] tree_ok_extends [OF p1(4) p2(2)] p2(4) L(6) by simp
  moreover have "unat (bp_next_page_id p2) \<le> unat ?n + 2"
    unfolding p2(3) unat_next [OF id(3)] unat_next [OF id(1)] by simp
  ultimately show ?thesis using run store.extends_trans [OF p1(2) p2(2)] by blast
qed

lemma apply_split_ok:
  assumes inv: "store_inv xxh p" and ok: "tree_ok xxh p lo hi (Node pid s)" and lev: "level_spine h s" and key: "lo \<le> sint key" "sint key < hi"
    and res: "result_ok xxh p n0 h (route_lo key lo s) (route_hi key hi s) (Split left right k) C"
    and fresh: "\<forall>c \<in> set (spine_children s). c < n0" "n0 \<le> bp_next_page_id p"
    and ids: "unat (bp_next_page_id p) + 2 < 2 ^ 32"
  shows "\<exists>R' p'. apply_result_to_interior xxh pid (root_id (route_spine key s)) (Split left right k) p = (Inr R', p') \<and>
    store.extends xxh p p' \<and> unat (bp_next_page_id p') \<le> unat (bp_next_page_id p) + 2 \<and>
    result_ok xxh p' n0 (Suc h) lo hi R' (siblings key s \<union> C)"
proof -
  let ?n = "bp_next_page_id p"
  from res obtain lt rt where t: "root_id lt = left" "root_id rt = right" "tree_ok xxh p (route_lo key lo s) (sint k) lt"
    "tree_ok xxh p (sint k) (route_hi key hi s) rt" "set (tree_cells lt) \<union> set (tree_cells rt) = C"
    "n0 \<le> left" "n0 \<le> right" "left \<noteq> right" "route_lo key lo s \<le> sint k" "sint k \<le> route_hi key hi s"
    "level h lt" "level h rt"
    by (auto simp: result_ok_def)
  have st: "stored (store_view xxh p) (Node pid s)" "bst_spine lo hi s" "readable xxh p (set (spine_leaf_cells s))"
    using ok by (simp_all add: tree_ok_parts)
  from inv st(1) obtain buf p1 where g: "pool_get xxh pid p = (Inr buf, p1)" "store.extends xxh p p1"
    "bp_next_page_id p1 = ?n" "interior_cells buf (spine_cells s)" "rightmost_child buf = spine_right s"
    "length buf = pool_page_bytes p"
    by (rule stored_node_get)
  let ?s = "splice_routed key lt k rt s"
  have dist: "distinct (spine_children s)" using st(1) by simp
  have "left \<notin> set (spine_children s)" "right \<notin> set (spine_children s)" using fresh(1) t(6,7) by force+
  then have d: "distinct (spine_children ?s)" using splice_children_distinct [OF dist] t(1,2,8) by simp
  have ss: "stored_spine (store_view xxh p1) ?s"
    by (rule stored_mono(2) [OF replace_routed_stored(2) extends_frame(6) [OF g(2)]])
      (use st(1) t(3,4) in \<open>simp_all add: tree_ok_def\<close>)
  have bs: "bst_spine lo hi ?s"
    by (rule splice_routed_bst [OF st(2) key]) (use t(3,4,9,10) in \<open>simp_all add: tree_ok_def\<close>)
  have cells: "set (spine_leaf_cells ?s) = siblings key s \<union> C" using t(5) by (auto simp: replace_routed_cells)
  have "readable xxh p (siblings key s \<union> C)"
    using st(3) t(3,4,5) routed_path(4) [of s key] by (auto simp: readable_def tree_ok_def)
  then have rd: "readable xxh p1 (set (spine_leaf_cells ?s))" unfolding cells by (rule readable_extends [OF _ g(2)])
  have pb: "pool_page_bytes p1 = pool_page_bytes p" "store_inv xxh p1"
    using extends_frame(1,5) [OF g(2)] by simp_all
  have vp: "valid_page_size (page_bytes (pool_page_size p))" "4096 \<le> pool_page_bytes p" "pool_page_bytes p \<le> 65536"
    using store_inv_page_size [OF inv] by simp_all
  have idn: "bp_next_page_id p1 \<noteq> - 1" using g(3) page_id_left [OF ids] by simp
  note unf = apply_result_to_interior_def interior_entries_cells [OF g(4,5)] splice_entries [OF dist, of key k lt rt]
    sbind_def spure_def pool_page_bytes_def [symmetric] Let_def
  show ?thesis
  proof (cases "length (spine_keys ?s) \<le> max_interior_entries (pool_page_bytes p)")
    case True
    have "cells_fit 9 (pool_page_bytes p) (replicate (length (spine_keys ?s)) 12)"
      using max_interior_entries_fit [OF vp(1)] True by (simp add: pool_page_bytes_def)
    then obtain b where b: "build_interior_page (pool_page_bytes p) (spine_keys ?s) (spine_children ?s) = Inr b"
      "length b = pool_page_bytes p" "interior_page (page_body b) (spine_cells ?s) (spine_right ?s)"
      using build_interior_page_ok vp(2,3) by blast
    have "length b = pool_page_bytes p1" using b(2) pb(1) by simp
    from put_node_ok [OF pb(2) this idn b(3) d ss bs rd] obtain p2 where
      p2: "put_page xxh b p1 = (Inr ?n, p2)" "store.extends xxh p1 p2" "bp_next_page_id p2 = ?n + 1"
        "tree_ok xxh p2 lo hi (Node ?n ?s)" using g(3) by metis
    have "apply_result_to_interior xxh pid (root_id (route_spine key s)) (Split left right k) p = (Inr (Replaced ?n), p2)"
      using g(1) b(1) p2(1) True by (simp add: unf flip: t(1,2))
    moreover have "result_ok xxh p2 n0 (Suc h) lo hi (Replaced ?n) (siblings key s \<union> C)"
      using result_ok_ReplacedI [of n0 "Node ?n ?s"] fresh(2) p2(4) cells level_routed(3) [OF lev t(11,12)] by simp
    moreover have "unat (bp_next_page_id p2) \<le> unat ?n + 2" using idn unfolding p2(3) g(3) by (simp add: unat_next)
    ultimately show ?thesis using store.extends_trans [OF g(2) p2(2)] by blast
  next
    case False
    have fit: "cells_fit 9 (pool_page_bytes p1) (replicate n 12)" if "n < length (spine_keys ?s)" for n
      using entries_fit [OF g(4), of n] that g(6) pb(1) by (simp add: splice_length)
    have "spine_keys ?s \<noteq> []" using splice_length [of key lt k rt s] by (metis length_0_conv nat.distinct(1))
    from split_interior_entries_ok [OF pb(2) level_routed(3) [OF lev t(11,12)] ss bs rd d fit this _, of n0] obtain R p2 where
      R: "split_interior_entries xxh (pool_page_bytes p1) (spine_keys ?s) (spine_children ?s) p1 = (Inr R, p2)"
        "store.extends xxh p1 p2" "unat (bp_next_page_id p2) \<le> unat ?n + 2"
        "result_ok xxh p2 n0 (Suc h) lo hi R (siblings key s \<union> C)"
      using g(3) ids fresh(2) cells by auto
    have "apply_result_to_interior xxh pid (root_id (route_spine key s)) (Split left right k) p = (Inr R, p2)"
      using g(1) R(1) False pb(1) by (simp add: unf flip: t(1,2))
    then show ?thesis using R store.extends_trans [OF g(2) R(2)] by blast
  qed
qed

section \<open>The loop over the ancestors\<close>

fun leaf_lo :: "i64 \<Rightarrow> int \<Rightarrow> tree \<Rightarrow> int" and leaf_lo_spine :: "i64 \<Rightarrow> int \<Rightarrow> spine \<Rightarrow> int" where
  "leaf_lo key lo (Leaf pid cs) = lo"
| "leaf_lo key lo (Node pid s) = leaf_lo_spine key lo s"
| "leaf_lo_spine key lo (Last t) = leaf_lo key lo t"
| "leaf_lo_spine key lo (Sep t k s) = (if sint key < sint k then leaf_lo key lo t else leaf_lo_spine key (sint k) s)"

fun leaf_hi :: "i64 \<Rightarrow> int \<Rightarrow> tree \<Rightarrow> int" and leaf_hi_spine :: "i64 \<Rightarrow> int \<Rightarrow> spine \<Rightarrow> int" where
  "leaf_hi key hi (Leaf pid cs) = hi"
| "leaf_hi key hi (Node pid s) = leaf_hi_spine key hi s"
| "leaf_hi_spine key hi (Last t) = leaf_hi key hi t"
| "leaf_hi_spine key hi (Sep t k s) = (if sint key < sint k then leaf_hi key (sint k) t else leaf_hi_spine key hi s)"

lemma leaf_bounds_routed:
  "leaf_lo_spine key lo s = leaf_lo key (route_lo key lo s) (route_spine key s)"
  "leaf_hi_spine key hi s = leaf_hi key (route_hi key hi s) (route_spine key s)"
  by (induction s arbitrary: lo rule: spine_right.induct) auto

lemma leaf_for_bst:
  assumes "bst lo hi t" "lo \<le> sint key" "sint key < hi"
  shows "bst (leaf_lo key lo t) (leaf_hi key hi t) (Leaf (fst (leaf_for key t)) (snd (leaf_for key t)))"
    "leaf_lo key lo t \<le> sint key" "sint key < leaf_hi key hi t"
proof -
  have "bst (leaf_lo key lo t) (leaf_hi key hi t) (Leaf (fst (leaf_for key t)) (snd (leaf_for key t))) \<and>
    leaf_lo key lo t \<le> sint key \<and> sint key < leaf_hi key hi t"
    using assms
  proof (induction t arbitrary: lo hi rule: tree_route_induct [where key = key])
    case (2 pid s)
    have "bst_spine lo hi s" using "2.prems"(1) by simp
    note R = bst_route [OF this "2.prems"(2,3)]
    from "2.IH" [OF R(1-3)] show ?case by (simp add: leaf_bounds_routed routed_path)
  qed simp
  then show "bst (leaf_lo key lo t) (leaf_hi key hi t) (Leaf (fst (leaf_for key t)) (snd (leaf_for key t)))"
    "leaf_lo key lo t \<le> sint key" "sint key < leaf_hi key hi t" by blast+
qed

text \<open>Every child on a stored tree is an allocated page.\<close>

lemma stored_root_allocated:
  "store_inv xxh p \<Longrightarrow> stored (store_view xxh p) t \<Longrightarrow> root_id t < bp_next_page_id p"
  by (cases t) (auto simp: store_view_Some)

lemma stored_children_allocated:
  "store_inv xxh p \<Longrightarrow> stored_spine (store_view xxh p) s \<Longrightarrow> c \<in> set (spine_children s) \<Longrightarrow> c < bp_next_page_id p"
  by (induction s rule: spine_right.induct) (auto dest: stored_root_allocated)

lemma propagate_snoc:
  "propagate xxh (as @ [a]) old R p =
     sbind (propagate xxh as old R) (\<lambda>R'. apply_result_to_interior xxh a (last (old # as)) R') p"
proof (induction as arbitrary: old R p)
  case Nil
  show ?case by (simp add: sbind_def split: prod.split sum.split)
next
  case (Cons b as)
  have "last (old # b # as) = last (b # as)" by simp
  then show ?case
    by (cases "apply_result_to_interior xxh b old R p")
      (simp add: sbind_def Cons.IH del: last.simps split: sum.split)
qed

lemma path_ancestors_Cons: "path \<noteq> [] \<Longrightarrow> path_ancestors (pid # path) = path_ancestors path @ [pid]"
  by (cases path rule: rev_cases) (simp_all add: path_ancestors_def)

lemma path_ancestors_rev: "path \<noteq> [] \<Longrightarrow> last path # path_ancestors path = rev path"
  by (cases path rule: rev_cases) (simp_all add: path_ancestors_def)

lemma last_path_ancestors: "last (fst (leaf_for key t) # path_ancestors (path_ids key t)) = root_id t"
  using path_ancestors_rev [OF path_ids_shape(1) [of key t]] path_ids_shape [of key t] by (simp add: last_rev)

lemma apply_result_ok:
  assumes "store_inv xxh p" "tree_ok xxh p lo hi (Node pid s)" "lo \<le> sint key" "sint key < hi" "level_spine h s"
    and "result_ok xxh p n0 h (route_lo key lo s) (route_hi key hi s) R C"
    and "\<forall>c \<in> set (spine_children s). c < n0" "n0 \<le> bp_next_page_id p" "unat (bp_next_page_id p) + 2 < 2 ^ 32"
  shows "\<exists>R' p'. apply_result_to_interior xxh pid (root_id (route_spine key s)) R p = (Inr R', p') \<and>
    store.extends xxh p p' \<and> unat (bp_next_page_id p') \<le> unat (bp_next_page_id p) + 2 \<and>
    result_ok xxh p' n0 (Suc h) lo hi R' (siblings key s \<union> C)"
proof (cases R)
  case (Replaced new)
  have "bp_next_page_id p \<noteq> - 1" using page_id_left [OF assms(9)] by simp
  with assms apply_replaced_ok [of xxh p lo hi pid s h n0 key new C] Replaced show ?thesis by blast
next
  case (Split l r k)
  with assms apply_split_ok [of xxh p lo hi pid s h key n0 l r k C] show ?thesis by blast
qed

lemma propagate_ok:
  assumes "store_inv xxh p0" "stored (store_view xxh p0) t" "n0 = bp_next_page_id p0" "store.extends xxh p0 p"
    and "tree_ok xxh p lo hi t" "lo \<le> sint key" "sint key < hi"
    and "result_ok xxh p n0 0 (leaf_lo key lo t) (leaf_hi key hi t) R C" "level h t"
    and "unat (bp_next_page_id p) + 2 * height t < 2 ^ 32"
  shows "\<exists>R' p'. propagate xxh (path_ancestors (path_ids key t)) (fst (leaf_for key t)) R p = (Inr R', p') \<and>
    store.extends xxh p p' \<and> unat (bp_next_page_id p') \<le> unat (bp_next_page_id p) + 2 * height t \<and>
    result_ok xxh p' n0 h lo hi R' (other_cells key t \<union> C)"
  using assms
proof (induction t arbitrary: p lo hi R C h rule: tree_route_induct [where key = key])
  case (1 pid cs)
  then show ?case using store.extends_refl [OF extends_frame(1) [OF "1.prems"(4)]] by (simp add: path_ancestors_def)
next
  case (2 pid s)
  let ?t = "route_spine key s"
  have ok: "tree_ok xxh p (route_lo key lo s) (route_hi key hi s) ?t" using tree_ok_routed [OF "2.prems"(5-7)] .
  have st0: "stored_spine (store_view xxh p0) s" using "2.prems"(2) by simp
  have bs: "bst_spine lo hi s" using "2.prems"(5) by (simp add: tree_ok_parts)
  note br = bst_route [OF bs "2.prems"(6,7)]
  obtain n where n: "h = Suc n" "level_spine n s" using "2.prems"(9) by (cases h) auto
  have res: "result_ok xxh p n0 0 (leaf_lo key (route_lo key lo s) ?t) (leaf_hi key (route_hi key hi s) ?t) R C"
    using "2.prems"(8) by (simp add: leaf_bounds_routed)
  have h: "height ?t \<le> spine_height s" by (induction s rule: spine_right.induct) auto
  have "unat (bp_next_page_id p) + 2 * height ?t < 2 ^ 32" using "2.prems"(10) h by simp
  from "2.IH" [OF "2.prems"(1) stored_routed [OF st0] "2.prems"(3,4) ok br(2,3) res level_routed(1) [OF n(2)] this] obtain R1 p1 where
    IH: "propagate xxh (path_ancestors (path_ids key ?t)) (fst (leaf_for key ?t)) R p = (Inr R1, p1)"
      "store.extends xxh p p1" "unat (bp_next_page_id p1) \<le> unat (bp_next_page_id p) + 2 * height ?t"
      "result_ok xxh p1 n0 n (route_lo key lo s) (route_hi key hi s) R1 (other_cells key ?t \<union> C)" by blast
  have fresh: "\<forall>c \<in> set (spine_children s). c < n0"
    using stored_children_allocated [OF "2.prems"(1) st0] "2.prems"(3) by simp
  have n0: "n0 \<le> bp_next_page_id p1"
    using extends_next [OF store.extends_trans [OF "2.prems"(4) IH(2)]] "2.prems"(3) by simp
  have ids: "unat (bp_next_page_id p1) + 2 < 2 ^ 32" using IH(3) "2.prems"(10) h by simp
  from apply_result_ok [OF extends_frame(1) [OF IH(2)] tree_ok_extends [OF "2.prems"(5) IH(2)] "2.prems"(6,7) n(2) IH(4) fresh n0 ids]
  obtain R2 p2 where ap: "apply_result_to_interior xxh pid (root_id ?t) R1 p1 = (Inr R2, p2)"
    "store.extends xxh p1 p2" "unat (bp_next_page_id p2) \<le> unat (bp_next_page_id p1) + 2"
    "result_ok xxh p2 n0 h lo hi R2 (siblings key s \<union> (other_cells key ?t \<union> C))" unfolding n(1) by blast
  have "propagate xxh (path_ancestors (path_ids key (Node pid s))) (fst (leaf_for key (Node pid s))) R p = (Inr R2, p2)"
    using IH(1) ap(1)
    by (simp add: routed_path path_ancestors_Cons path_ids_shape(1) propagate_snoc sbind_def last_path_ancestors del: last.simps)
  moreover have "result_ok xxh p2 n0 h lo hi R2 (other_cells key (Node pid s) \<union> C)"
    using ap(4) by (simp add: routed_path Un_assoc)
  ultimately show ?case using store.extends_trans [OF IH(2) ap(2)] ap(3) IH(3) h by fastforce
qed

section \<open>The changed leaf and the new root\<close>

lemma leaf_result_ok:
  assumes "leaf_result (store_view xxh p) n0 R cs" "sorted_wrt (<) (cell_keys cs)" "readable xxh p (set cs)"
    and "\<And>c. c \<in> set cs \<Longrightarrow> lo \<le> sint (cell_key c) \<and> sint (cell_key c) < hi"
  shows "result_ok xxh p n0 0 lo hi R (set cs)"
proof (cases R)
  case (Replaced pid)
  with assms show ?thesis
    using result_ok_ReplacedI [of n0 "Leaf pid cs" 0 xxh p lo hi "set cs"]
    by (auto simp: leaf_result_def tree_ok_def list_all_iff)
next
  case (Split l r k)
  with assms(1) obtain left c right where s: "n0 \<le> l" "n0 \<le> r" "l \<noteq> r" "cs = left @ c # right" "k = cell_key c"
    "stored (store_view xxh p) (Leaf l left)" "stored (store_view xxh p) (Leaf r (c # right))"
    by (auto simp: leaf_result_def)
  have sorted: "sorted_wrt (<) (cell_keys left)" "sorted_wrt (<) (cell_keys (c # right))"
    "\<And>d. d \<in> set left \<Longrightarrow> sint (cell_key d) < sint k" "\<And>d. d \<in> set right \<Longrightarrow> sint k < sint (cell_key d)"
    using assms(2) by (auto simp: s(4,5) cell_keys_def sorted_wrt_append)
  have "tree_ok xxh p lo (sint k) (Leaf l left)"
    using s(4,6) sorted(1,3) assms(3,4) by (auto simp: tree_ok_def list_all_iff readable_def)
  moreover have "tree_ok xxh p (sint k) hi (Leaf r (c # right))"
    using s(4,5,7) sorted(2,4) assms(3,4) by (force simp: tree_ok_def list_all_iff readable_def less_imp_le)
  moreover have "lo \<le> sint k" "sint k \<le> hi" using assms(4) [of c] by (simp_all add: s(4,5))
  ultimately show ?thesis
    using result_ok_SplitI [of n0 "Leaf l left" "Leaf r (c # right)" lo k hi 0 xxh p "set cs"] s Split by auto
qed

lemma finalize_root_ok:
  assumes "store_inv xxh p" "result_ok xxh p n0 h lo hi R C" "n0 \<le> bp_next_page_id p" "bp_next_page_id p \<noteq> - 1"
  shows "\<exists>t p'. finalize_root xxh R p = (Inr (root_id t), p') \<and> store.extends xxh p p' \<and>
    unat (bp_next_page_id p') \<le> unat (bp_next_page_id p) + 1 \<and> n0 \<le> root_id t \<and>
    tree_ok xxh p' lo hi t \<and> set (tree_cells t) = C \<and> (level h t \<or> level (Suc h) t)"
proof (cases R)
  case (Replaced pid)
  with assms(2) obtain t where "root_id t = pid" "tree_ok xxh p lo hi t" "set (tree_cells t) = C" "n0 \<le> pid" "level h t"
    by (auto simp: result_ok_def)
  then show ?thesis using Replaced store.extends_refl [OF assms(1)] by (auto simp: finalize_root_def)
next
  case (Split l r k)
  let ?n = "bp_next_page_id p"
  from assms(2) Split obtain lt rt where t: "root_id lt = l" "root_id rt = r" "tree_ok xxh p lo (sint k) lt"
    "tree_ok xxh p (sint k) hi rt" "set (tree_cells lt) \<union> set (tree_cells rt) = C" "l \<noteq> r"
    "lo \<le> sint k" "sint k \<le> hi" "level h lt" "level h rt" by (auto simp: result_ok_def)
  let ?s = "Sep lt k (Last rt)"
  have ps: "4096 \<le> pool_page_bytes p" "pool_page_bytes p \<le> 65536" using store_inv_page_size [OF assms(1)] by simp_all
  then have "cells_fit 9 (pool_page_bytes p) (replicate (length (spine_keys ?s)) 12)"
    by (simp add: cells_fit_def page_limit_def)
  then obtain b where b: "build_interior_page (pool_page_bytes p) (spine_keys ?s) (spine_children ?s) = Inr b"
    "length b = pool_page_bytes p" "interior_page (page_body b) (spine_cells ?s) (spine_right ?s)"
    using build_interior_page_ok ps by blast
  have d: "distinct (spine_children ?s)" "stored_spine (store_view xxh p) ?s" "bst_spine lo hi ?s"
    "readable xxh p (set (spine_leaf_cells ?s))"
    using t by (auto simp: tree_ok_def readable_def)
  from put_node_ok [OF assms(1) b(2) assms(4) b(3) d] obtain p' where
    p': "put_page xxh b p = (Inr ?n, p')" "store.extends xxh p p'" "bp_next_page_id p' = ?n + 1"
      "tree_ok xxh p' lo hi (Node ?n ?s)" by blast
  have "finalize_root xxh R p = sbind (spure (build_interior_page (pool_page_bytes p) (spine_keys ?s) (spine_children ?s))) (put_page xxh) p"
    using Split t(1,2)
    by (simp add: finalize_root_def build_interior_page_def pool_page_bytes_def get_or_def sbind_def spure_def rbind_def
        split: sum.split)
  then have "finalize_root xxh R p = (Inr ?n, p')" using b(1) p'(1) by simp
  moreover have "set (tree_cells (Node ?n ?s)) = C" "level (Suc h) (Node ?n ?s)" using t(5,9,10) by simp_all
  moreover have "unat (bp_next_page_id p') \<le> unat ?n + 1" unfolding p'(3) unat_next [OF assms(4)] by simp
  ultimately show ?thesis using p'(2,4) assms(3) by (metis root_id.simps(2))
qed

lemma collapse_root_ok:
  assumes "store_inv xxh p" "tree_ok xxh p lo hi t"
  shows "\<exists>t' p'. collapse_root_if_needed xxh (root_id t) p = (Inr (root_id t'), p') \<and> store.extends xxh p p' \<and>
    bp_next_page_id p' = bp_next_page_id p \<and> tree_ok xxh p' lo hi t' \<and> set (tree_cells t') = set (tree_cells t) \<and>
    (t' = t \<or> (\<exists>pid. t = Node pid (Last t')))"
proof (cases t)
  case (Leaf pid cs)
  have "stored (store_view xxh p) (Leaf pid cs)" using assms(2) Leaf by (simp add: tree_ok_def)
  with assms(1) obtain buf p1 where g: "pool_get xxh pid p = (Inr buf, p1)" "store.extends xxh p p1"
    "bp_next_page_id p1 = bp_next_page_id p" "read_u8 buf 0 = Inr PAGE_TYPE_LEAF"
    by (rule stored_leaf_get)
  then have "collapse_root_if_needed xxh (root_id t) p = (Inr (root_id t), p1)"
    using Leaf by (simp add: collapse_root_if_needed_def sbind_def spure_def page_consts)
  then show ?thesis using g(2,3) tree_ok_extends [OF assms(2) g(2)] by blast
next
  case (Node pid s)
  have ok: "stored (store_view xxh p) (Node pid s)" using assms(2) Node by (simp add: tree_ok_def)
  with assms(1) obtain buf p1 where g: "pool_get xxh pid p = (Inr buf, p1)" "store.extends xxh p p1"
    "bp_next_page_id p1 = bp_next_page_id p" "interior_cells buf (spine_cells s)" "rightmost_child buf = spine_right s"
    "read_u8 buf 0 = Inr PAGE_TYPE_INTERIOR"
    by (rule stored_node_get)
  note nc = num_cells_interior [OF g(4)]
  have run: "collapse_root_if_needed xxh (root_id t) p =
      (if word_of_nat (length (spine_cells s)) = (0 :: u16) then interior_rightmost buf else Inr (root_id t), p1)"
    using Node g(1,6) nc(1) by (simp add: collapse_root_if_needed_def sbind_def spure_def)
  show ?thesis
  proof (cases s)
    case (Last t')
    have "tree_ok xxh p lo hi t'" using assms(2) Node Last by (simp add: tree_ok_def)
    then show ?thesis
      using run Last Node g(2,3,5) interior_cells_rightmost [OF g(4)] tree_ok_extends [OF _ g(2)] by auto
  next
    case (Sep u k s')
    then have "word_of_nat (length (spine_cells s)) \<noteq> (0 :: u16)" using nc(2) by auto
    then show ?thesis using run g(2,3) tree_ok_extends [OF assms(2) g(2)] by auto
  qed
qed

end
