(* ===== verification/Tree_Ops.thy ===== *)
theory Tree_Ops
  imports Tree_Propagate
begin

text \<open>
  The operations of the tree against the finite map it stands for: \<open>represents\<close> relates a
  pool, the tree on its pages and the map; lookup and scan return what the map holds, insert,
  update and delete lead to a pool that represents the changed map, and their errors are those
  of a map.
\<close>

section \<open>Positions in a leaf\<close>

definition key_index :: "i64 \<Rightarrow> bytes list \<Rightarrow> nat" where
  "key_index key cs = length (takeWhile (\<lambda>c. sint (cell_key c) < sint key) cs)"

lemma length_takeWhile_eq:
  assumes "i \<le> length xs" "\<forall>j < i. P (xs ! j)" "i < length xs \<Longrightarrow> \<not> P (xs ! i)"
  shows "length (takeWhile P xs) = i"
proof -
  have "takeWhile P (take i xs @ drop i xs) = take i xs @ takeWhile P (drop i xs)"
    by (rule takeWhile_append2) (use assms(2) in \<open>auto simp: in_set_conv_nth\<close>)
  moreover have "takeWhile P (drop i xs) = []"
    using assms(1,3) by (cases "i < length xs") (auto simp: Cons_nth_drop_Suc [symmetric])
  ultimately show ?thesis using assms(1) by simp
qed

lemma search_result_key_index:
  assumes "sorted_wrt (<) (cell_keys cs)" "search_result cs key r"
  shows "r = Inl i \<Longrightarrow> i = key_index key cs \<and> i \<le> length cs"
    and "r = Inr i \<Longrightarrow> i = key_index key cs \<and> i < length cs"
proof -
  assume "r = Inl i"
  with assms(2) have s: "i \<le> length cs" "\<forall>j < i. sint (cell_key (cs ! j)) < sint key"
    "\<forall>j. i \<le> j \<and> j < length cs \<longrightarrow> sint key < sint (cell_key (cs ! j))" by (simp_all add: search_result_def)
  then have "\<not> sint (cell_key (cs ! i)) < sint key" if "i < length cs" using that by (simp add: less_imp_le not_less)
  then show "i = key_index key cs \<and> i \<le> length cs"
    using length_takeWhile_eq [OF s(1,2)] s(1) by (simp add: key_index_def)
next
  assume "r = Inr i"
  with assms(2) have s: "i < length cs" "cell_key (cs ! i) = key" by (simp_all add: search_result_def)
  then have "\<forall>j < i. sint (cell_key (cs ! j)) < sint key" using sorted_keys_nth(2) [OF assms(1)] by auto
  then show "i = key_index key cs \<and> i < length cs"
    using length_takeWhile_eq [of i cs "\<lambda>c. sint (cell_key c) < sint key"] s by (simp add: key_index_def)
qed

lemma cell_keys_append: "cell_keys (xs @ ys) = cell_keys xs @ cell_keys ys"
  and cell_keys_Cons: "cell_keys (c # cs) = sint (cell_key c) # cell_keys cs"
  by (simp_all add: cell_keys_def)

lemma set_list_insert: "set (list_insert i x xs) = insert x (set xs)"
proof -
  have "set xs = set (take i xs) \<union> set (drop i xs)" by (metis append_take_drop_id set_append)
  then show ?thesis by (simp add: list_insert_def)
qed

lemma sorted_insert_cell:
  assumes "sorted_wrt (<) (cell_keys cs)" "search_result cs (cell_key c) (Inl i)"
  shows "sorted_wrt (<) (cell_keys (list_insert i c cs))"
proof -
  have s: "i \<le> length cs" "\<forall>j < i. sint (cell_key (cs ! j)) < sint (cell_key c)"
    "\<forall>j. i \<le> j \<and> j < length cs \<longrightarrow> sint (cell_key c) < sint (cell_key (cs ! j))"
    using assms(2) by (simp_all add: search_result_def)
  have l: "sint (cell_key d) < sint (cell_key c)" if "d \<in> set (take i cs)" for d
    using that s(1,2) by (auto simp: in_set_conv_nth)
  have r: "sint (cell_key c) < sint (cell_key d)" if "d \<in> set (drop i cs)" for d
    using that s(3) by (auto simp: in_set_conv_nth)
  have "sorted_wrt (<) (cell_keys (take i cs @ drop i cs))" using assms(1) by simp
  with l r show ?thesis
    unfolding list_insert_def cell_keys_append cell_keys_Cons sorted_wrt_append
    by (auto simp: cell_keys_def intro: less_trans)
qed

lemma sorted_remove_cell:
  assumes "sorted_wrt (<) (cell_keys cs)" "i < length cs"
  shows "sorted_wrt (<) (cell_keys (take i cs @ drop (Suc i) cs))"
    "set (take i cs @ drop (Suc i) cs) = {c \<in> set cs. cell_key c \<noteq> cell_key (cs ! i)}"
    "search_result (take i cs @ drop (Suc i) cs) (cell_key (cs ! i)) (Inl i)"
proof -
  have cs: "cs = take i cs @ cs ! i # drop (Suc i) cs" using assms(2) by (simp add: Cons_nth_drop_Suc)
  have s: "sorted_wrt (<) (cell_keys (take i cs @ cs ! i # drop (Suc i) cs))" using assms(1) cs by simp
  then show "sorted_wrt (<) (cell_keys (take i cs @ drop (Suc i) cs))"
    unfolding cell_keys_append cell_keys_Cons by (simp add: sorted_wrt_append)
  have ord: "\<forall>c \<in> set (take i cs). sint (cell_key c) < sint (cell_key (cs ! i))"
    "\<forall>c \<in> set (drop (Suc i) cs). sint (cell_key (cs ! i)) < sint (cell_key c)"
    using s unfolding cell_keys_append cell_keys_Cons by (auto simp: sorted_wrt_append cell_keys_def)
  have "set cs = set (take i cs) \<union> {cs ! i} \<union> set (drop (Suc i) cs)" using arg_cong [OF cs, of set] by simp
  then show "set (take i cs @ drop (Suc i) cs) = {c \<in> set cs. cell_key c \<noteq> cell_key (cs ! i)}"
    using ord by auto
  have "(take i cs @ drop (Suc i) cs) ! j \<in> set (take i cs)" if "j < i" for j
    using that assms(2) by (simp add: nth_append in_set_conv_nth) (metis length_take min.absorb2 less_imp_le nth_take)
  moreover have "(take i cs @ drop (Suc i) cs) ! j \<in> set (drop (Suc i) cs)" if "i \<le> j" "j < length cs - 1" for j
    using that assms(2) nth_mem [of "j - i" "drop (Suc i) cs"] by (simp add: nth_append)
  ultimately show "search_result (take i cs @ drop (Suc i) cs) (cell_key (cs ! i)) (Inl i)"
    using ord assms(2) by (auto simp: search_result_def)
qed

section \<open>The cells of one key\<close>

lemma siblings_other_key:
  assumes "bst_spine lo hi s" "c \<in> siblings key s"
  shows "cell_key c \<noteq> key"
  using assms
proof (induction s arbitrary: lo rule: spine_right.induct)
  case (2 t k s)
  show ?case
  proof (cases "sint key < sint k")
    case True
    then show ?thesis using "2.prems" bst_bounds(2) [of "sint k" hi s c] by auto
  next
    case False
    then show ?thesis using 2 bst_bounds(1) [of lo "sint k" t c] by auto
  qed
qed simp

lemma other_cells_other_key:
  assumes "bst lo hi t" "lo \<le> sint key" "sint key < hi" "c \<in> other_cells key t"
  shows "cell_key c \<noteq> key"
  using assms
proof (induction t arbitrary: lo hi rule: tree_route_induct [where key = key])
  case (2 pid s)
  have b: "bst_spine lo hi s" using "2.prems"(1) by simp
  from "2.prems"(4) consider "c \<in> siblings key s" | "c \<in> other_cells key (route_spine key s)"
    by (auto simp: routed_path)
  then show ?case
  proof cases
    case 1
    then show ?thesis by (rule siblings_other_key [OF b])
  next
    case 2
    then show ?thesis by (rule "2.IH" [OF bst_route(1-3) [OF b "2.prems"(2,3)]])
  qed
qed simp

lemma maps_to_put:
  assumes "store_inv xxh p" "maps_to xxh p C M" "cell_key c = key" "holds xxh p c row"
  shows "maps_to xxh p (insert c {d \<in> C. cell_key d \<noteq> key}) (M(key \<mapsto> row))"
  unfolding maps_to_def
proof (intro allI)
  fix k r
  show "(M(key \<mapsto> row)) k = Some r \<longleftrightarrow> (\<exists>d \<in> insert c {d \<in> C. cell_key d \<noteq> key}. cell_key d = k \<and> holds xxh p d r)"
  proof (cases "k = key")
    case True
    have "holds xxh p c r \<longleftrightarrow> r = row" using assms(4) holds_unique [OF assms(1,4), of r] by blast
    then show ?thesis using True assms(3) by auto
  next
    case False
    then show ?thesis using assms(2,3) by (auto simp: maps_to_def)
  qed
qed

lemma maps_to_del: "maps_to xxh p C M \<Longrightarrow> maps_to xxh p {d \<in> C. cell_key d \<noteq> key} (M(key := None))"
  by (auto simp: maps_to_def)

section \<open>The map a pool represents\<close>

definition represents :: "(bytes \<Rightarrow> u64) \<Rightarrow> pool \<Rightarrow> tree option \<Rightarrow> (i64 \<rightharpoonup> row) \<Rightarrow> bool" where
  "represents xxh p t M \<longleftrightarrow> store_inv xxh p \<and>
     (case t of
        None \<Rightarrow> pool_root_page_id p = EMPTY_TREE_ROOT \<and> M = Map.empty
      | Some t \<Rightarrow> pool_root_page_id p \<noteq> EMPTY_TREE_ROOT \<and> root_id t = pool_root_page_id p \<and>
          tree_ok xxh p KEY_MIN KEY_END t \<and> level (height t) t \<and> maps_to xxh p (set (tree_cells t)) M)"

lemma represents_cases:
  assumes "represents xxh p t M"
  obtains (empty) "t = None" "store_inv xxh p" "pool_root_page_id p = EMPTY_TREE_ROOT" "M = Map.empty"
    | (tree) u where "t = Some u" "store_inv xxh p" "pool_root_page_id p = root_id u" "root_id u \<noteq> EMPTY_TREE_ROOT"
      "tree_ok xxh p KEY_MIN KEY_END u" "maps_to xxh p (set (tree_cells u)) M" "level (height u) u"
  using assms by (cases t) (auto simp: represents_def)

lemma stored_root_id: "store_inv xxh p \<Longrightarrow> stored (store_view xxh p) t \<Longrightarrow> 2 \<le> unat (root_id t)"
  using store.view_allocated [of xxh p "root_id t"] by (cases t) auto

lemma root_not_empty: "2 \<le> unat r \<Longrightarrow> r \<noteq> EMPTY_TREE_ROOT"
  by (auto simp: page_consts)

text \<open>
  The path of copies from a changed leaf to the new root: the other leaves stay, the leaf's cells
  are the new ones.
\<close>

lemma finish_write:
  assumes inv: "store_inv xxh p0" and ok: "tree_ok xxh p0 KEY_MIN KEY_END t" and ext: "store.extends xxh p0 p"
    and res: "leaf_result (store_view xxh p) (bp_next_page_id p0) R cs" and sorted: "sorted_wrt (<) (cell_keys cs)"
    and keys: "cell_key ` set cs \<subseteq> insert key (cell_key ` set (snd (leaf_for key t)))"
    and rd: "readable xxh p (set cs)" and ids: "unat (bp_next_page_id p) + 2 * height t + 1 < 2 ^ 32"
    and lev: "level (height t) t"
  shows "\<exists>t' p'. sbind (propagate xxh (path_ancestors (path_ids key t)) (fst (leaf_for key t)) R) (finalize_root xxh) p =
      (Inr (root_id t'), p') \<and> store.extends xxh p p' \<and> tree_ok xxh p' KEY_MIN KEY_END t' \<and>
    set (tree_cells t') = other_cells key t \<union> set cs \<and> level (height t') t' \<and> height t' \<le> Suc (height t) \<and>
    unat (bp_next_page_id p') \<le> unat (bp_next_page_id p) + 2 * height t + 1"
proof -
  let ?n0 = "bp_next_page_id p0"
  have bst: "bst KEY_MIN KEY_END t" "stored (store_view xxh p0) t" using ok by (simp_all add: tree_ok_def)
  note LB = leaf_for_bst [OF bst(1) key_range [of key]]
  have "leaf_lo key KEY_MIN t \<le> sint (cell_key c) \<and> sint (cell_key c) < leaf_hi key KEY_END t" if "c \<in> set cs" for c
  proof (cases "cell_key c = key")
    case True
    then show ?thesis using LB(2,3) by simp
  next
    case False
    with that keys obtain d where "d \<in> set (snd (leaf_for key t))" "cell_key c = cell_key d" by auto
    then show ?thesis using LB(1) by (auto simp: list_all_iff)
  qed
  from leaf_result_ok [OF res sorted rd this]
  have R: "result_ok xxh p ?n0 0 (leaf_lo key KEY_MIN t) (leaf_hi key KEY_END t) R (set cs)" .
  have "unat (bp_next_page_id p) + 2 * height t < 2 ^ 32" using ids by simp
  from propagate_ok [OF inv bst(2) refl ext tree_ok_extends [OF ok ext] key_range [of key] R lev this] obtain R' p1 where
    P: "propagate xxh (path_ancestors (path_ids key t)) (fst (leaf_for key t)) R p = (Inr R', p1)" "store.extends xxh p p1"
      "unat (bp_next_page_id p1) \<le> unat (bp_next_page_id p) + 2 * height t"
      "result_ok xxh p1 ?n0 (height t) KEY_MIN KEY_END R' (other_cells key t \<union> set cs)" by blast
  have "?n0 \<le> bp_next_page_id p1" using extends_next [OF store.extends_trans [OF ext P(2)]] .
  moreover have "bp_next_page_id p1 \<noteq> - 1" using page_id_left [of "bp_next_page_id p1" 1] P(3) ids by simp
  ultimately obtain t' p' where F: "finalize_root xxh R' p1 = (Inr (root_id t'), p')" "store.extends xxh p1 p'"
    "tree_ok xxh p' KEY_MIN KEY_END t'" "set (tree_cells t') = other_cells key t \<union> set cs"
    "unat (bp_next_page_id p') \<le> unat (bp_next_page_id p1) + 1" "level (height t) t' \<or> level (Suc (height t)) t'"
    using finalize_root_ok [OF extends_frame(1) [OF P(2)] P(4)] by blast
  have "sbind (propagate xxh (path_ancestors (path_ids key t)) (fst (leaf_for key t)) R) (finalize_root xxh) p = (Inr (root_id t'), p')"
    using P(1) F(1) by (simp add: sbind_def)
  moreover have "level (height t') t'" "height t' \<le> Suc (height t)" using F(6) level_height(1) by auto
  moreover have "unat (bp_next_page_id p') \<le> unat (bp_next_page_id p) + 2 * height t + 1" using F(5) P(3) by simp
  ultimately show ?thesis using F(3,4) store.extends_trans [OF P(2) F(2)] by blast
qed

text \<open>
  What a committed write leaves: the new tree and its map, nothing pending or dirty, the next
  transaction; at most \<open>k\<close> page ids were taken, the tree is not higher than \<open>h\<close> and
  has its cells from \<open>C\<close>.
\<close>

definition written ::
    "(bytes \<Rightarrow> u64) \<Rightarrow> pool \<Rightarrow> pool \<Rightarrow> tree \<Rightarrow> (i64 \<rightharpoonup> row) \<Rightarrow> nat \<Rightarrow> nat \<Rightarrow> bytes set \<Rightarrow> bool" where
  "written xxh p p' t' M k h C \<longleftrightarrow> represents xxh p' (Some t') M \<and> f_pending (pool_file p') = [] \<and> bp_dirty p' = [] \<and> pager_inv xxh (bp_pager p') \<and>
     p_txn_id (bp_pager p') = p_txn_id (bp_pager p) + 1 \<and> p_page_count (bp_pager p') = bp_next_page_id p' \<and>
     pool_page_size p' = pool_page_size p \<and> unat (bp_next_page_id p') \<le> unat (bp_next_page_id p) + k \<and>
     height t' \<le> h \<and> set (tree_cells t') \<subseteq> C"

lemma extends_txn: "store.extends xxh p p' \<Longrightarrow> p_txn_id (bp_pager p') = p_txn_id (bp_pager p)"
  using same_pager_sel(4) by (auto simp: store.extends_def store_frame_def)

lemma written_after:
  assumes "written xxh p1 p' t' M k h C" "store.extends xxh p p1" "unat (bp_next_page_id p1) \<le> unat (bp_next_page_id p) + j"
    and "j + k \<le> k'" "h \<le> h'" "C \<subseteq> C'"
  shows "written xxh p p' t' M k' h' C'"
  using assms extends_txn [OF assms(2)] extends_frame(2) [OF assms(2)] by (auto simp: written_def)

text \<open>Committing a tree makes it the one the pool represents.\<close>

lemma commit_represents:
  assumes "store_inv xxh p" "p_txn_id (bp_pager p) \<noteq> - 1" "tree_ok xxh p KEY_MIN KEY_END t"
    and "maps_to xxh p (set (tree_cells t)) M" "level (height t) t"
  obtains p' where "pool_commit xxh (root_id t) p = (Inr (), p')"
    "written xxh p p' t M 0 (height t) (set (tree_cells t))"
proof -
  from assms(1,2) obtain p' where p': "pool_commit xxh (root_id t) p = (Inr (), p')" "store_inv xxh p'"
    "store_view xxh p \<subseteq>\<^sub>m store_view xxh p'" "pool_root_page_id p' = root_id t" "pool_page_size p' = pool_page_size p"
    "f_pending (pool_file p') = []" "bp_dirty p' = []" "p_txn_id (bp_pager p') = p_txn_id (bp_pager p) + 1"
    "bp_next_page_id p' = bp_next_page_id p" "p_page_count (bp_pager p') = bp_next_page_id p" "pager_inv xxh (bp_pager p')"
    by (rule store_commit [where root = "root_id t"])
  then have g: "grows xxh p p'" by (simp add: grows_def)
  have "root_id t \<noteq> EMPTY_TREE_ROOT"
    using root_not_empty stored_root_id [OF assms(1)] assms(3) by (simp add: tree_ok_def)
  moreover have "readable xxh p (set (tree_cells t))" using assms(3) by (simp add: tree_ok_def)
  ultimately have "represents xxh p' (Some t) M"
    using p'(2,4) tree_ok_grows [OF assms(3) g] maps_to_grows [OF assms(4) _ g] assms(5) by (simp add: represents_def)
  with p' that show thesis by (simp add: written_def)
qed

section \<open>Lookup and scan\<close>

lemma represents_extends:
  assumes "represents xxh p t M" "store.extends xxh p p'"
  shows "represents xxh p' t M"
  using assms(1)
proof (cases rule: represents_cases)
  case empty
  then show ?thesis using extends_frame(1,3) [OF assms(2)] by (simp add: represents_def)
next
  case (tree u)
  then have "readable xxh p (set (tree_cells u))" by (simp add: tree_ok_def)
  then show ?thesis
    using tree extends_frame(1,3) [OF assms(2)] tree_ok_extends [OF tree(5) assms(2)] maps_to_extends [OF tree(6) _ assms(2)]
    by (simp add: represents_def)
qed

text \<open>A call that changed nothing but the cache.\<close>

definition looked_at :: "(bytes \<Rightarrow> u64) \<Rightarrow> pool \<Rightarrow> pool \<Rightarrow> bool" where
  "looked_at xxh p p' \<longleftrightarrow> store.extends xxh p p' \<and> bp_next_page_id p' = bp_next_page_id p"

lemma represents_looked_at: "represents xxh p t M \<Longrightarrow> looked_at xxh p p' \<Longrightarrow> represents xxh p' t M"
  using represents_extends by (simp add: looked_at_def)

lemma represents_refl: "represents xxh p t M \<Longrightarrow> looked_at xxh p p"
  using store.extends_refl by (auto simp: looked_at_def represents_def)

lemma get_represents:
  assumes "represents xxh p t M"
  obtains p' where "btree_get xxh key p = Some (Inr (M key), p')" "looked_at xxh p p'"
  using assms
proof (cases rule: represents_cases)
  case empty
  then show thesis
    using that [of p] represents_refl [OF assms] by (simp add: btree_get_def)
next
  case (tree u)
  from get_loop_tree [OF tree(2,5) key_range [of key]] obtain r p' where
    r: "get_loop xxh key (max_local_of p) (root_id u) p = Some (Inr r, p')" "store.extends xxh p p'" "bp_next_page_id p' = bp_next_page_id p"
      "\<forall>row. r = Some row \<longleftrightarrow> (\<exists>c \<in> set (tree_cells u). cell_key c = key \<and> holds xxh p c row)" by blast
  have "r = Some row \<longleftrightarrow> M key = Some row" for row using r(4) tree(6) by (simp add: maps_to_def)
  then have "r = M key" by (metis option.exhaust)
  then show thesis
    using that [of p'] r(1-3) tree(3,4) by (simp add: btree_get_def max_local_of_def looked_at_def)
qed

lemma bst_sorted:
  "bst lo hi t \<Longrightarrow> sorted_wrt (<) (cell_keys (tree_cells t))"
  "bst_spine lo hi s \<Longrightarrow> sorted_wrt (<) (cell_keys (spine_leaf_cells s))"
proof (induction t and s arbitrary: lo hi and lo hi)
  case (Sep t k s)
  have "sint (cell_key c) < sint (cell_key d)" if "c \<in> set (tree_cells t)" "d \<in> set (spine_leaf_cells s)" for c d
    using bst_bounds(1) [of lo "sint k" t c] bst_bounds(2) [of "sint k" hi s d] Sep.prems that by simp
  with Sep show ?case by (auto simp: cell_keys_append sorted_wrt_append) (auto simp: cell_keys_def)
qed auto

text \<open>A list of pairs in strictly ascending key order that is the graph of the map.\<close>

definition lists_map :: "(i64 \<times> row) list \<Rightarrow> (i64 \<rightharpoonup> row) \<Rightarrow> bool" where
  "lists_map rs M \<longleftrightarrow> sorted_wrt (<) (map (\<lambda>(key, row). sint key) rs) \<and> map_of rs = M"

lemma rows_of_keys: "rows_of xxh p cs rs \<Longrightarrow> map (\<lambda>(key, row). sint key) rs = cell_keys cs"
  unfolding rows_of_def cell_keys_def by (induction rule: list_all2_induct) auto

lemma rows_of_set:
  "rows_of xxh p cs rs \<Longrightarrow> (key, row) \<in> set rs \<Longrightarrow> \<exists>c \<in> set cs. cell_key c = key \<and> holds xxh p c row"
  "rows_of xxh p cs rs \<Longrightarrow> c \<in> set cs \<Longrightarrow> \<exists>row. (cell_key c, row) \<in> set rs \<and> holds xxh p c row"
  unfolding rows_of_def by (induction rule: list_all2_induct) auto

lemma sorted_keys_distinct:
  "sorted_wrt (<) (map (\<lambda>(key, row). sint (key :: i64)) rs) \<Longrightarrow> distinct (map fst rs)"
  by (induction rs) force+

lemma rows_of_maps_to:
  assumes "store_inv xxh p" "rows_of xxh p cs rs" "maps_to xxh p (set cs) M" "sorted_wrt (<) (cell_keys cs)"
  shows "lists_map rs M"
proof -
  have s: "sorted_wrt (<) (map (\<lambda>(key, row). sint key) rs)" using rows_of_keys [OF assms(2)] assms(4) by simp
  have d: "distinct (map fst rs)" using sorted_keys_distinct [OF s] .
  have "map_of rs key = Some row \<longleftrightarrow> M key = Some row" for key row
  proof -
    have "map_of rs key = Some row \<longleftrightarrow> (key, row) \<in> set rs" using d by (simp add: map_of_eq_Some_iff)
    also have "\<dots> \<longleftrightarrow> (\<exists>c \<in> set cs. cell_key c = key \<and> holds xxh p c row)"
    proof
      assume "\<exists>c \<in> set cs. cell_key c = key \<and> holds xxh p c row"
      then obtain c where c: "c \<in> set cs" "cell_key c = key" "holds xxh p c row" by blast
      from rows_of_set(2) [OF assms(2) c(1)] obtain row' where r: "(key, row') \<in> set rs" "holds xxh p c row'"
        using c(2) by blast
      with holds_unique [OF assms(1) c(3) r(2)] show "(key, row) \<in> set rs" by simp
    qed (rule rows_of_set(1) [OF assms(2)])
    also have "\<dots> \<longleftrightarrow> M key = Some row" using assms(3) by (simp add: maps_to_def)
    finally show ?thesis .
  qed
  then have "map_of rs = M" by (intro ext) (metis option.exhaust)
  with s show ?thesis by (simp add: lists_map_def)
qed

lemma scan_represents:
  assumes "represents xxh p t M"
  obtains rs p' where "btree_scan xxh p = Some (Inr rs, p')" "lists_map rs M" "looked_at xxh p p'"
  using assms
proof (cases rule: represents_cases)
  case empty
  then show thesis
    using that [of "[]" p] represents_refl [OF assms] by (simp add: btree_scan_def lists_map_def)
next
  case (tree u)
  have ok: "stored (store_view xxh p) u" "readable xxh p (set (tree_cells u))" "bst KEY_MIN KEY_END u"
    using tree(5) by (simp_all add: tree_ok_def)
  from scan_node_tree(1) [OF tree(2) ok(1,2), of "[]"] obtain rs p' where
    r: "scan_node xxh (root_id u) [] p = Some (Inr rs, p')" "store.extends xxh p p'" "rows_of xxh p (tree_cells u) rs"
      "bp_next_page_id p' = bp_next_page_id p"
    by auto
  then show thesis
    using that [of rs p'] rows_of_maps_to [OF tree(2) r(3) tree(6) bst_sorted(1) [OF ok(3)]] tree(3,4) r(2,4)
    by (simp add: btree_scan_def looked_at_def)
qed

section \<open>Reaching the leaf\<close>

lemma path_leaf_ids: "path_leaf (path_ids key t) = Inr (fst (leaf_for key t))"
  using path_ids_shape [of key t] by (simp add: path_leaf_def)

lemma leaf_accepts_pad:
  assumes "13 \<le> length buf"
  shows "leaf_accepts buf cs i n \<longleftrightarrow> leaf_accepts (pad (page_body buf)) cs i n"
proof -
  have "slice (page_body buf) 3 2 = slice buf 3 2" using slice_page_body [of 3 2 buf] assms by simp
  moreover have "slice (pad (page_body buf)) 3 2 = slice (page_body buf) 3 2"
    using slice_append_left [of 3 2 "page_body buf"] assms by (simp add: pad_def page_body_length)
  ultimately have "content_pos (pad (page_body buf)) = content_pos buf" by (simp add: content_pos_def u16_at_def)
  then show ?thesis using assms by (simp add: leaf_accepts_def page_body_length)
qed

lemma locate_leaf:
  assumes "store_inv xxh p" "tree_ok xxh p KEY_MIN KEY_END t"
  obtains p1 p2 buf r where
    "descend_path xxh (root_id t) key p = Some (Inr (path_ids key t), p1)"
    "pool_get xxh (fst (leaf_for key t)) p1 = (Inr buf, p2)" "store.extends xxh p p2"
    "bp_next_page_id p2 = bp_next_page_id p" "page_cells 5 buf (snd (leaf_for key t))" "u8_at buf 0 = PAGE_TYPE_LEAF"
    "length buf = pool_page_bytes p2" "store_view xxh p (fst (leaf_for key t)) = Some (page_body buf)"
    "leaf_search buf key = Inr r" "search_result (snd (leaf_for key t)) key r"
proof -
  let ?leaf = "fst (leaf_for key t)" and ?cs = "snd (leaf_for key t)"
  have st: "stored (store_view xxh p) t" "bst KEY_MIN KEY_END t" "readable xxh p (set (tree_cells t))"
    using assms(2) by (simp_all add: tree_ok_def)
  from assms(1) st(1) obtain p1 where d: "descend_path xxh (root_id t) key p = Some (Inr (path_ids key t), p1)"
    "store.extends xxh p p1" "bp_next_page_id p1 = bp_next_page_id p" by (rule descend_path_tree)
  have sl: "stored (store_view xxh p) (Leaf ?leaf ?cs)" by (rule leaf_for_stored [OF st(1)])
  have "stored (store_view xxh p1) (Leaf ?leaf ?cs)" by (rule stored_mono(1) [OF sl extends_frame(6) [OF d(2)]])
  with extends_frame(1) [OF d(2)] obtain buf p2 where g: "pool_get xxh ?leaf p1 = (Inr buf, p2)" "store.extends xxh p1 p2"
    "bp_next_page_id p2 = bp_next_page_id p1" "page_cells 5 buf ?cs" "u8_at buf 0 = PAGE_TYPE_LEAF"
    "length buf = pool_page_bytes p1" "store_view xxh p1 ?leaf = Some (page_body buf)"
    by (rule stored_leaf_get) blast
  have "readable xxh p (set ?cs)" using st(3) tree_cells_split [of t key] by (auto simp: readable_def)
  note wf = leaf_cells_wf [OF this]
  have "sorted_wrt (<) (cell_keys ?cs)" using leaf_for_bst(1) [OF st(2) key_range [of key]] by simp
  then obtain r where r: "leaf_search buf key = Inr r" "search_result ?cs key r"
    using leaf_search_cells [OF g(4) wf(2)] by blast
  obtain b where "store_view xxh p ?leaf = Some b" using sl by auto
  then have "store_view xxh p ?leaf = Some (page_body buf)" using store.extends_view [OF d(2)] g(7) by force
  then show thesis
    using that [OF d(1) g(1) store.extends_trans [OF d(2) g(2)] _ g(4,5) _ _ r] d(3) g(3,6) extends_frame(5) [OF g(2)]
    by simp
qed

section \<open>From the changed leaf to the committed root\<close>

lemma dlift_sbind: "dbind (dlift m) (\<lambda>r. dbind (dlift (f r)) g) = dbind (dlift (sbind m f)) g"
  by (auto simp: fun_eq_iff dbind_def dlift_def sbind_def split: prod.split sum.split)

definition cells_of :: "tree option \<Rightarrow> bytes set" where
  "cells_of t = (case t of None \<Rightarrow> {} | Some u \<Rightarrow> set (tree_cells u))"

definition height_of :: "tree option \<Rightarrow> nat" where
  "height_of t = (case t of None \<Rightarrow> 0 | Some u \<Rightarrow> height u)"

text \<open>The loop over the ancestors, the new root and the commit, as insert and update end.\<close>

definition write_tail :: "(bytes \<Rightarrow> u64) \<Rightarrow> u32 list \<Rightarrow> u32 \<Rightarrow> node_result \<Rightarrow> u32 pdmethod" where
  "write_tail xxh path leaf_id result =
     dbind (dlift (propagate xxh (path_ancestors path) leaf_id result)) (\<lambda>result.
     dbind (dlift (finalize_root xxh result)) (\<lambda>new_root.
     dbind (dlift (pool_commit xxh new_root)) (\<lambda>_.
       dpure (Inr new_root))))"

text \<open>The cells of the key's leaf without the key's own, and the write's whole need of page ids.\<close>

definition leaf_rest :: "i64 \<Rightarrow> tree \<Rightarrow> bytes list" where
  "leaf_rest key t = filter (\<lambda>c. cell_key c \<noteq> key) (snd (leaf_for key t))"

definition ids_left :: "pool \<Rightarrow> tree option \<Rightarrow> nat \<Rightarrow> bool" where
  "ids_left p t n \<longleftrightarrow> unat (bp_next_page_id p) + n + 2 * height_of t + 3 < 2 ^ 32 \<and> p_txn_id (bp_pager p) \<noteq> - 1"

lemma write_tail_represents:
  assumes "store_inv xxh p0" "tree_ok xxh p0 KEY_MIN KEY_END t" "store.extends xxh p0 p"
    and "leaf_result (store_view xxh p) (bp_next_page_id p0) R cs" "sorted_wrt (<) (cell_keys cs)"
    and "cell_key ` set cs \<subseteq> insert key (cell_key ` set (snd (leaf_for key t)))" "readable xxh p (set cs)"
    and "unat (bp_next_page_id p) + 2 * height t + 1 < 2 ^ 32" "p_txn_id (bp_pager p) \<noteq> - 1"
    and "maps_to xxh p (other_cells key t \<union> set cs) M" "level (height t) t"
  obtains t' p' where "write_tail xxh (path_ids key t) (fst (leaf_for key t)) R p = Some (Inr (root_id t'), p')"
    "written xxh p p' t' M (2 * height t + 1) (Suc (height t)) (other_cells key t \<union> set cs)"
proof -
  from finish_write [OF assms(1-8,11)] obtain t' p1 where
    F: "sbind (propagate xxh (path_ancestors (path_ids key t)) (fst (leaf_for key t)) R) (finalize_root xxh) p = (Inr (root_id t'), p1)"
      "store.extends xxh p p1" "tree_ok xxh p1 KEY_MIN KEY_END t'" "set (tree_cells t') = other_cells key t \<union> set cs"
      "level (height t') t'" "height t' \<le> Suc (height t)" "unat (bp_next_page_id p1) \<le> unat (bp_next_page_id p) + (2 * height t + 1)"
    by fastforce
  have "readable xxh p (other_cells key t)"
    using assms(2) readable_extends [OF _ assms(3)] tree_cells_split [of t key]
    by (auto simp: tree_ok_def readable_def)
  then have "readable xxh p (other_cells key t \<union> set cs)" using assms(7) by (auto simp: readable_def)
  then have m: "maps_to xxh p1 (set (tree_cells t')) M" using maps_to_extends [OF assms(10) _ F(2)] F(4) by simp
  have "p_txn_id (bp_pager p1) \<noteq> - 1" using extends_txn [OF F(2)] assms(9) by simp
  from commit_represents [OF extends_frame(1) [OF F(2)] this F(3) m F(5)] obtain p' where
    c: "pool_commit xxh (root_id t') p1 = (Inr (), p')" "written xxh p1 p' t' M 0 (height t') (set (tree_cells t'))" .
  have "written xxh p p' t' M (2 * height t + 1) (Suc (height t)) (other_cells key t \<union> set cs)"
    by (rule written_after [OF c(2) F(2,7)]) (use F(4,6) in simp_all)
  then show thesis
    using that F(1) c(1) by (simp add: write_tail_def dlift_sbind dbind_def dlift_def dpure_def)
qed

section \<open>Insert and update\<close>

text \<open>
  What an insertion or update of \<open>row\<close> under \<open>key\<close> relies on: enough page ids and a
  transaction number are left, and the key's leaf takes the new cell, or the halves of its split
  do. The source checks neither.
\<close>

definition room_for :: "(bytes \<Rightarrow> u64) \<Rightarrow> pool \<Rightarrow> tree option \<Rightarrow> i64 \<Rightarrow> row \<Rightarrow> bool" where
  "room_for xxh p t key row \<longleftrightarrow> ids_left p t (length (row_bytes row)) \<and>
     (case t of
        None \<Rightarrow> True
      | Some u \<Rightarrow>
          (case store_view xxh p (fst (leaf_for key u)) of
             None \<Rightarrow> False
           | Some b \<Rightarrow> leaf_accepts (pad b) (leaf_rest key u) (key_index key (leaf_rest key u)) (row_cell_len p row)))"

lemma put_cell:
  assumes inv: "store_inv xxh p" and ok: "tree_ok xxh p KEY_MIN KEY_END t" and maps: "maps_to xxh p (set (tree_cells t)) M"
    and row: "row_fits row" "row_wf row" and left: "ids_left p (Some t) (length (row_bytes row))"
    and ext: "store.extends xxh p p2" and nx: "bp_next_page_id p2 = bp_next_page_id p"
    and buf: "page_cells 5 buf (leaf_rest key t)" "u8_at buf 0 = PAGE_TYPE_LEAF" "length buf = pool_page_bytes p2"
      "search_result (leaf_rest key t) key (Inl i)" "sorted_wrt (<) (cell_keys (leaf_rest key t))"
    and acc: "leaf_accepts buf (leaf_rest key t) i (row_cell_len p row)" and lev: "level (height t) t"
  obtains t' p' where "dbind (build_row_cell xxh key row) (\<lambda>cell. dbind (dlift (leaf_insert_or_split xxh buf i cell))
      (write_tail xxh (path_ids key t) (fst (leaf_for key t)))) p2 = Some (Inr (root_id t'), p')"
    "written xxh p p' t' (M(key \<mapsto> row)) (length (row_bytes row) + 2 * height t + 3) (Suc (height t))
      (set (tree_cells t) \<union> {c. length c = row_cell_len p row})"
proof -
  let ?cs = "leaf_rest key t" and ?leaf = "fst (leaf_for key t)"
  have idx: "i \<le> length ?cs" using search_result_key_index(1) [OF buf(5,4)] by simp
  have ids: "unat (bp_next_page_id p) + length (row_bytes row) + 2 * height t + 3 < 2 ^ 32" "p_txn_id (bp_pager p) \<noteq> - 1"
    using left by (simp_all add: ids_left_def height_of_def)
  have "unat (bp_next_page_id p2) + length (row_bytes row) < 2 ^ 32" using nx ids(1) by simp
  with extends_frame(1) [OF ext] row obtain c p3 where
    c: "build_row_cell xxh key row p2 = Some (Inr c, p3)" "store.extends xxh p2 p3" "cell_key c = key"
      "cell_holds (store_view xxh p3) (chunk_cap_of p2) (max_local_of p2) c row" "length c = row_cell_len p2 row"
      "unat (bp_next_page_id p3) \<le> unat (bp_next_page_id p2) + length (row_bytes row)"
    by (rule build_row_cell_ok)
  note e3 = store.extends_trans [OF ext c(2)]
  have hold: "holds xxh p3 c row" using c(4) extends_frame(4) [OF c(2)] extends_max_local [OF c(2)] by (simp add: holds_def)
  have len: "length c = row_cell_len p row" "row_cell_len p row = row_cell_len p3 row"
    using c(5) extends_max_local [OF ext] extends_max_local [OF e3] by (simp_all add: row_cell_len_def)
  have rest: "set ?cs \<subseteq> set (tree_cells t)" using tree_cells_split [of t key] by (auto simp: leaf_rest_def)
  have rd: "readable xxh p3 (set (tree_cells t))" using ok readable_extends [OF _ e3] by (simp add: tree_ok_def)
  then have rd_cs: "readable xxh p3 (set ?cs)" using rest by (auto simp: readable_def)
  have lb: "length buf = pool_page_bytes p3" using buf(3) extends_frame(5) [OF c(2)] by simp
  have l8: "8 \<le> length c" "length c \<le> 16 + unat (max_local_of p3)" using len by (simp_all add: row_cell_len_def)
  have ac: "leaf_accepts buf ?cs i (length c)" using acc len by simp
  have nx3: "unat (bp_next_page_id p3) + 2 < 2 ^ 32" using c(6) nx ids(1) by simp
  from leaf_insert_or_split_ok [OF extends_frame(1) [OF c(2)] buf(1,2) lb leaf_cells_wf(1) [OF rd_cs] idx l8 ac nx3]
  obtain R p4 where L: "leaf_insert_or_split xxh buf i c p3 = (Inr R, p4)" "store.extends xxh p3 p4"
    "leaf_result (store_view xxh p4) (bp_next_page_id p3) R (list_insert i c ?cs)"
    "unat (bp_next_page_id p4) \<le> unat (bp_next_page_id p3) + 2" by blast
  note e4 = store.extends_trans [OF e3 L(2)]
  let ?new = "list_insert i c ?cs"
  have new: "set ?new = insert c (set ?cs)" by (rule set_list_insert)
  have hold4: "holds xxh p4 c row" by (rule holds_extends [OF hold L(2)])
  have rd4: "readable xxh p4 (set ?new)"
    using readable_extends [OF rd_cs L(2)] hold4 by (auto simp: new readable_def)
  have sorted: "sorted_wrt (<) (cell_keys ?new)" using sorted_insert_cell [OF buf(5)] buf(4) c(3) by simp
  have keys: "cell_key ` set ?new \<subseteq> insert key (cell_key ` set (snd (leaf_for key t)))"
    unfolding new using c(3) by (auto simp: leaf_rest_def)
  have bst: "bst KEY_MIN KEY_END t" using ok by (simp add: tree_ok_def)
  have "other_cells key t \<union> set ?new = insert c {d \<in> set (tree_cells t). cell_key d \<noteq> key}"
    unfolding new using other_cells_other_key [OF bst key_range [of key]] tree_cells_split [of t key]
    by (auto simp: leaf_rest_def)
  moreover have "maps_to xxh p4 (set (tree_cells t)) M"
    using maps_to_extends [OF maps _ e4] ok by (simp add: tree_ok_def)
  ultimately have m: "maps_to xxh p4 (other_cells key t \<union> set ?new) (M(key \<mapsto> row))"
    using maps_to_put [OF extends_frame(1) [OF e4] _ c(3) hold4] by simp
  have nx4: "unat (bp_next_page_id p4) + 2 * height t + 1 < 2 ^ 32" using L(4) c(6) nx ids(1) by simp
  have txn: "p_txn_id (bp_pager p4) \<noteq> - 1" using extends_txn [OF e4] ids(2) by simp
  from write_tail_represents [OF extends_frame(1) [OF c(2)] tree_ok_extends [OF ok e3] L(2,3) sorted keys rd4 nx4 txn m lev]
  obtain t' p' where w: "write_tail xxh (path_ids key t) ?leaf R p4 = Some (Inr (root_id t'), p')"
    "written xxh p4 p' t' (M(key \<mapsto> row)) (2 * height t + 1) (Suc (height t)) (other_cells key t \<union> set ?new)" .
  have k: "unat (bp_next_page_id p4) \<le> unat (bp_next_page_id p) + (length (row_bytes row) + 2)" using L(4) c(6) nx by simp
  have "other_cells key t \<union> set ?new \<subseteq> set (tree_cells t) \<union> {c. length c = row_cell_len p row}"
    unfolding new using rest tree_cells_split [of t key] len(1) by auto
  then have "written xxh p p' t' (M(key \<mapsto> row)) (length (row_bytes row) + 2 * height t + 3) (Suc (height t))
      (set (tree_cells t) \<union> {c. length c = row_cell_len p row})"
    by (intro written_after [OF w(2) e4 k]) simp_all
  then show thesis using that c(1) L(1) w(1) by (simp add: dbind_def dlift_def)
qed

lemma insert_empty:
  assumes "represents xxh p None M" "row_fits row" "row_wf row" "room_for xxh p None key row"
  obtains t' p' where "btree_insert xxh key row p = Some (Inr (root_id t'), p')"
    "written xxh p p' t' (M(key \<mapsto> row)) (length (row_bytes row) + 3) 1 {c. length c = row_cell_len p row}"
    "bp_next_page_id p \<le> root_id t'"
proof -
  have r: "store_inv xxh p" "pool_root_page_id p = EMPTY_TREE_ROOT" "M = Map.empty"
    using assms(1) by (simp_all add: represents_def)
  have ids: "unat (bp_next_page_id p) + length (row_bytes row) + 3 < 2 ^ 32" "p_txn_id (bp_pager p) \<noteq> - 1"
    using assms(4) by (simp_all add: room_for_def ids_left_def height_of_def)
  have "unat (bp_next_page_id p) + length (row_bytes row) < 2 ^ 32" using ids(1) by simp
  with r(1) assms(2,3) obtain c p1 where
    c: "build_row_cell xxh key row p = Some (Inr c, p1)" "store.extends xxh p p1" "cell_key c = key"
      "cell_holds (store_view xxh p1) (chunk_cap_of p) (max_local_of p) c row" "length c = row_cell_len p row"
      "unat (bp_next_page_id p1) \<le> unat (bp_next_page_id p) + length (row_bytes row)"
    by (rule build_row_cell_ok)
  have hold: "holds xxh p1 c row" using c(4) extends_frame(4) [OF c(2)] extends_max_local [OF c(2)] by (simp add: holds_def)
  have ps: "4096 \<le> pool_page_bytes p1" "pool_page_bytes p1 \<le> 65536" "pool_page_bytes p1 = pool_page_bytes p"
    using store_inv_page_size [OF extends_frame(1) [OF c(2)]] extends_frame(5) [OF c(2)] by simp_all
  have "length c \<le> pool_page_bytes p1 - 27" using c(5) unat_max_local_of [OF r(1)] ps by (simp add: row_cell_len_def)
  then have "cells_fit 5 (pool_page_bytes p1) (map length [c])" using ps by (simp add: cells_fit_def page_limit_def)
  from build_leaf_page_ok [OF this ps(1,2)] obtain b where
    b: "build_leaf_page (pool_page_bytes p1) [c] = Inr b" "length b = pool_page_bytes p1" "leaf_page (page_body b) [c]" .
  let ?n = "bp_next_page_id p1" and ?t = "Leaf (bp_next_page_id p1) [c]"
  have "?n \<noteq> - 1" using page_id_left [of ?n 1] c(6) ids(1) by simp
  from put_page_ok [OF extends_frame(1) [OF c(2)] b(2) this] obtain p2 where
    p2: "put_page xxh b p1 = (Inr ?n, p2)" "store.extends xxh p1 p2" "store_view xxh p2 ?n = Some (page_body b)"
    "bp_next_page_id p2 = ?n + 1" by metis
  note e2 = store.extends_trans [OF c(2) p2(2)]
  have hold2: "holds xxh p2 c row" by (rule holds_extends [OF hold p2(2)])
  have ok: "tree_ok xxh p2 KEY_MIN KEY_END ?t"
    using p2(3) b(3) hold2 key_range [of "cell_key c"] by (auto simp: tree_ok_def readable_def cell_keys_def)
  have "maps_to xxh p2 {} M" by (simp add: maps_to_def r(3))
  from maps_to_put [OF extends_frame(1) [OF p2(2)] this c(3) hold2]
  have m: "maps_to xxh p2 (set (tree_cells ?t)) (M(key \<mapsto> row))" by simp
  have "p_txn_id (bp_pager p2) \<noteq> - 1" using extends_txn [OF e2] ids(2) by simp
  from commit_represents [OF extends_frame(1) [OF p2(2)] this ok m] obtain p' where
    p': "pool_commit xxh (root_id ?t) p2 = (Inr (), p')" "written xxh p2 p' ?t (M(key \<mapsto> row)) 0 (height ?t) (set (tree_cells ?t))"
    by auto
  have k: "unat (bp_next_page_id p2) \<le> unat (bp_next_page_id p) + (length (row_bytes row) + 1)"
    using c(6) unat_next [OF \<open>?n \<noteq> - 1\<close>] p2(4) by simp
  have w: "written xxh p p' ?t (M(key \<mapsto> row)) (length (row_bytes row) + 3) 1 {c. length c = row_cell_len p row}"
    by (intro written_after [OF p'(2) e2 k]) (use c(5) in simp_all)
  have zero: "bytes_usize (pool_page_size p1) = pool_page_bytes p1" by (simp add: pool_page_bytes_def)
  obtain b0 where b0: "init_leaf (replicate (pool_page_bytes p1) 0) = Inr b0" "insert_cell_at b0 LEAF_HEADER_LEN 0 c = Inr b"
    using b(1) by (auto simp: build_leaf_page_def rbind_eq_Inr)
  have "btree_insert xxh key row p = Some (Inr ?n, p')"
    using r(2) c(1) b0 p2(1) p'(1) zero
    by (simp add: btree_insert_def dbind_def dlift_def dpure_def Let_def)
  then show thesis using that [of ?t p'] w extends_next [OF c(2)] by simp
qed

lemma insert_represents:
  assumes rep: "represents xxh p t M" and row: "row_fits row" "row_wf row" and new: "M key = None"
    and room: "room_for xxh p t key row"
  obtains t' p' where "btree_insert xxh key row p = Some (Inr (root_id t'), p')"
    "written xxh p p' t' (M(key \<mapsto> row)) (length (row_bytes row) + 2 * height_of t + 3) (Suc (height_of t))
      (cells_of t \<union> {c. length c = row_cell_len p row})"
  using rep
proof (cases rule: represents_cases)
  case empty
  from rep row room empty(1) obtain t' p' where "btree_insert xxh key row p = Some (Inr (root_id t'), p')"
    "written xxh p p' t' (M(key \<mapsto> row)) (length (row_bytes row) + 3) 1 {c. length c = row_cell_len p row}"
    using insert_empty [of xxh p M row key] by blast
  then show thesis using that empty(1) by (simp add: height_of_def cells_of_def)
next
  case (tree u)
  let ?cs = "snd (leaf_for key u)"
  from locate_leaf [OF tree(2,5), of key] obtain p1 p2 buf r where
    l: "descend_path xxh (root_id u) key p = Some (Inr (path_ids key u), p1)"
      "pool_get xxh (fst (leaf_for key u)) p1 = (Inr buf, p2)" "store.extends xxh p p2"
      "bp_next_page_id p2 = bp_next_page_id p" "page_cells 5 buf ?cs" "u8_at buf 0 = PAGE_TYPE_LEAF"
      "length buf = pool_page_bytes p2" "store_view xxh p (fst (leaf_for key u)) = Some (page_body buf)"
      "leaf_search buf key = Inr r" "search_result ?cs key r" .
  have bst: "bst KEY_MIN KEY_END u" "readable xxh p (set (tree_cells u))" using tree(5) by (simp_all add: tree_ok_def)
  have sorted: "sorted_wrt (<) (cell_keys ?cs)" using leaf_for_bst(1) [OF bst(1) key_range [of key]] by simp
  have nokey: "key \<notin> cell_key ` set (tree_cells u)"
    using new tree(6) bst(2) by (force simp: maps_to_def readable_def)
  then have "key \<notin> cell_key ` set ?cs" using tree_cells_split [of u key] by auto
  then obtain i where i: "r = Inl i" using search_result_found [OF sorted l(10)] by (cases r) auto
  have rest: "leaf_rest key u = ?cs" using \<open>key \<notin> cell_key ` set ?cs\<close> by (auto simp: leaf_rest_def filter_id_conv)
  have 13: "13 \<le> length buf" using page_cells_bounds [OF l(5)] by simp
  have pre: "page_cells 5 buf (leaf_rest key u)" "search_result (leaf_rest key u) key (Inl i)"
    "sorted_wrt (<) (cell_keys (leaf_rest key u))" using l(5,10) sorted i by (simp_all add: rest)
  have acc: "leaf_accepts buf (leaf_rest key u) i (row_cell_len p row)"
    using room l(8) leaf_accepts_pad [OF 13] search_result_key_index(1) [OF pre(3,2)] by (simp add: room_for_def tree(1))
  have "ids_left p (Some u) (length (row_bytes row))" using room by (simp add: room_for_def tree(1))
  from put_cell [OF tree(2,5,6) row this l(3,4) pre(1) l(6,7) pre(2,3) acc tree(7)] obtain t' p' where
    "dbind (build_row_cell xxh key row) (\<lambda>cell. dbind (dlift (leaf_insert_or_split xxh buf i cell))
      (write_tail xxh (path_ids key u) (fst (leaf_for key u)))) p2 = Some (Inr (root_id t'), p')"
    "written xxh p p' t' (M(key \<mapsto> row)) (length (row_bytes row) + 2 * height u + 3) (Suc (height u))
      (set (tree_cells u) \<union> {c. length c = row_cell_len p row})"
    by blast
  then show thesis
    using that l(1,2,9) i tree(3,4) path_leaf_ids [of key u]
    by (simp add: tree(1) height_of_def cells_of_def btree_insert_def write_tail_def [abs_def] dbind_dlift_ok dbind_ok)
qed

lemma dbind_dpure_fun: "dbind (dpure (Inr a)) f = f a"
  by (rule ext) simp

text \<open>The search that update and delete start with.\<close>

lemma find_key_present:
  assumes "store_inv xxh p" "tree_ok xxh p KEY_MIN KEY_END u" "pool_root_page_id p = root_id u" "root_id u \<noteq> EMPTY_TREE_ROOT"
    and "key \<in> cell_key ` set (tree_cells u)"
  obtains p2 buf i buf' where
    "find_key xxh key p = Some (Inr (path_ids key u, fst (leaf_for key u), buf, i), p2)" "store.extends xxh p p2"
    "bp_next_page_id p2 = bp_next_page_id p" "page_cells 5 buf (snd (leaf_for key u))"
    "i < length (snd (leaf_for key u))" "cell_key (snd (leaf_for key u) ! i) = key"
    "\<exists>off. remove_cell_at buf LEAF_HEADER_LEN i = Inr (off, buf')" "page_cells 5 buf' (leaf_rest key u)"
    "u8_at buf' 0 = PAGE_TYPE_LEAF" "length buf' = pool_page_bytes p2" "sorted_wrt (<) (cell_keys (leaf_rest key u))"
    "search_result (leaf_rest key u) key (Inl i)"
    "\<forall>n. leaf_accepts buf' (leaf_rest key u) i n \<longleftrightarrow>
      (\<exists>b. store_view xxh p (fst (leaf_for key u)) = Some b \<and> leaf_accepts (pad b) (leaf_rest key u) i n)"
proof -
  let ?cs = "snd (leaf_for key u)"
  from locate_leaf [OF assms(1,2), of key] obtain p1 p2 buf r where
    l: "descend_path xxh (root_id u) key p = Some (Inr (path_ids key u), p1)"
      "pool_get xxh (fst (leaf_for key u)) p1 = (Inr buf, p2)" "store.extends xxh p p2"
      "bp_next_page_id p2 = bp_next_page_id p" "page_cells 5 buf ?cs" "u8_at buf 0 = PAGE_TYPE_LEAF"
      "length buf = pool_page_bytes p2" "store_view xxh p (fst (leaf_for key u)) = Some (page_body buf)"
      "leaf_search buf key = Inr r" "search_result ?cs key r" .
  have bst: "bst KEY_MIN KEY_END u" using assms(2) by (simp add: tree_ok_def)
  have sorted: "sorted_wrt (<) (cell_keys ?cs)" using leaf_for_bst(1) [OF bst key_range [of key]] by simp
  have "key \<in> cell_key ` set ?cs"
    using assms(5) other_cells_other_key [OF bst key_range [of key]] tree_cells_split [of u key] by auto
  then obtain i where i: "r = Inr i" "i < length ?cs" "cell_key (?cs ! i) = key"
    using search_result_found [OF sorted l(10)] l(10) by (auto simp: search_result_def)
  note rm = sorted_remove_cell [OF sorted i(2)]
  let ?rest = "take i ?cs @ drop (Suc i) ?cs"
  have "leaf_rest key u = ?rest"
  proof -
    have "\<forall>c \<in> set ?rest. cell_key c \<noteq> key" using rm(2) i(3) by simp
    then have "filter (\<lambda>c. cell_key c \<noteq> key) ?rest = ?rest" by (simp add: filter_id_conv)
    then have "filter (\<lambda>c. cell_key c \<noteq> key) (take i ?cs @ ?cs ! i # drop (Suc i) ?cs) = ?rest" using i(3) by simp
    then show ?thesis using i(2) by (simp add: leaf_rest_def Cons_nth_drop_Suc)
  qed
  note rest = this
  obtain buf' where b: "remove_cell_at buf 5 i = Inr (u16_at buf (5 + i * 2), buf')" "length buf' = length buf"
    "page_cells 5 buf' ?rest" "content_pos buf' = content_pos buf"
    "\<And>at m. at + m \<le> 1 \<or> 5 \<le> at \<and> at + m \<le> 5 \<Longrightarrow> slice buf' at m = slice buf at m"
    using page_cells_remove [OF l(5) i(2)] by blast
  have u8: "u8_at buf' 0 = PAGE_TYPE_LEAF" using b(5) [of 0 1] l(6) by (simp add: u8_at_def)
  have 13: "13 \<le> length buf" using page_cells_bounds [OF l(5)] by simp
  have acc: "leaf_accepts buf' (leaf_rest key u) i n \<longleftrightarrow>
      (\<exists>b. store_view xxh p (fst (leaf_for key u)) = Some b \<and> leaf_accepts (pad b) (leaf_rest key u) i n)" for n
    using l(8) leaf_accepts_pad [OF 13, of "leaf_rest key u" i n] b(2,4) by (simp add: leaf_accepts_def)
  have "find_key xxh key p = Some (Inr (path_ids key u, fst (leaf_for key u), buf, i), p2)"
    using l(1,2,9) i(1) assms(3,4) path_leaf_ids [of key u] by (simp add: find_key_def dbind_dlift_ok dbind_ok) (simp add: dpure_def)
  then show thesis
    using that [of buf i p2 buf'] l(3,4,5,7) i(2,3) b(1,2,3) rm(1,3) u8 acc by (simp add: rest layout_consts)
qed

lemma represents_key:
  assumes "tree_ok xxh p lo hi u" "maps_to xxh p (set (tree_cells u)) M"
  shows "M key = None \<longleftrightarrow> key \<notin> cell_key ` set (tree_cells u)"
proof -
  have "M key \<noteq> None \<longleftrightarrow> (\<exists>row. \<exists>c \<in> set (tree_cells u). cell_key c = key \<and> holds xxh p c row)"
    using assms(2) by (simp add: maps_to_def)
  also have "\<dots> \<longleftrightarrow> key \<in> cell_key ` set (tree_cells u)"
    using assms(1) by (fastforce simp: tree_ok_def readable_def)
  finally show ?thesis by blast
qed

lemma find_key_absent:
  assumes "represents xxh p t M" "M key = None"
  obtains p' where "find_key xxh key p = Some (Inl (Permanent (KeyNotFound key)), p')" "looked_at xxh p p'"
  using assms(1)
proof (cases rule: represents_cases)
  case empty
  then show thesis using that [of p] represents_refl [OF assms(1)] by (simp add: find_key_def)
next
  case (tree u)
  from locate_leaf [OF tree(2,5), of key] obtain p1 p2 buf r where
    l: "descend_path xxh (root_id u) key p = Some (Inr (path_ids key u), p1)"
      "pool_get xxh (fst (leaf_for key u)) p1 = (Inr buf, p2)" "store.extends xxh p p2"
      "bp_next_page_id p2 = bp_next_page_id p" "page_cells 5 buf (snd (leaf_for key u))" "u8_at buf 0 = PAGE_TYPE_LEAF"
      "length buf = pool_page_bytes p2" "store_view xxh p (fst (leaf_for key u)) = Some (page_body buf)"
      "leaf_search buf key = Inr r" "search_result (snd (leaf_for key u)) key r" .
  have bst: "bst KEY_MIN KEY_END u" using tree(5) by (simp add: tree_ok_def)
  have sorted: "sorted_wrt (<) (cell_keys (snd (leaf_for key u)))" using leaf_for_bst(1) [OF bst key_range [of key]] by simp
  have "key \<notin> cell_key ` set (tree_cells u)" using assms(2) represents_key [OF tree(5,6)] by simp
  then have "key \<notin> cell_key ` set (snd (leaf_for key u))" using tree_cells_split [of u key] by auto
  then obtain i where "r = Inl i" using search_result_found [OF sorted l(10)] by (cases r) auto
  then have "find_key xxh key p = Some (Inl (Permanent (KeyNotFound key)), p2)"
    using l(1,2,9) tree(3,4) path_leaf_ids [of key u] by (simp add: find_key_def dbind_dlift_ok dbind_ok)
  then show thesis using that l(3,4) by (simp add: looked_at_def)
qed

lemma update_represents:
  assumes rep: "represents xxh p t M" and row: "row_fits row" "row_wf row" and old: "M key \<noteq> None"
    and room: "room_for xxh p t key row"
  obtains t' p' where "btree_update xxh key row p = Some (Inr (root_id t'), p')"
    "written xxh p p' t' (M(key \<mapsto> row)) (length (row_bytes row) + 2 * height_of t + 3) (Suc (height_of t))
      (cells_of t \<union> {c. length c = row_cell_len p row})"
  using rep
proof (cases rule: represents_cases)
  case empty
  then show thesis using old by simp
next
  case (tree u)
  have "key \<in> cell_key ` set (tree_cells u)" using represents_key [OF tree(5,6)] old by simp
  from find_key_present [OF tree(2,5,3,4) this] obtain p2 buf i buf' where
    f: "find_key xxh key p = Some (Inr (path_ids key u, fst (leaf_for key u), buf, i), p2)" "store.extends xxh p p2"
      "bp_next_page_id p2 = bp_next_page_id p" "page_cells 5 buf (snd (leaf_for key u))"
      "i < length (snd (leaf_for key u))" "cell_key (snd (leaf_for key u) ! i) = key"
      "\<exists>off. remove_cell_at buf LEAF_HEADER_LEN i = Inr (off, buf')"
      "page_cells 5 buf' (leaf_rest key u)" "u8_at buf' 0 = PAGE_TYPE_LEAF" "length buf' = pool_page_bytes p2"
      "sorted_wrt (<) (cell_keys (leaf_rest key u))" "search_result (leaf_rest key u) key (Inl i)"
      "\<forall>n. leaf_accepts buf' (leaf_rest key u) i n \<longleftrightarrow>
        (\<exists>b. store_view xxh p (fst (leaf_for key u)) = Some b \<and> leaf_accepts (pad b) (leaf_rest key u) i n)" .
  have ids: "ids_left p (Some u) (length (row_bytes row))" using room by (simp add: room_for_def tree(1))
  have acc: "leaf_accepts buf' (leaf_rest key u) i (row_cell_len p row)"
    using room search_result_key_index(1) [OF f(11,12)] f(13) by (auto simp: room_for_def tree(1) split: option.splits)
  from put_cell [OF tree(2,5,6) row ids f(2,3,8,9,10,12,11) acc tree(7)] obtain t' p' where
    "dbind (build_row_cell xxh key row) (\<lambda>cell. dbind (dlift (leaf_insert_or_split xxh buf' i cell))
      (write_tail xxh (path_ids key u) (fst (leaf_for key u)))) p2 = Some (Inr (root_id t'), p')"
    "written xxh p p' t' (M(key \<mapsto> row)) (length (row_bytes row) + 2 * height u + 3) (Suc (height u))
      (set (tree_cells u) \<union> {c. length c = row_cell_len p row})"
    by blast
  moreover obtain off where "remove_cell_at buf LEAF_HEADER_LEN i = Inr (off, buf')" using f(7) by blast
  ultimately show thesis
    using that f(1) by (simp add: tree(1) height_of_def cells_of_def btree_update_def write_tail_def [abs_def] dbind_ok dbind_dpure_fun)
qed

lemma delete_represents:
  assumes rep: "represents xxh p t M" and old: "M key = Some row" and left: "ids_left p t 0"
  obtains t' p' where "btree_delete xxh key p = Some (Inr (root_id t', row), p')"
    "written xxh p p' t' (M(key := None)) (2 * height_of t + 3) (Suc (height_of t)) (cells_of t)"
  using rep
proof (cases rule: represents_cases)
  case empty
  then show thesis using old by simp
next
  case (tree u)
  let ?cs = "snd (leaf_for key u)" and ?leaf = "fst (leaf_for key u)"
  have ids: "unat (bp_next_page_id p) + 2 * height u + 3 < 2 ^ 32" "p_txn_id (bp_pager p) \<noteq> - 1"
    using left by (simp_all add: ids_left_def height_of_def tree(1))
  have "key \<in> cell_key ` set (tree_cells u)" using represents_key [OF tree(5,6), of key] old by auto
  from find_key_present [OF tree(2,5,3,4) this] obtain p2 buf i buf' where
    f: "find_key xxh key p = Some (Inr (path_ids key u, ?leaf, buf, i), p2)" "store.extends xxh p p2"
      "bp_next_page_id p2 = bp_next_page_id p" "page_cells 5 buf ?cs" "i < length ?cs" "cell_key (?cs ! i) = key"
      "\<exists>off. remove_cell_at buf LEAF_HEADER_LEN i = Inr (off, buf')" "page_cells 5 buf' (leaf_rest key u)"
      "u8_at buf' 0 = PAGE_TYPE_LEAF" "length buf' = pool_page_bytes p2" "sorted_wrt (<) (cell_keys (leaf_rest key u))"
      "search_result (leaf_rest key u) key (Inl i)"
      "\<forall>n. leaf_accepts buf' (leaf_rest key u) i n \<longleftrightarrow>
        (\<exists>b. store_view xxh p ?leaf = Some b \<and> leaf_accepts (pad b) (leaf_rest key u) i n)" .
  have bst: "bst KEY_MIN KEY_END u" "readable xxh p (set (tree_cells u))" using tree(5) by (simp_all add: tree_ok_def)
  have mem: "?cs ! i \<in> set (tree_cells u)" using f(5) tree_cells_split [of u key] by simp
  then obtain row' where "holds xxh p (?cs ! i) row'" using bst(2) unfolding readable_def by blast
  then have hold: "holds xxh p (?cs ! i) row" using tree(6) f(6) mem old unfolding maps_to_def by (metis option.inject)
  have hold2: "holds xxh p2 (?cs ! i) row" by (rule holds_extends [OF hold f(2)])
  from extends_frame(1) [OF f(2)] hold2 [unfolded holds_def] obtain bs p3 where
    re: "reassemble xxh (parse_leaf_cell (?cs ! i)) p2 = Some (Inr bs, p3)" "row_decode bs = Inr row"
      "store.extends xxh p2 p3" "bp_next_page_id p3 = bp_next_page_id p2" by (rule reassemble_holds)
  have "readable xxh p (set ?cs)" using bst(2) tree_cells_split [of u key] by (auto simp: readable_def)
  note wf = leaf_cells_wf(1) [OF this]
  have cell: "leaf_cell_at buf i (max_local_of p) = Inr (parse_leaf_cell (?cs ! i))"
    using wf f(5) by (intro leaf_cell_at_cells [OF f(4)]) (simp_all add: list_all_length)
  note e3 = store.extends_trans [OF f(2) re(3)]
  let ?n = "bp_next_page_id p3" and ?rest = "leaf_rest key u"
  have "length buf' = pool_page_bytes p3" "?n \<noteq> - 1"
    using f(3,10) extends_frame(5) [OF re(3)] re(4) ids(1) page_id_left [of ?n 1] by simp_all
  from put_page_ok [OF extends_frame(1) [OF e3] this] obtain p4 where
    p4: "put_page xxh buf' p3 = (Inr ?n, p4)" "store.extends xxh p3 p4" "bp_next_page_id p4 = ?n + 1"
      "store_view xxh p4 ?n = Some (page_body buf')" .
  note e4 = store.extends_trans [OF e3 p4(2)]
  have res: "leaf_result (store_view xxh p4) ?n (Replaced ?n) ?rest"
    using p4(4) leaf_page_of_buf [OF f(8,9)] by (simp add: leaf_result_def)
  have sub: "set ?rest \<subseteq> set (tree_cells u)" using tree_cells_split [of u key] by (auto simp: leaf_rest_def)
  have rd: "readable xxh p4 (set ?rest)" using readable_extends [OF bst(2) e4] sub by (auto simp: readable_def)
  have keys: "cell_key ` set ?rest \<subseteq> insert key (cell_key ` set ?cs)" by (auto simp: leaf_rest_def)
  have nx: "unat (bp_next_page_id p4) + 2 * height u + 1 < 2 ^ 32"
    using ids(1) f(3) re(4) unat_next [OF \<open>?n \<noteq> - 1\<close>] p4(3) by simp
  from finish_write [OF extends_frame(1) [OF e3] tree_ok_extends [OF tree(5) e3] p4(2) res f(11) keys rd nx tree(7)] obtain t' p5 where
    F: "sbind (propagate xxh (path_ancestors (path_ids key u)) ?leaf (Replaced ?n)) (finalize_root xxh) p4 = (Inr (root_id t'), p5)"
      "store.extends xxh p4 p5" "tree_ok xxh p5 KEY_MIN KEY_END t'" "set (tree_cells t') = other_cells key u \<union> set ?rest"
      "level (height t') t'" "height t' \<le> Suc (height u)" "unat (bp_next_page_id p5) \<le> unat (bp_next_page_id p4) + (2 * height u + 1)"
    by fastforce
  from collapse_root_ok [OF extends_frame(1) [OF F(2)] F(3)] obtain t'' p6 where
    K: "collapse_root_if_needed xxh (root_id t') p5 = (Inr (root_id t''), p6)" "store.extends xxh p5 p6"
      "tree_ok xxh p6 KEY_MIN KEY_END t''" "set (tree_cells t'') = set (tree_cells t')"
      "t'' = t' \<or> (\<exists>pid. t' = Node pid (Last t''))" "bp_next_page_id p6 = bp_next_page_id p5" by blast
  note e6 = store.extends_trans [OF e4 store.extends_trans [OF F(2) K(2)]]
  have cells'': "set (tree_cells t'') = {d \<in> set (tree_cells u). cell_key d \<noteq> key}"
    using other_cells_other_key [OF bst(1) key_range [of key]] tree_cells_split [of u key]
    unfolding K(4) F(4) by (auto simp: leaf_rest_def)
  have "maps_to xxh p6 (set (tree_cells u)) M" by (rule maps_to_extends [OF tree(6) bst(2) e6])
  then have m: "maps_to xxh p6 (set (tree_cells t'')) (M(key := None))" using maps_to_del cells'' by simp
  have txn6: "p_txn_id (bp_pager p6) \<noteq> - 1" using extends_txn [OF e6] ids(2) by simp
  have l'': "level (height t'') t''" "height t'' \<le> Suc (height u)" using K(5) F(5,6) by (auto split: nat.splits dest: level_height)
  from commit_represents [OF extends_frame(1) [OF e6] txn6 K(3) m l''(1)] obtain p' where
    p': "pool_commit xxh (root_id t'') p6 = (Inr (), p')"
      "written xxh p6 p' t'' (M(key := None)) 0 (height t'') (set (tree_cells t''))" .
  have k: "unat (bp_next_page_id p6) \<le> unat (bp_next_page_id p) + (2 * height u + 3)"
    using K(6) F(7) f(3) re(4) unat_next [OF \<open>?n \<noteq> - 1\<close>] p4(3) by simp
  have w: "written xxh p p' t'' (M(key := None)) (2 * height_of t + 3) (Suc (height_of t)) (cells_of t)"
    by (intro written_after [OF p'(2) e6 k]) (use l''(2) cells'' in \<open>auto simp: tree(1) height_of_def cells_of_def\<close>)
  obtain off where off: "remove_cell_at buf LEAF_HEADER_LEN i = Inr (off, buf')" using f(7) by blast
  from F(1) obtain R q where pf: "propagate xxh (path_ancestors (path_ids key u)) ?leaf (Replaced ?n) p4 = (Inr R, q)"
    "finalize_root xxh R q = (Inr (root_id t'), p5)" by (auto elim: sbind_cases)
  have "btree_delete xxh key p = Some (Inr (root_id t'', row), p')"
    using f(1) cell [unfolded max_local_of_def] re(1,2) off p4(1) pf K(1) p'(1)
    by (simp add: btree_delete_def dbind_dlift_ok dbind_ok dbind_dpure_fun) (simp add: dpure_def)
  then show thesis using that w by blast
qed

section \<open>Errors\<close>

lemma insert_duplicate:
  assumes rep: "represents xxh p t M" and old: "M key \<noteq> None"
  obtains p' where "btree_insert xxh key row p = Some (Inl (Permanent (KeyAlreadyExists key)), p')" "looked_at xxh p p'"
  using rep
proof (cases rule: represents_cases)
  case empty
  then show thesis using old by simp
next
  case (tree u)
  let ?cs = "snd (leaf_for key u)"
  from locate_leaf [OF tree(2,5), of key] obtain p1 p2 buf r where
    l: "descend_path xxh (root_id u) key p = Some (Inr (path_ids key u), p1)"
      "pool_get xxh (fst (leaf_for key u)) p1 = (Inr buf, p2)" "store.extends xxh p p2"
      "bp_next_page_id p2 = bp_next_page_id p" "page_cells 5 buf ?cs" "u8_at buf 0 = PAGE_TYPE_LEAF"
      "length buf = pool_page_bytes p2" "store_view xxh p (fst (leaf_for key u)) = Some (page_body buf)"
      "leaf_search buf key = Inr r" "search_result ?cs key r" .
  have bst: "bst KEY_MIN KEY_END u" using tree(5) by (simp add: tree_ok_def)
  have sorted: "sorted_wrt (<) (cell_keys ?cs)" using leaf_for_bst(1) [OF bst key_range [of key]] by simp
  have "key \<in> cell_key ` set ?cs"
    using represents_key [OF tree(5,6), of key] old other_cells_other_key [OF bst key_range [of key]] tree_cells_split [of u key]
    by auto
  then obtain i where "r = Inr i" using search_result_found [OF sorted l(10)] by auto
  then have "btree_insert xxh key row p = Some (Inl (Permanent (KeyAlreadyExists key)), p2)"
    using l(1,2,9) tree(3,4) path_leaf_ids [of key u] by (simp add: btree_insert_def dbind_dlift_ok dbind_ok)
  then show thesis using that l(3,4) by (simp add: looked_at_def)
qed

text \<open>A row over the limits of the format is refused before a page is touched.\<close>

lemma build_row_cell_oversized:
  assumes "\<not> row_fits row"
  obtains n where "2 ^ 32 \<le> n" "\<forall>p. build_row_cell xxh key row p = Some (Inl (Permanent (PayloadTooLarge key n)), p)"
proof -
  obtain n where "row_encode row key = Inl (Permanent (PayloadTooLarge key n))" "2 ^ 32 \<le> n"
    using row_encode_oversized [OF assms] by blast
  then show thesis using that by (simp add: build_row_cell_def)
qed

lemma insert_oversized:
  assumes rep: "represents xxh p t M" and new: "M key = None" and large: "\<not> row_fits row"
  obtains n p' where "btree_insert xxh key row p = Some (Inl (Permanent (PayloadTooLarge key n)), p')" "2 ^ 32 \<le> n"
    "looked_at xxh p p'"
proof -
  obtain n where n: "2 ^ 32 \<le> n" "\<forall>p. build_row_cell xxh key row p = Some (Inl (Permanent (PayloadTooLarge key n)), p)"
    using build_row_cell_oversized [OF large] .
  show thesis
    using rep
  proof (cases rule: represents_cases)
    case empty
    then show thesis
      using that [OF _ n(1), of p] n(2) represents_refl [OF rep] by (simp add: btree_insert_def dbind_err)
  next
    case (tree u)
    let ?cs = "snd (leaf_for key u)"
    from locate_leaf [OF tree(2,5), of key] obtain p1 p2 buf r where
      l: "descend_path xxh (root_id u) key p = Some (Inr (path_ids key u), p1)"
        "pool_get xxh (fst (leaf_for key u)) p1 = (Inr buf, p2)" "store.extends xxh p p2"
        "bp_next_page_id p2 = bp_next_page_id p" "page_cells 5 buf ?cs" "u8_at buf 0 = PAGE_TYPE_LEAF"
        "length buf = pool_page_bytes p2" "store_view xxh p (fst (leaf_for key u)) = Some (page_body buf)"
        "leaf_search buf key = Inr r" "search_result ?cs key r" .
    have bst: "bst KEY_MIN KEY_END u" using tree(5) by (simp add: tree_ok_def)
    have sorted: "sorted_wrt (<) (cell_keys ?cs)" using leaf_for_bst(1) [OF bst key_range [of key]] by simp
    have "key \<notin> cell_key ` set ?cs"
      using represents_key [OF tree(5,6), of key] new tree_cells_split [of u key] by auto
    then obtain i where "r = Inl i" using search_result_found [OF sorted l(10)] by (cases r) auto
    then have "btree_insert xxh key row p = Some (Inl (Permanent (PayloadTooLarge key n)), p2)"
      using l(1,2,9) n(2) tree(3,4) path_leaf_ids [of key u]
      by (simp add: btree_insert_def dbind_dlift_ok dbind_ok dbind_err)
    then show thesis using that [OF _ n(1)] l(3,4) by (simp add: looked_at_def)
  qed
qed

lemma update_oversized:
  assumes rep: "represents xxh p t M" and old: "M key \<noteq> None" and large: "\<not> row_fits row"
  obtains n p' where "btree_update xxh key row p = Some (Inl (Permanent (PayloadTooLarge key n)), p')" "2 ^ 32 \<le> n"
    "looked_at xxh p p'"
  using rep
proof (cases rule: represents_cases)
  case empty
  then show thesis using old by simp
next
  case (tree u)
  obtain n where n: "2 ^ 32 \<le> n" "\<forall>p. build_row_cell xxh key row p = Some (Inl (Permanent (PayloadTooLarge key n)), p)"
    using build_row_cell_oversized [OF large] .
  have "key \<in> cell_key ` set (tree_cells u)" using represents_key [OF tree(5,6)] old by simp
  from find_key_present [OF tree(2,5,3,4) this] obtain p2 buf i where
    "find_key xxh key p = Some (Inr (path_ids key u, fst (leaf_for key u), buf, i), p2)" "store.extends xxh p p2"
    "bp_next_page_id p2 = bp_next_page_id p" by metis
  then show thesis
    using that [OF _ n(1), of p2] n(2) by (simp add: btree_update_def dbind_ok dbind_err looked_at_def)
qed

end
