(* ===== verification/Page_Claims.thy ===== *)
theory Page_Claims
  imports Tree_Ops
begin

text \<open>
  Slotted pages as lists of cells: inserting and removing a cell are the operations of a list, the
  binary search of a leaf is the linear one, the child lookup of an interior page picks the first
  separator above the key, and the cells of a page always leave it room.
\<close>

section \<open>A sample leaf\<close>

definition sample_cell :: "i64 \<Rightarrow> bytes" where
  "sample_cell key = build_leaf_cell key 0 0 []"

lemma length_sample_cell [simp]: "length (sample_cell key) = 16"
  and cell_key_sample [simp]: "cell_key (sample_cell key) = key"
  by (simp_all add: sample_cell_def)

lemma empty_leaf_page:
  assumes "13 \<le> len" "len \<le> 65536"
  obtains buf where "init_leaf (replicate len 0) = Inr buf" "length buf = len" "page_cells 5 buf []"
    "content_pos buf = page_limit len"
proof -
  obtain buf where "init_slotted (replicate len 0) PAGE_TYPE_LEAF = Inr buf" "length buf = length (replicate len (0 :: u8))"
    "page_cells 5 buf []" "content_pos buf = page_limit (length (replicate len (0 :: u8)))"
    by (rule init_slotted_cells [of 5 "replicate len 0" PAGE_TYPE_LEAF]) (use assms in simp_all)
  with that show thesis by (simp add: init_leaf_def)
qed

lemma empty_leaf:
  obtains buf where "init_leaf (replicate 4096 0) = Inr buf" "length buf = 4096" "page_cells 5 buf []"
    "content_pos buf = 4088"
  by (rule empty_leaf_page [of 4096]) (use that in \<open>simp_all add: page_limit_def\<close>)

lemma sample_leaf:
  obtains buf where "page_cells 5 buf [sample_cell 3, sample_cell 8]" "length buf = 4096" "content_pos buf = 4056"
proof -
  obtain b0 where b0: "length b0 = 4096" "page_cells 5 b0 []" "content_pos b0 = 4088" by (rule empty_leaf)
  obtain b1 where b1: "length b1 = length b0" "page_cells 5 b1 (take 0 [] @ sample_cell 8 # drop 0 [])"
    "content_pos b1 = content_pos b0 - length (sample_cell 8)"
    by (rule page_cells_insert [OF b0(2), of 0 "sample_cell 8"]) (use b0(3) in simp_all)
  have p1: "page_cells 5 b1 [sample_cell 8]" "content_pos b1 = 4072" using b1 b0(3) by simp_all
  obtain b2 where b2: "length b2 = length b1" "page_cells 5 b2 (take 0 [sample_cell 8] @ sample_cell 3 # drop 0 [sample_cell 8])"
    "content_pos b2 = content_pos b1 - length (sample_cell 3)"
    by (rule page_cells_insert [OF p1(1), of 0 "sample_cell 3"]) (use p1(2) in simp_all)
  then show thesis using that b0(1) b1(1) p1(2) by simp
qed

section \<open>Claims\<close>

definition linear_search :: "bytes list \<Rightarrow> i64 \<Rightarrow> nat + nat" where
  "linear_search cells key =
     (let i = key_index key cells
      in if i < length cells \<and> cell_key (cells ! i) = key then Inr i else Inl i)"

text \<open>
  C19: the binary search of a leaf page agrees with the linear one: on a page with sorted keys it
  finds the position of the key, or the position to insert it at.
\<close>
lemma leaf_search_linear:
  assumes "page_cells 5 buf cells" "list_all (\<lambda>c. 8 \<le> length c) cells" "sorted_wrt (<) (cell_keys cells)"
  shows "leaf_search buf key = Inr (linear_search cells key)"
proof -
  from leaf_search_cells [OF assms, of key] obtain r where r: "leaf_search buf key = Inr r" "search_result cells key r" .
  note i = search_result_key_index [OF assms(3) r(2)]
  have "r = linear_search cells key"
  proof (cases r)
    case (Inl j)
    then have "j = key_index key cells" "\<forall>l. j \<le> l \<and> l < length cells \<longrightarrow> sint key < sint (cell_key (cells ! l))"
      using i(1) r(2) by (simp_all add: search_result_def)
    then show ?thesis using Inl by (auto simp: linear_search_def Let_def)
  next
    case (Inr j)
    then have "j = key_index key cells" "j < length cells" "cell_key (cells ! j) = key"
      using i(2) r(2) by (simp_all add: search_result_def)
    then show ?thesis using Inr by (simp add: linear_search_def)
  qed
  then show ?thesis using r(1) by simp
qed

lemma leaf_search_linear_witness:
  "\<exists>buf. length buf = 4096 \<and> leaf_search buf 8 = Inr (Inr 1) \<and> leaf_search buf 5 = Inr (Inl 1)"
proof -
  obtain buf where b: "page_cells 5 buf [sample_cell 3, sample_cell 8]" "length buf = 4096" by (rule sample_leaf)
  have "leaf_search buf key = Inr (linear_search [sample_cell 3, sample_cell 8] key)" for key
    by (rule leaf_search_linear [OF b(1)]) (simp_all add: cell_keys_def)
  moreover have "linear_search [sample_cell 3, sample_cell 8] 8 = Inr 1" "linear_search [sample_cell 3, sample_cell 8] 5 = Inl 1"
    by (simp_all add: linear_search_def key_index_def)
  ultimately show ?thesis using b(2) by auto
qed

text \<open>
  C20: inserting a cell at an index inserts it into the page's list of cells, as long as header,
  pointers and the cell fit below the content area, and takes the cell's length from that area.
\<close>
lemma insert_cell_refines:
  assumes "page_cells h buf cells" "index \<le> length cells" "h + 2 * (length cells + 1) + length cell \<le> content_pos buf"
  shows "\<exists>buf'. insert_cell_at buf h index cell = Inr buf' \<and> length buf' = length buf \<and>
    page_cells h buf' (list_insert index cell cells) \<and> content_pos buf' = content_pos buf - length cell"
  using page_cells_insert [OF assms] unfolding list_insert_def by metis

lemma insert_cell_refines_witness:
  "\<exists>buf buf'. page_cells 5 buf [sample_cell 3, sample_cell 8] \<and> insert_cell_at buf 5 1 (sample_cell 5) = Inr buf' \<and>
     page_cells 5 buf' [sample_cell 3, sample_cell 5, sample_cell 8]"
proof -
  obtain buf where b: "page_cells 5 buf [sample_cell 3, sample_cell 8]" "content_pos buf = 4056" by (rule sample_leaf)
  from insert_cell_refines [OF b(1), of 1 "sample_cell 5"] b show ?thesis by (auto simp: list_insert_def)
qed

text \<open>
  C21: removing the cell at an index removes it from the page's list of cells and leaves the
  content area as it is: the bytes of the cell are not reclaimed.
\<close>
lemma remove_cell_refines:
  assumes "page_cells h buf cells" "index < length cells"
  shows "\<exists>off buf'. remove_cell_at buf h index = Inr (off, buf') \<and> length buf' = length buf \<and>
    page_cells h buf' (take index cells @ drop (Suc index) cells) \<and> content_pos buf' = content_pos buf"
  using page_cells_remove [OF assms] by metis

lemma remove_cell_refines_witness:
  "\<exists>buf off buf'. page_cells 5 buf [sample_cell 3, sample_cell 8] \<and> remove_cell_at buf 5 0 = Inr (off, buf') \<and>
     page_cells 5 buf' [sample_cell 8]"
proof -
  obtain buf where b: "page_cells 5 buf [sample_cell 3, sample_cell 8]" by (rule sample_leaf)
  from remove_cell_refines [OF b, of 0] b show ?thesis by auto
qed

text \<open>
  C22: the free space the code computes is the room between the pointers and the cells, and header,
  pointers and cells together lie within the page, below its trailer.
\<close>
lemma page_space_bounds:
  assumes "page_cells h buf cells"
  shows "(\<exists>fs. free_space buf h = Inr fs \<and> unat fs = content_pos buf - (h + 2 * length cells)) \<and>
    h + sum_list (map (\<lambda>c. length c + 2) cells) \<le> page_limit (length buf) \<and> page_limit (length buf) \<le> length buf - 8"
  using free_space_cells [OF assms] page_cells_space [OF assms] by (simp add: page_limit_def)

lemma page_space_bounds_witness:
  "\<exists>buf fs. length buf = 4096 \<and> free_space buf 5 = Inr fs \<and> unat fs = 4047"
proof -
  obtain buf where b: "page_cells 5 buf [sample_cell 3, sample_cell 8]" "length buf = 4096" "content_pos buf = 4056"
    by (rule sample_leaf)
  from page_space_bounds [OF b(1)] b(2,3) show ?thesis by auto
qed

text \<open>
  C23: an interior page sends a key to the child of its first separator above the key, and to the
  rightmost child if there is none.
\<close>
lemma interior_child_route:
  assumes "interior_cells buf cells"
  shows "interior_find_child_for_key buf key =
    Inr (case find (\<lambda>c. sint key < sint (cell_key c)) cells of Some c \<Rightarrow> cell_child c | None \<Rightarrow> rightmost_child buf)"
  using interior_find_child_for_key_cells [OF assms, of key] by (simp only: route_def)

lemma interior_child_route_witness:
  "\<exists>buf. interior_find_child_for_key buf 4 = Inr 2 \<and> interior_find_child_for_key buf 5 = Inr 3"
proof -
  let ?c = "build_interior_cell 5 2"
  obtain b0 where b0: "length b0 = 4096" "interior_cells b0 []" "rightmost_child b0 = 3" "content_pos b0 = 4088"
    by (rule init_interior_cells [of "replicate 4096 0" 3]) (auto simp: page_limit_def)
  have pc: "page_cells 9 b0 []" using b0(2) by (simp add: interior_cells_def)
  obtain b1 where "page_cells 9 b1 (take 0 [] @ ?c # drop 0 [])" "\<forall>at m. 5 \<le> at \<and> at + m \<le> 9 \<longrightarrow> slice b1 at m = slice b0 at m"
    by (rule page_cells_insert [OF pc, of 0 ?c]) (use b0(4) in simp_all)
  then have b1: "page_cells 9 b1 [?c]" "slice b1 5 4 = slice b0 5 4" by simp_all
  have i: "interior_cells b1 [?c]" using b1(1) by (simp add: interior_cells_def)
  have "rightmost_child b1 = 3" using b0(3) b1(2) by (simp add: rightmost_child_def field_at_defs)
  with interior_child_route [OF i, of 4] interior_child_route [OF i, of 5] show ?thesis by auto
qed

section \<open>Splitting by count\<close>

text \<open>A cell longer than the content area: its offset wraps and the write leaves the page.\<close>

lemma insert_cell_overrun:
  assumes "page_cells h buf cells" "content_pos buf < length cell" "length cell < 65536" "length buf \<le> 65536"
  shows "insert_cell_at buf h index cell =
    Inl (buffer_bounds (65536 + content_pos buf - length cell) (length cell) (length buf))"
proof -
  note B = page_cells_bounds [OF assms(1)]
  define new_cs where "new_cs = u16_at buf 3 - u16_from (length cell) (- 1)"
  have u: "unat (u16_from (length cell) (- 1)) = length cell" using assms(3) by (simp add: u16_from_small)
  have lt: "u16_at buf 3 < u16_from (length cell) (- 1)" using assms(2) u by (simp add: word_less_nat_alt content_pos_def)
  have "unat new_cs = 65536 + content_pos buf - length cell"
    unfolding new_cs_def using lt u assms(3)
    by (simp add: unat_sub_if_size word_size content_pos_def not_le word_le_nat_alt word_less_nat_alt)
  moreover have "num_cells buf = Inr (word_of_nat (length cells))" using page_cells_num_cells [OF assms(1)] by simp
  moreover have "5 \<le> length buf" "0 < content_pos buf" using B by simp_all
  ultimately show ?thesis using assms(3,4)
    by (simp add: insert_cell_at_def content_start_def read_oks Let_def new_cs_def [symmetric] write_bytes_def)
qed

text \<open>
  C39: splitting a leaf by the number of cells refuses rows that fit. When a cell that fits an empty
  page is to go between two others, it shares the right half with the second; if the two are too
  long together, the offset of the second wraps and the insert fails with \<open>BufferBounds\<close>,
  although leaving the first two together and giving the new cell a page of its own would do.
\<close>
lemma split_refuses_row:
  assumes "page_cells 5 buf [a, b]" "list_all (leaf_cell_wf (max_local (pool_page_size p))) [a, b]"
    and "valid_page_size (page_bytes (pool_page_size p))" "n = bytes_usize (pool_page_size p)" "length buf = n"
    and "5 + 2 + length c \<le> page_limit n" "page_limit n < length c + length b"
  shows "leaf_split_with_new_cell xxh buf 1 c p =
      (Inl (Fatal (BufferBounds (65536 + page_limit n - length c - length b) (length b) n)), p) \<and>
    (\<exists>left right. build_leaf_page n [a, b] = Inr left \<and> build_leaf_page n [c] = Inr right)"
proof -
  have n: "4096 \<le> n" "n \<le> 65536" using valid_page_size_bounds [OF assms(3)] assms(4) by simp_all
  note sp = page_cells_space [OF assms(1)]
  have lim: "page_limit n \<le> 65527" by (rule page_limit_bound)
  have two: "5 + (length a + 2) + (length b + 2) \<le> page_limit n" using sp assms(5) by simp
  have fit: "cells_fit 5 n (map length [a])" "cells_fit 5 n (map length [a, b])" "cells_fit 5 n (map length [c])"
    using two assms(6) by (simp_all add: cells_fit_def)
  obtain lb where lb: "build_leaf_page n [a] = Inr lb" using build_leaf_page_ok [OF fit(1) n] by blast
  obtain e0 where e0: "init_leaf (replicate n 0) = Inr e0" "length e0 = n" "page_cells 5 e0 []" "content_pos e0 = page_limit n"
    by (rule empty_leaf_page [of n]) (use n in simp_all)
  obtain e1 where e1: "insert_cell_at e0 5 0 c = Inr e1" "length e1 = length e0" "page_cells 5 e1 (take 0 [] @ c # drop 0 [])"
    "content_pos e1 = content_pos e0 - length c"
    by (rule page_cells_insert [OF e0(3), of 0 c]) (use assms(6) e0(4) in simp_all)
  have "content_pos e1 < length b" "length b < 65536" "length e1 \<le> 65536"
    using e1(2,4) e0(2,4) assms(6,7) two lim n by linarith+
  from insert_cell_overrun [OF e1(3) this, of 1]
  have "insert_cell_at e1 5 1 b = Inl (Fatal (BufferBounds (65536 + page_limit n - length c - length b) (length b) n))"
    using e1(2,4) e0(2,4) assms(6) by (simp add: buffer_bounds_def)
  then have rb: "build_leaf_page n [c, b] = Inl (Fatal (BufferBounds (65536 + page_limit n - length c - length b) (length b) n))"
    using e0(1) e1(1) by (simp add: build_leaf_page_def layout_consts)
  have nm: "num_cells buf = Inr (word_of_nat (length [a, b]))" "unat (word_of_nat (length [a, b]) :: u16) = length [a, b]"
    using page_cells_num_cells [OF assms(1)] by simp_all
  have "[0..<length [a, b]] = [0..<2]" by (simp add: numeral_2_eq_2)
  then have "collect_leaf_cells buf (max_local (pool_page_size p)) [0..<2] = Inr [a, b]"
    using collect_leaf_cells_ok [OF assms(1,2), of 0] by simp
  then have "leaf_split_with_new_cell xxh buf 1 c p =
      (Inl (Fatal (BufferBounds (65536 + page_limit n - length c - length b) (length b) n)), p)"
    using lb rb nm
    by (simp add: leaf_split_with_new_cell_def sbind_def spure_def assms(4) [symmetric] list_insert_def Let_def del: upt_Suc)
  moreover have "\<exists>left right. build_leaf_page n [a, b] = Inr left \<and> build_leaf_page n [c] = Inr right"
    using build_leaf_page_ok [OF fit(2) n] build_leaf_page_ok [OF fit(3) n] by metis
  ultimately show ?thesis by blast
qed

text \<open>Two 96-byte cells and the largest local cell of a 4096-byte page.\<close>

lemma split_refuses_row_witness:
  "\<exists>buf c p. length c = LEAF_CELL_FIXED_LEN + unat (max_local (pool_page_size p)) \<and>
     page_cells 5 buf [build_leaf_cell 1 80 0 (replicate 80 0), build_leaf_cell 9 80 0 (replicate 80 0)] \<and>
     leaf_split_with_new_cell (\<lambda>_. 0) buf 1 c p = (Inl (Fatal (BufferBounds 65459 96 4096)), p)"
proof -
  let ?a = "build_leaf_cell 1 80 0 (replicate 80 0)" and ?b = "build_leaf_cell 9 80 0 (replicate 80 0)"
  let ?c = "build_leaf_cell 5 4053 0 (replicate 4053 0)"
  obtain pg where pg: "meta_of pg = fresh_meta DEFAULT_PAGE_SIZE" by (rule created_pager [OF default_page_size])
  let ?p = "\<lparr>bp_pager = pg, bp_capacity = 1, bp_entries = [], bp_dirty = [], bp_recency = [], bp_next_page_id = 2\<rparr>"
  have ps: "pool_page_size ?p = DEFAULT_PAGE_SIZE" using pg by (simp add: pool_page_size_def meta_of_def fresh_meta_def)
  have n: "bytes_usize DEFAULT_PAGE_SIZE = 4096" by (simp add: bytes_usize_def DEFAULT_PAGE_SIZE_def page_consts)
  have ml: "unat (max_local DEFAULT_PAGE_SIZE) = 4053" using unat_max_local [of DEFAULT_PAGE_SIZE] n by simp
  obtain b0 where b0: "length b0 = 4096" "page_cells 5 b0 []" "content_pos b0 = 4088" by (rule empty_leaf)
  obtain b1 where b1: "length b1 = length b0" "page_cells 5 b1 (take 0 [] @ ?b # drop 0 [])" "content_pos b1 = content_pos b0 - length ?b"
    by (rule page_cells_insert [OF b0(2), of 0 ?b]) (use b0(3) in simp_all)
  have p1: "page_cells 5 b1 [?b]" "content_pos b1 = 3992" using b1 b0(3) by simp_all
  obtain b2 where b2: "length b2 = length b1" "page_cells 5 b2 (take 0 [?b] @ ?a # drop 0 [?b])"
    by (rule page_cells_insert [OF p1(1), of 0 ?a]) (use p1(2) in simp_all)
  have b2': "page_cells 5 b2 [?a, ?b]" "length b2 = 4096" using b2 b1(1) b0(1) by simp_all
  have wf: "list_all (leaf_cell_wf (max_local (pool_page_size ?p))) [?a, ?b]"
    unfolding ps using ml by (simp add: leaf_cell_wf_def leaf_local_len_def build_leaf_cell_fields word_le_nat_alt min_def)
  have "leaf_split_with_new_cell (\<lambda>_. 0) b2 1 ?c ?p = (Inl (Fatal (BufferBounds 65459 96 4096)), ?p)"
    using split_refuses_row [OF b2'(1) wf, of 4096 ?c "\<lambda>_. 0"] b2'(2) default_page_size n
    unfolding ps by (simp add: page_limit_def)
  moreover have "length ?c = LEAF_CELL_FIXED_LEN + unat (max_local (pool_page_size ?p))"
    unfolding ps using ml by (simp add: layout_consts)
  ultimately show ?thesis using b2'(1) by blast
qed

text \<open>
  The sizes the code derives from a page size are exact. An interior page takes its header, its
  trailer and as many separators as \<open>max_interior_entries\<close> says and not one more, an empty leaf
  takes the largest local cell, whose length and pointer stay below the range of \<open>u16\<close>, and an
  overflow page is filled to its trailer by a chunk that is never empty.
\<close>
lemma page_limits:
  assumes "valid_page_size (page_bytes ps)" "n = bytes_usize ps"
  shows "(INTERIOR_HEADER_LEN + k * (INTERIOR_CELL_LEN + POINTER_LEN) + CHECKSUM_LEN \<le> n \<longleftrightarrow> k \<le> max_interior_entries n) \<and>
    LEAF_HEADER_LEN + POINTER_LEN + LEAF_CELL_FIXED_LEN + unat (max_local ps) + CHECKSUM_LEN \<le> n \<and>
    LEAF_CELL_FIXED_LEN + unat (max_local ps) + POINTER_LEN < 2 ^ 16 \<and>
    OVERFLOW_HEADER_LEN + overflow_chunk_cap (page_bytes ps) + CHECKSUM_LEN = n \<and> 0 < overflow_chunk_cap (page_bytes ps)"
proof -
  have n: "4096 \<le> n" "n \<le> 65536" using valid_page_size_bounds [OF assms(1)] assms(2) by simp_all
  have ml: "unat (max_local ps) = n - 43" using unat_max_local [of ps] n(1) assms(2) by simp
  have "9 + k * 14 + 8 \<le> n \<longleftrightarrow> k \<le> (n - 8 - 9) div 14"
    using n(1) by (simp add: less_eq_div_iff_mult_less_eq le_diff_conv2 add.commute)
  then show ?thesis
    using n ml overflow_chunk_cap_valid [OF assms(1)] assms(2)
    by (simp add: layout_consts page_consts max_interior_entries_def)
qed

lemma page_limits_witness:
  "max_interior_entries 4096 = 291 \<and> overflow_chunk_cap (page_bytes (PageSize 4096)) = 4083 \<and>
   unat (max_local (PageSize 4096)) = 4053"
proof -
  have n: "4096 = bytes_usize (PageSize 4096)" by (simp add: bytes_usize_def)
  have v: "valid_page_size (page_bytes (PageSize 4096))" by (simp add: valid_page_size_def)
  note l = page_limits [OF v n]
  have "max_interior_entries 4096 = 291" using l [of 291] l [of 292] by (simp add: layout_consts page_consts)
  moreover have "overflow_chunk_cap (page_bytes (PageSize 4096)) = 4083" using l by (simp add: layout_consts page_consts)
  moreover have "unat (max_local (PageSize 4096)) = 4053" using unat_max_local [of "PageSize 4096"] n by simp
  ultimately show ?thesis by blast
qed

end
