(* ===== verification/Database.thy ===== *)
theory Database
  imports BTree
begin

text \<open>
  \<open>crates/pinax/src/database.rs\<close>: the public facade. Creating and opening run on the
  file system; an open database owns its file, and \<open>on_disk\<close> is the file system with
  that file as the database has left it.
\<close>

definition DEFAULT_BUFFER_POOL_CAPACITY :: nat where
  "DEFAULT_BUFFER_POOL_CAPACITY = 256"

record database =
  db_pool :: pool

definition create_with_capacity ::
    "(bytes \<Rightarrow> u64) \<Rightarrow> path \<Rightarrow> page_size \<Rightarrow> nat \<Rightarrow> (filesystem, pinax_error, database) smethod" where
  "create_with_capacity xxh path page_size capacity =
     sbind (pager_create xxh path page_size) (\<lambda>pager.
     sbind (spure (pool_new pager capacity)) (\<lambda>pool.
       spure (Inr \<lparr>db_pool = pool\<rparr>)))"

definition db_create :: "(bytes \<Rightarrow> u64) \<Rightarrow> path \<Rightarrow> page_size \<Rightarrow> (filesystem, pinax_error, database) smethod" where
  "db_create xxh path page_size = create_with_capacity xxh path page_size DEFAULT_BUFFER_POOL_CAPACITY"

definition open_with_capacity ::
    "(bytes \<Rightarrow> u64) \<Rightarrow> path \<Rightarrow> nat \<Rightarrow> (filesystem, pinax_error, database) smethod" where
  "open_with_capacity xxh path capacity =
     sbind (pager_open xxh path) (\<lambda>pager.
     sbind (spure (pool_new pager capacity)) (\<lambda>pool.
       spure (Inr \<lparr>db_pool = pool\<rparr>)))"

definition db_open :: "(bytes \<Rightarrow> u64) \<Rightarrow> path \<Rightarrow> (filesystem, pinax_error, database) smethod" where
  "db_open xxh path = open_with_capacity xxh path DEFAULT_BUFFER_POOL_CAPACITY"

text \<open>A method of the tree run on the database's pool.\<close>

definition on_pool :: "'a pdmethod \<Rightarrow> (database, pinax_error, 'a) dmethod" where
  "on_pool m db = map_option (\<lambda>(r, p). (r, db\<lparr>db_pool := p\<rparr>)) (m (db_pool db))"

definition db_insert :: "(bytes \<Rightarrow> u64) \<Rightarrow> i64 \<Rightarrow> row \<Rightarrow> (database, pinax_error, unit) dmethod" where
  "db_insert xxh key row = dbind (on_pool (btree_insert xxh key row)) (\<lambda>_. dpure (Inr ()))"

definition db_get :: "(bytes \<Rightarrow> u64) \<Rightarrow> i64 \<Rightarrow> (database, pinax_error, row option) dmethod" where
  "db_get xxh key = on_pool (btree_get xxh key)"

definition db_update :: "(bytes \<Rightarrow> u64) \<Rightarrow> i64 \<Rightarrow> row \<Rightarrow> (database, pinax_error, unit) dmethod" where
  "db_update xxh key row = dbind (on_pool (btree_update xxh key row)) (\<lambda>_. dpure (Inr ()))"

definition db_delete :: "(bytes \<Rightarrow> u64) \<Rightarrow> i64 \<Rightarrow> (database, pinax_error, row) dmethod" where
  "db_delete xxh key = dbind (on_pool (btree_delete xxh key)) (\<lambda>(_, row). dpure (Inr row))"

definition db_scan :: "(bytes \<Rightarrow> u64) \<Rightarrow> (database, pinax_error, (i64 \<times> row) list) dmethod" where
  "db_scan xxh = on_pool (btree_scan xxh)"

definition on_disk :: "database \<Rightarrow> filesystem \<Rightarrow> filesystem" where
  "on_disk db fs = put_file (p_path (bp_pager (db_pool db))) (pool_file (db_pool db)) fs"

end
