(* ===== verification/Small_Rows.thy ===== *)
theory Small_Rows
  imports Tree_Ops
begin

text \<open>
  When a split cannot fail. \<open>leaf_split_with_new_cell\<close> halves a full leaf by the number of its
  cells and does not look at their sizes, so a write of a large row may need more space than a half
  has (\<open>room_for\<close>). For rows that encode to at most \<open>SMALL_ROW\<close> bytes both halves
  always fit, on every page size.
\<close>

definition SMALL_ROW :: nat where
  "SMALL_ROW = 252"

definition SMALL_CELL :: nat where
  "SMALL_CELL = 16 + SMALL_ROW"

lemmas small_consts = SMALL_ROW_def SMALL_CELL_def

definition slot_space :: "nat list \<Rightarrow> nat" where
  "slot_space lens = sum_list (map (\<lambda>n. n + 2) lens)"

lemma slot_space_append: "slot_space (xs @ ys) = slot_space xs + slot_space ys"
  by (simp add: slot_space_def)

lemma slot_space_take_drop: "slot_space (take n xs) + slot_space (drop n xs) = slot_space xs"
  by (metis append_take_drop_id slot_space_append)

lemma slot_space_insert: "slot_space (list_insert i n lens) = slot_space lens + n + 2"
proof -
  have "slot_space (n # drop i lens) = n + 2 + slot_space (drop i lens)" by (simp add: slot_space_def)
  then show ?thesis using slot_space_take_drop [of i lens] by (simp add: list_insert_def slot_space_append)
qed

lemma slot_space_bounds:
  "list_all (\<lambda>n. 16 \<le> n) lens \<Longrightarrow> 18 * length lens \<le> slot_space lens"
  "list_all (\<lambda>n. n \<le> b) lens \<Longrightarrow> slot_space lens \<le> (b + 2) * length lens"
  by (induction lens) (auto simp: slot_space_def)

text \<open>A half that takes the new cell, next to a half of at least its size less one.\<close>

lemma half_fits:
  assumes "slot_space other + slot_space rest \<le> l" "4083 \<le> l" "list_all (\<lambda>n. 16 \<le> n) other"
    and "list_all (\<lambda>n. n \<le> SMALL_CELL) rest" "len \<le> SMALL_CELL" "length rest \<le> length other"
  shows "slot_space rest + len + 2 \<le> l"
proof (cases "270 \<le> slot_space other")
  case True
  then show ?thesis using assms(1,5) by (simp add: small_consts)
next
  case False
  then have "length rest \<le> 14" using slot_space_bounds(1) [OF assms(3)] assms(6) by simp
  then show ?thesis using slot_space_bounds(2) [OF assms(4)] assms(2,5) by (simp add: small_consts)
qed

lemma halves_of_insert:
  assumes "i \<le> length xs" "m = Suc (length xs) div 2"
  shows "m \<le> i \<Longrightarrow> take m (list_insert i x xs) = take m xs \<and> drop m (list_insert i x xs) = list_insert (i - m) x (drop m xs)"
    and "i < m \<Longrightarrow> take m (list_insert i x xs) = list_insert i x (take (m - 1) xs) \<and> drop m (list_insert i x xs) = drop (m - 1) xs"
proof -
  show "take m (list_insert i x xs) = take m xs \<and> drop m (list_insert i x xs) = list_insert (i - m) x (drop m xs)" if "m \<le> i"
    using that assms(1) by (simp add: list_insert_def min_def take_drop)
  show "take m (list_insert i x xs) = list_insert i x (take (m - 1) xs) \<and> drop m (list_insert i x xs) = drop (m - 1) xs" if "i < m"
    using that assms by (cases m) (auto simp: list_insert_def min_def drop_take Suc_diff_le take_Cons' drop_Cons')
qed

lemma halves_fit_small:
  assumes "4096 \<le> page_len" "5 + slot_space lens \<le> page_limit page_len" "list_all (\<lambda>n. 16 \<le> n \<and> n \<le> SMALL_CELL) lens"
    and "len \<le> SMALL_CELL" "i \<le> length lens"
  shows "halves_fit page_len (list_insert i len lens)"
proof -
  define m where "m = Suc (length lens) div 2"
  let ?l = "page_limit page_len - 5"
  have l: "4083 \<le> ?l" "slot_space lens \<le> ?l" using assms(1,2) by (simp_all add: page_limit_def)
  have fits: "cells_fit 5 page_len xs \<longleftrightarrow> slot_space xs \<le> ?l" for xs
    using l(1) by (auto simp: cells_fit_def slot_space_def)
  have all: "list_all (\<lambda>n. 16 \<le> n) (take j lens)" "list_all (\<lambda>n. 16 \<le> n) (drop j lens)"
    "list_all (\<lambda>n. n \<le> SMALL_CELL) (take j lens)" "list_all (\<lambda>n. n \<le> SMALL_CELL) (drop j lens)" for j
    using assms(3) by (auto simp: list_all_iff dest: in_set_takeD in_set_dropD)
  have m_twice: "m + m \<le> Suc (length lens)" by (simp add: m_def)
  have m2: "length (list_insert i len lens) div 2 = m" using assms(5) by (simp add: list_insert_def m_def)
  show ?thesis
  proof (cases "m \<le> i")
    case True
    note H = halves_of_insert(1) [OF assms(5) m_def True, of len]
    have "slot_space (drop m lens) + len + 2 \<le> ?l"
      by (rule half_fits [of "take m lens"])
        (use l all assms(4) slot_space_take_drop [of m lens] in \<open>auto simp: m_def min_def\<close>)
    moreover have "slot_space (take m lens) \<le> ?l" using l(2) slot_space_take_drop [of m lens] by simp
    ultimately show ?thesis unfolding halves_fit_def m2 fits using H by (simp add: slot_space_insert)
  next
    case False
    then have i: "i < m" by simp
    note H = halves_of_insert(2) [OF assms(5) m_def i, of len]
    have "slot_space (take (m - 1) lens) + len + 2 \<le> ?l"
      by (rule half_fits [of "drop (m - 1) lens"])
        (use l all assms(4) slot_space_take_drop [of "m - 1" lens] m_twice in \<open>auto simp: min_def\<close>)
    moreover have "slot_space (drop (m - 1) lens) \<le> ?l" using l(2) slot_space_take_drop [of "m - 1" lens] by simp
    ultimately show ?thesis unfolding halves_fit_def m2 fits using H by (simp add: slot_space_insert)
  qed
qed

lemma room_for_small:
  assumes "represents xxh p t M" "\<forall>c \<in> cells_of t. length c \<le> SMALL_CELL" "length (row_bytes row) \<le> SMALL_ROW"
    and "ids_left p t (length (row_bytes row))"
  shows "room_for xxh p t key row"
  using assms(1)
proof (cases rule: represents_cases)
  case empty
  then show ?thesis using assms(4) by (simp add: room_for_def)
next
  case (tree u)
  let ?cs = "snd (leaf_for key u)" and ?leaf = "fst (leaf_for key u)" and ?rest = "leaf_rest key u"
  have st: "stored (store_view xxh p) u" "readable xxh p (set (tree_cells u))" using tree(5) by (simp_all add: tree_ok_def)
  obtain b where b: "store_view xxh p ?leaf = Some b" "leaf_page b ?cs" using leaf_for_stored [OF st(1), of key] by auto
  have len: "length (pad b) = pool_page_bytes p" using store_view_length [OF tree(2) b(1)] by (simp add: pad_def)
  have pg: "4096 \<le> length (pad b)" using store_inv_page_size [OF tree(2)] len by simp
  have "page_cells 5 (pad b) ?cs" using b(2) by (simp add: leaf_page_def)
  from page_cells_space [OF this] have sp: "5 + slot_space (map length ?cs) \<le> page_limit (length (pad b))"
    by (simp add: slot_space_def comp_def)
  have rest: "slot_space (map length ?rest) \<le> slot_space (map length ?cs)"
    using sum_list_filter_le_nat [of "\<lambda>c. length c + 2" "\<lambda>c. cell_key c \<noteq> key" ?cs]
    by (simp add: leaf_rest_def slot_space_def comp_def)
  have "readable xxh p (set ?rest)" using st(2) tree_cells_split [of u key] by (auto simp: readable_def leaf_rest_def)
  then have ge: "list_all (\<lambda>c. 16 \<le> length c) ?rest" using leaf_cells_wf(1) by (auto simp: list_all_iff leaf_cell_wf_def)
  have "set ?rest \<subseteq> cells_of t" using tree_cells_split [of u key] by (auto simp: leaf_rest_def cells_of_def tree(1))
  then have sm: "list_all (\<lambda>n. 16 \<le> n \<and> n \<le> SMALL_CELL) (map length ?rest)"
    using assms(2) ge by (auto simp: list_all_iff)
  have "row_cell_len p row \<le> SMALL_CELL" using assms(3) by (simp add: row_cell_len_def SMALL_CELL_def)
  moreover have "key_index key ?rest \<le> length (map length ?rest)" by (simp add: key_index_def length_takeWhile_le)
  ultimately have "halves_fit (length (pad b)) (list_insert (key_index key ?rest) (row_cell_len p row) (map length ?rest))"
    using halves_fit_small [OF pg _ sm] sp rest by simp
  then show ?thesis using assms(4) b(1) by (simp add: room_for_def tree(1) leaf_accepts_def)
qed

end
