(* ===== verification/Kv_Store.thy ===== *)
theory Kv_Store
  imports Database Small_Rows
begin

text \<open>
  What the database promises: a finite map from keys to rows. \<open>kv_step\<close> is the abstract state
  machine of the facade, the locale \<open>kv_store\<close> its interface, and the interpretation
  \<open>db\<close> shows that the model of \<open>database.rs\<close> implements it.
\<close>

section \<open>The abstract state machine\<close>

datatype kv_op = OpInsert i64 row | OpGet i64 | OpUpdate i64 row | OpDelete i64 | OpScan

datatype kv_reply = Done | Found "row option" | Deleted row | Rows "(i64 \<times> row) list"

type_synonym kv_result = "pinax_error + kv_reply"

inductive kv_step :: "kv_op \<Rightarrow> (i64 \<rightharpoonup> row) \<Rightarrow> kv_result \<Rightarrow> (i64 \<rightharpoonup> row) \<Rightarrow> bool" where
  insert: "M key = None \<Longrightarrow> row_fits row \<Longrightarrow> kv_step (OpInsert key row) M (Inr Done) (M(key \<mapsto> row))"
| insert_exists: "M key = Some old \<Longrightarrow> kv_step (OpInsert key row) M (Inl (Permanent (KeyAlreadyExists key))) M"
| insert_large: "M key = None \<Longrightarrow> \<not> row_fits row \<Longrightarrow> 2 ^ 32 \<le> n \<Longrightarrow>
    kv_step (OpInsert key row) M (Inl (Permanent (PayloadTooLarge key n))) M"
| get: "kv_step (OpGet key) M (Inr (Found (M key))) M"
| update: "M key = Some old \<Longrightarrow> row_fits row \<Longrightarrow> kv_step (OpUpdate key row) M (Inr Done) (M(key \<mapsto> row))"
| update_missing: "M key = None \<Longrightarrow> kv_step (OpUpdate key row) M (Inl (Permanent (KeyNotFound key))) M"
| update_large: "M key = Some old \<Longrightarrow> \<not> row_fits row \<Longrightarrow> 2 ^ 32 \<le> n \<Longrightarrow>
    kv_step (OpUpdate key row) M (Inl (Permanent (PayloadTooLarge key n))) M"
| delete: "M key = Some row \<Longrightarrow> kv_step (OpDelete key) M (Inr (Deleted row)) (M(key := None))"
| delete_missing: "M key = None \<Longrightarrow> kv_step (OpDelete key) M (Inl (Permanent (KeyNotFound key))) M"
| scan: "lists_map rs M \<Longrightarrow> kv_step OpScan M (Inr (Rows rs)) M"

inductive_cases kv_insertE: "kv_step (OpInsert key row) M r M'"
inductive_cases kv_getE: "kv_step (OpGet key) M r M'"
inductive_cases kv_updateE: "kv_step (OpUpdate key row) M r M'"
inductive_cases kv_deleteE: "kv_step (OpDelete key) M r M'"
inductive_cases kv_scanE: "kv_step OpScan M r M'"

inductive kv_run :: "kv_op list \<Rightarrow> (i64 \<rightharpoonup> row) \<Rightarrow> kv_result list \<Rightarrow> (i64 \<rightharpoonup> row) \<Rightarrow> bool" where
  Nil: "kv_run [] M [] M"
| Cons: "kv_step op M r M' \<Longrightarrow> kv_run ops M' rs M'' \<Longrightarrow> kv_run (op # ops) M (r # rs) M''"

inductive_cases kv_run_NilE: "kv_run [] M rs M'"
inductive_cases kv_run_ConsE: "kv_run (op # ops) M rs M'"

text \<open>A sorted list of a map's entries is unique, so every reply is determined by the map.\<close>

lemma lists_map_unique:
  assumes "lists_map rs M" "lists_map rs' M"
  shows "rs = rs'"
proof -
  have keys: "distinct (map fst rs)" "distinct (map fst rs')"
    using assms sorted_keys_distinct by (auto simp: lists_map_def)
  have "x \<in> set rs \<longleftrightarrow> x \<in> set rs'" for x
    using map_of_eq_Some_iff [OF keys(1), of "fst x" "snd x"] map_of_eq_Some_iff [OF keys(2), of "fst x" "snd x"] assms
    by (simp add: lists_map_def)
  then have set: "set rs = set rs'" by blast
  have mono: "sorted_wrt (\<lambda>a b. sint (fst a) < sint (fst b)) rs" "sorted_wrt (\<lambda>a b. sint (fst a) < sint (fst b)) rs'"
    using assms by (simp_all add: lists_map_def sorted_wrt_map case_prod_unfold)
  show ?thesis
    using mono set
  proof (induction rs arbitrary: rs')
    case (Cons a xs)
    then obtain b ys where ys: "rs' = b # ys" by (cases rs') auto
    have "a = b"
    proof (rule ccontr)
      assume "a \<noteq> b"
      then have "a \<in> set ys" "b \<in> set xs" using Cons.prems(3) ys by auto
      then show False using Cons.prems(1,2) ys by fastforce
    qed
    moreover have "a \<notin> set xs" "b \<notin> set ys" using Cons.prems(1,2) ys by auto
    ultimately have "set xs = set ys" using Cons.prems(3) ys by auto
    with Cons.IH Cons.prems(1,2) ys \<open>a = b\<close> show ?case by simp
  qed simp
qed

section \<open>The interface\<close>

text \<open>
  A store \<open>s\<close> with a ghost \<open>g\<close> (the tree on its pages) stands for a map; a call it
  accepts answers as the abstract machine does.
\<close>

locale kv_store =
  fixes rep :: "'s \<Rightarrow> 'g \<Rightarrow> (i64 \<rightharpoonup> row) \<Rightarrow> bool"
    and accepts :: "'s \<Rightarrow> 'g \<Rightarrow> kv_op \<Rightarrow> bool"
    and call :: "kv_op \<Rightarrow> 's \<Rightarrow> (kv_result \<times> 's) option"
  assumes call_law: "rep s g M \<Longrightarrow> accepts s g op \<Longrightarrow>
    \<exists>r s' g' M'. call op s = Some (r, s') \<and> kv_step op M r M' \<and> rep s' g' M'"
    and reads_accepted: "accepts s g (OpGet key)" "accepts s g OpScan"
begin

lemma call_refines:
  assumes "rep s g M" "accepts s g op" "call op s = Some (r, s')"
  obtains g' M' where "kv_step op M r M'" "rep s' g' M'"
  using call_law [OF assms(1,2)] assms(3) by auto

lemma get_finds:
  assumes "rep s g M"
  obtains s' g' where "call (OpGet key) s = Some (Inr (Found (M key)), s')" "rep s' g' M"
  using call_law [OF assms reads_accepted(1), of key] that by (auto elim: kv_getE)

lemma scan_lists:
  assumes "rep s g M"
  obtains rs s' g' where "call OpScan s = Some (Inr (Rows rs), s')" "lists_map rs M" "rep s' g' M"
  using call_law [OF assms reads_accepted(2)] that by (auto elim: kv_scanE)

text \<open>What was inserted is found, and a deleted key is not.\<close>

lemma get_after_insert:
  assumes "rep s g M" "accepts s g (OpInsert key row)" "call (OpInsert key row) s = Some (Inr Done, s')"
  obtains s'' g' where "call (OpGet key) s' = Some (Inr (Found (Some row)), s'')" "rep s'' g' (M(key \<mapsto> row))"
proof -
  obtain g1 M' where m: "kv_step (OpInsert key row) M (Inr Done) M'" "rep s' g1 M'"
    by (rule call_refines [OF assms])
  then have "M' = M(key \<mapsto> row)" by (auto elim: kv_insertE)
  with m(2) get_finds [of s' g1 M' key] that show thesis by auto
qed

lemma get_after_delete:
  assumes "rep s g M" "accepts s g (OpDelete key)" "call (OpDelete key) s = Some (Inr (Deleted row), s')"
  obtains s'' g' where "M key = Some row" "call (OpGet key) s' = Some (Inr (Found None), s'')"
    "rep s'' g' (M(key := None))"
proof -
  obtain g1 M' where m: "kv_step (OpDelete key) M (Inr (Deleted row)) M'" "rep s' g1 M'"
    by (rule call_refines [OF assms])
  then have "M' = M(key := None)" "M key = Some row" by (auto elim: kv_deleteE)
  with m(2) get_finds [of s' g1 M' key] that show thesis by auto
qed

end

section \<open>The database implements it\<close>

definition db_call :: "(bytes \<Rightarrow> u64) \<Rightarrow> kv_op \<Rightarrow> database \<Rightarrow> (kv_result \<times> database) option" where
  "db_call xxh op =
     (case op of
        OpInsert key row \<Rightarrow> dbind (db_insert xxh key row) (\<lambda>_. dpure (Inr Done))
      | OpGet key \<Rightarrow> dbind (db_get xxh key) (\<lambda>found. dpure (Inr (Found found)))
      | OpUpdate key row \<Rightarrow> dbind (db_update xxh key row) (\<lambda>_. dpure (Inr Done))
      | OpDelete key \<Rightarrow> dbind (db_delete xxh key) (\<lambda>row. dpure (Inr (Deleted row)))
      | OpScan \<Rightarrow> dbind (db_scan xxh) (\<lambda>rs. dpure (Inr (Rows rs))))"

definition db_rep :: "(bytes \<Rightarrow> u64) \<Rightarrow> database \<Rightarrow> tree option \<Rightarrow> (i64 \<rightharpoonup> row) \<Rightarrow> bool" where
  "db_rep xxh db t M \<longleftrightarrow> represents xxh (db_pool db) t M"

text \<open>
  A write needs a well-formed row and room for it. Lookup and scan need nothing; a write that the
  map refuses needs nothing either, but the facade cannot know that beforehand.
\<close>

definition db_accepts :: "(bytes \<Rightarrow> u64) \<Rightarrow> database \<Rightarrow> tree option \<Rightarrow> kv_op \<Rightarrow> bool" where
  "db_accepts xxh db t op \<longleftrightarrow>
     (case op of
        OpInsert key row \<Rightarrow> row_wf row \<and> room_for xxh (db_pool db) t key row
      | OpUpdate key row \<Rightarrow> row_wf row \<and> room_for xxh (db_pool db) t key row
      | OpDelete key \<Rightarrow> ids_left (db_pool db) t 0
      | _ \<Rightarrow> True)"

text \<open>The page ids a call may take and the cells it may add.\<close>

definition op_ids :: "kv_op \<Rightarrow> nat" where
  "op_ids op = (case op of OpInsert key row \<Rightarrow> length (row_bytes row) | OpUpdate key row \<Rightarrow> length (row_bytes row) | _ \<Rightarrow> 0)"

definition op_cells :: "pool \<Rightarrow> kv_op \<Rightarrow> bytes set" where
  "op_cells p op =
     (case op of
        OpInsert key row \<Rightarrow> {c. length c = row_cell_len p row}
      | OpUpdate key row \<Rightarrow> {c. length c = row_cell_len p row}
      | _ \<Rightarrow> {})"

definition op_writes :: "kv_op \<Rightarrow> bool" where
  "op_writes op = (case op of OpGet _ \<Rightarrow> False | OpScan \<Rightarrow> False | _ \<Rightarrow> True)"

text \<open>
  A call either only looked at the store, which no successful write does, or it committed a new
  tree in the resources its operation may take.
\<close>

definition call_effect ::
    "(bytes \<Rightarrow> u64) \<Rightarrow> kv_op \<Rightarrow> pool \<Rightarrow> tree option \<Rightarrow> kv_result \<Rightarrow> pool \<Rightarrow> tree option \<Rightarrow> (i64 \<rightharpoonup> row) \<Rightarrow> bool" where
  "call_effect xxh op p t r p' t' M' \<longleftrightarrow> looked_at xxh p p' \<and> t' = t \<and> (op_writes op \<longrightarrow> (\<forall>a. r \<noteq> Inr a)) \<or>
     op_writes op \<and> (\<exists>u. t' = Some u \<and>
        written xxh p p' u M' (op_ids op + 2 * height_of t + 3) (Suc (height_of t)) (cells_of t \<union> op_cells p op))"

lemma on_pool_eq: "m (db_pool db) = Some (r, p) \<Longrightarrow> on_pool m db = Some (r, db\<lparr>db_pool := p\<rparr>)"
  by (simp add: on_pool_def)

lemmas db_ops = db_call_def db_insert_def db_get_def db_update_def db_delete_def db_scan_def on_pool_def dbind_def dpure_def

text \<open>Every call answers as the map does and leaves a database that stands for the map's new state.\<close>

lemma insert_call:
  assumes "represents xxh (db_pool db) t M" "row_wf row" "room_for xxh (db_pool db) t key row"
  shows "\<exists>r p' t' M'. db_call xxh (OpInsert key row) db = Some (r, db\<lparr>db_pool := p'\<rparr>) \<and>
    kv_step (OpInsert key row) M r M' \<and> represents xxh p' t' M' \<and> call_effect xxh (OpInsert key row) (db_pool db) t r p' t' M'"
proof (cases "M key")
  case (Some old)
  with assms(1) obtain p' where p': "btree_insert xxh key row (db_pool db) = Some (Inl (Permanent (KeyAlreadyExists key)), p')"
    "looked_at xxh (db_pool db) p'" using insert_duplicate by (metis option.distinct(1))
  then show ?thesis
    using kv_step.insert_exists [where M = M and key = key, OF Some] represents_looked_at [OF assms(1) p'(2)]
    by (auto simp: db_ops call_effect_def op_writes_def)
next
  case None
  show ?thesis
  proof (cases "row_fits row")
    case True
    from insert_represents [OF assms(1) True assms(2) None assms(3)] obtain t' p' where
      w: "btree_insert xxh key row (db_pool db) = Some (Inr (root_id t'), p')"
        "written xxh (db_pool db) p' t' (M(key \<mapsto> row)) (length (row_bytes row) + 2 * height_of t + 3) (Suc (height_of t))
          (cells_of t \<union> {c. length c = row_cell_len (db_pool db) row})" .
    have "represents xxh p' (Some t') (M(key \<mapsto> row))" using w(2) by (simp add: written_def)
    then show ?thesis
      using kv_step.insert [where M = M and key = key, OF None True] w by (force simp: db_ops call_effect_def op_writes_def op_ids_def op_cells_def)
  next
    case False
    from insert_oversized [OF assms(1) None False] obtain n p' where
      p': "btree_insert xxh key row (db_pool db) = Some (Inl (Permanent (PayloadTooLarge key n)), p')" "2 ^ 32 \<le> n"
        "looked_at xxh (db_pool db) p'" .
    then show ?thesis
      using kv_step.insert_large [where M = M and key = key, OF None False p'(2)] represents_looked_at [OF assms(1) p'(3)]
      by (auto simp: db_ops call_effect_def op_writes_def)
  qed
qed

lemma update_call:
  assumes "represents xxh (db_pool db) t M" "row_wf row" "room_for xxh (db_pool db) t key row"
  shows "\<exists>r p' t' M'. db_call xxh (OpUpdate key row) db = Some (r, db\<lparr>db_pool := p'\<rparr>) \<and>
    kv_step (OpUpdate key row) M r M' \<and> represents xxh p' t' M' \<and> call_effect xxh (OpUpdate key row) (db_pool db) t r p' t' M'"
proof (cases "M key")
  case None
  from find_key_absent [OF assms(1) None] obtain p' where
    p': "find_key xxh key (db_pool db) = Some (Inl (Permanent (KeyNotFound key)), p')" "looked_at xxh (db_pool db) p'" .
  then show ?thesis
    using kv_step.update_missing [where M = M and key = key, OF None] represents_looked_at [OF assms(1) p'(2)]
    by (auto simp: db_ops call_effect_def op_writes_def btree_update_def)
next
  case (Some old)
  then have ne: "M key \<noteq> None" by simp
  show ?thesis
  proof (cases "row_fits row")
    case True
    from update_represents [OF assms(1) True assms(2) ne assms(3)] obtain t' p' where
      w: "btree_update xxh key row (db_pool db) = Some (Inr (root_id t'), p')"
        "written xxh (db_pool db) p' t' (M(key \<mapsto> row)) (length (row_bytes row) + 2 * height_of t + 3) (Suc (height_of t))
          (cells_of t \<union> {c. length c = row_cell_len (db_pool db) row})" .
    have "represents xxh p' (Some t') (M(key \<mapsto> row))" using w(2) by (simp add: written_def)
    then show ?thesis
      using kv_step.update [where M = M and key = key, OF Some True] w by (force simp: db_ops call_effect_def op_writes_def op_ids_def op_cells_def)
  next
    case False
    from update_oversized [OF assms(1) ne False] obtain n p' where
      p': "btree_update xxh key row (db_pool db) = Some (Inl (Permanent (PayloadTooLarge key n)), p')" "2 ^ 32 \<le> n"
        "looked_at xxh (db_pool db) p'" .
    then show ?thesis
      using kv_step.update_large [where M = M and key = key, OF Some False p'(2)] represents_looked_at [OF assms(1) p'(3)]
      by (auto simp: db_ops call_effect_def op_writes_def)
  qed
qed

lemma delete_call:
  assumes "represents xxh (db_pool db) t M" "ids_left (db_pool db) t 0"
  shows "\<exists>r p' t' M'. db_call xxh (OpDelete key) db = Some (r, db\<lparr>db_pool := p'\<rparr>) \<and>
    kv_step (OpDelete key) M r M' \<and> represents xxh p' t' M' \<and> call_effect xxh (OpDelete key) (db_pool db) t r p' t' M'"
proof (cases "M key")
  case None
  from find_key_absent [OF assms(1) None] obtain p' where
    p': "find_key xxh key (db_pool db) = Some (Inl (Permanent (KeyNotFound key)), p')" "looked_at xxh (db_pool db) p'" .
  then show ?thesis
    using kv_step.delete_missing [where M = M and key = key, OF None] represents_looked_at [OF assms(1) p'(2)]
    by (auto simp: db_ops call_effect_def op_writes_def btree_delete_def)
next
  case (Some row)
  from delete_represents [OF assms(1) Some assms(2)] obtain t' p' where
    w: "btree_delete xxh key (db_pool db) = Some (Inr (root_id t', row), p')"
      "written xxh (db_pool db) p' t' (M(key := None)) (2 * height_of t + 3) (Suc (height_of t)) (cells_of t)" .
  have "represents xxh p' (Some t') (M(key := None))" using w(2) by (simp add: written_def)
  then show ?thesis
    using kv_step.delete [where M = M and key = key, OF Some] w by (force simp: db_ops call_effect_def op_writes_def op_ids_def op_cells_def)
qed

lemma db_call_law:
  assumes "represents xxh (db_pool db) t M" "db_accepts xxh db t op"
  shows "\<exists>r p' t' M'. db_call xxh op db = Some (r, db\<lparr>db_pool := p'\<rparr>) \<and> kv_step op M r M' \<and>
    represents xxh p' t' M' \<and> call_effect xxh op (db_pool db) t r p' t' M'"
proof (cases op)
  case (OpInsert key row)
  then show ?thesis using insert_call [OF assms(1), of row key] assms(2) by (simp add: db_accepts_def)
next
  case (OpUpdate key row)
  then show ?thesis using update_call [OF assms(1), of row key] assms(2) by (simp add: db_accepts_def)
next
  case (OpDelete key)
  then show ?thesis using delete_call [OF assms(1), of key] assms(2) by (simp add: db_accepts_def)
next
  case (OpGet key)
  from get_represents [OF assms(1), of key] obtain p' where
    p': "btree_get xxh key (db_pool db) = Some (Inr (M key), p')" "looked_at xxh (db_pool db) p'" .
  then show ?thesis
    using OpGet kv_step.get [of key M] represents_looked_at [OF assms(1) p'(2)] by (auto simp: db_ops call_effect_def op_writes_def)
next
  case OpScan
  from scan_represents [OF assms(1)] obtain rs p' where
    p': "btree_scan xxh (db_pool db) = Some (Inr rs, p')" "lists_map rs M" "looked_at xxh (db_pool db) p'" .
  then show ?thesis
    using OpScan kv_step.scan [OF p'(2)] represents_looked_at [OF assms(1) p'(3)] by (auto simp: db_ops call_effect_def op_writes_def)
qed

interpretation db: kv_store "db_rep xxh" "db_accepts xxh" "db_call xxh" for xxh
proof
  fix db t M op key
  show "db_rep xxh db t M \<Longrightarrow> db_accepts xxh db t op \<Longrightarrow>
      \<exists>r db' t' M'. db_call xxh op db = Some (r, db') \<and> kv_step op M r M' \<and> db_rep xxh db' t' M'"
    using db_call_law [of xxh db t M op] by (force simp: db_rep_def)
  show "db_accepts xxh db t (OpGet key)" "db_accepts xxh db t OpScan" by (simp_all add: db_accepts_def)
qed

end
