(* ===== verification/Session.thy ===== *)
theory Session
  imports Kv_Store
begin

text \<open>
  Sequences of calls on one open database. A session is a list of operations; as long as the page
  ids and transaction numbers last, every call of it answers as the map does. The locale
  \<open>kv_session\<close> extends the store's interface with what such a budget promises; the
  interpretation \<open>db_session\<close> gives the facade's.
\<close>

section \<open>Sessions\<close>

fun calls :: "('op \<Rightarrow> 's \<Rightarrow> ('r \<times> 's) option) \<Rightarrow> 'op list \<Rightarrow> 's \<Rightarrow> ('r list \<times> 's) option" where
  "calls call [] s = Some ([], s)"
| "calls call (op # ops) s =
     Option.bind (call op s) (\<lambda>(r, s'). map_option (\<lambda>(rs, s''). (r # rs, s'')) (calls call ops s'))"

text \<open>
  A store whose calls follow a relation \<open>step\<close> on what it stands for, one by one: \<open>affords s g n\<close>
  says that it has what \<open>n\<close> more modest calls may use up. Sessions follow \<open>run\<close>.
\<close>

locale stepwise_store =
  fixes rep :: "'s \<Rightarrow> 'g \<Rightarrow> 'm \<Rightarrow> bool"
    and affords :: "'s \<Rightarrow> 'g \<Rightarrow> nat \<Rightarrow> bool"
    and modest :: "kv_op \<Rightarrow> bool"
    and call :: "kv_op \<Rightarrow> 's \<Rightarrow> (kv_result \<times> 's) option"
    and step :: "kv_op \<Rightarrow> 'm \<Rightarrow> kv_result \<Rightarrow> 'm \<Rightarrow> bool"
    and run :: "kv_op list \<Rightarrow> 'm \<Rightarrow> kv_result list \<Rightarrow> 'm \<Rightarrow> bool"
  assumes step_law: "rep s g M \<Longrightarrow> affords s g (Suc n) \<Longrightarrow> modest op \<Longrightarrow>
    \<exists>r s' g' M'. call op s = Some (r, s') \<and> step op M r M' \<and> rep s' g' M' \<and> affords s' g' n"
    and run_Nil: "run [] M [] M"
    and run_Cons: "step op M r M' \<Longrightarrow> run ops M' rs M'' \<Longrightarrow> run (op # ops) M (r # rs) M''"
begin

lemma session:
  assumes "rep s g M" "affords s g (length ops + n)" "list_all modest ops"
  shows "\<exists>rs s' g' M'. calls call ops s = Some (rs, s') \<and> run ops M rs M' \<and> rep s' g' M' \<and> affords s' g' n"
  using assms
proof (induction ops arbitrary: s g M)
  case Nil
  then show ?case using run_Nil by auto
next
  case (Cons op ops)
  have "affords s g (Suc (length ops + n))" "modest op" using Cons.prems by simp_all
  from step_law [OF Cons.prems(1) this] obtain r s1 g1 M1 where
    1: "call op s = Some (r, s1)" "step op M r M1" "rep s1 g1 M1" "affords s1 g1 (length ops + n)" by blast
  have "list_all modest ops" using Cons.prems(3) by simp
  from Cons.IH [OF 1(3,4) this] obtain rs s2 g2 M2 where
    2: "calls call ops s1 = Some (rs, s2)" "run ops M1 rs M2" "rep s2 g2 M2" "affords s2 g2 n" by blast
  have "calls call (op # ops) s = Some (r # rs, s2)" using 1(1) 2(1) by simp
  with run_Cons [OF 1(2) 2(2)] 2(3,4) show ?case by blast
qed

end

text \<open>A map store whose calls are stepwise too: what it answers is the map's answer.\<close>

locale kv_session = kv_store rep accepts call
  for rep :: "'s \<Rightarrow> 'g \<Rightarrow> (i64 \<rightharpoonup> row) \<Rightarrow> bool" and accepts :: "'s \<Rightarrow> 'g \<Rightarrow> kv_op \<Rightarrow> bool"
    and call :: "kv_op \<Rightarrow> 's \<Rightarrow> (kv_result \<times> 's) option" +
  fixes affords :: "'s \<Rightarrow> 'g \<Rightarrow> nat \<Rightarrow> bool"
    and modest :: "kv_op \<Rightarrow> bool"
  assumes session_law: "rep s g M \<Longrightarrow> affords s g (Suc n) \<Longrightarrow> modest op \<Longrightarrow>
    \<exists>r s' g' M'. call op s = Some (r, s') \<and> kv_step op M r M' \<and> rep s' g' M' \<and> affords s' g' n"

sublocale kv_session \<subseteq> stepwise_store rep affords modest call kv_step kv_run
  by unfold_locales (fact session_law, (fact kv_run.intros)+)

context kv_session
begin

text \<open>The map a session leads to is what a scan after it lists.\<close>

lemma session_then_scan:
  assumes "rep s g M" "affords s g (length ops)" "list_all modest ops"
  obtains rs s' M' where "calls call ops s = Some (rs, s')" "kv_run ops M rs M'"
    "\<exists>entries s''. call OpScan s' = Some (Inr (Rows entries), s'') \<and> lists_map entries M'"
proof -
  obtain rs s' g' M' where r: "calls call ops s = Some (rs, s')" "kv_run ops M rs M'" "rep s' g' M'"
    using session [where n = 0, OF assms(1) _ assms(3)] assms(2) by auto
  from scan_lists [OF r(3)] obtain entries s'' g'' where
    "call OpScan s' = Some (Inr (Rows entries), s'')" "lists_map entries M'" .
  with r(1,2) that show thesis by blast
qed

end

section \<open>The budget of the database\<close>

definition modest_op :: "kv_op \<Rightarrow> bool" where
  "modest_op op \<longleftrightarrow>
     (case op of
        OpInsert key row \<Rightarrow> row_wf row \<and> length (row_bytes row) \<le> SMALL_ROW
      | OpUpdate key row \<Rightarrow> row_wf row \<and> length (row_bytes row) \<le> SMALL_ROW
      | _ \<Rightarrow> True)"

text \<open>
  One call takes a row's chain, two halves, two pages per ancestor and a root; it makes the tree
  one level higher at most.
\<close>

definition pool_affords :: "pool \<Rightarrow> tree option \<Rightarrow> nat \<Rightarrow> bool" where
  "pool_affords p t n \<longleftrightarrow> (\<forall>c \<in> cells_of t. length c \<le> SMALL_CELL) \<and>
     unat (bp_next_page_id p) + n * (260 + 2 * (height_of t + n)) < 2 ^ 32 \<and> unat (p_txn_id (bp_pager p)) + n < 2 ^ 64"

definition db_affords :: "database \<Rightarrow> tree option \<Rightarrow> nat \<Rightarrow> bool" where
  "db_affords db t n \<longleftrightarrow> pool_affords (db_pool db) t n"

lemma txn_left: "unat (x :: u64) + k < 2 ^ 64 \<Longrightarrow> 0 < k \<Longrightarrow> x \<noteq> - 1"
  and txn_next: "x \<noteq> - 1 \<Longrightarrow> unat (x + 1 :: u64) = unat x + 1"
proof -
  assume k: "unat x + k < 2 ^ 64" "0 < k"
  show "x \<noteq> - 1"
  proof
    assume "x = - 1"
    then have "unat x = 2 ^ 64 - 1" by (simp add: unsigned_minus_1_eq_mask mask_eq_exp_minus_1)
    with k show False by simp
  qed
next
  assume "x \<noteq> - 1"
  then show "unat (x + 1) = unat x + 1" using unatSuc [of x] by (simp add: add_eq_0_iff add.commute)
qed

lemma budget_step: "h' \<le> Suc h \<Longrightarrow> n * (260 + 2 * (h' + n)) + (255 + 2 * h) \<le> Suc n * (260 + 2 * (h + Suc n))"
proof -
  assume "h' \<le> Suc h"
  then have "n * (260 + 2 * (h' + n)) \<le> n * (260 + 2 * (h + Suc n))" by (intro mult_le_mono) simp_all
  moreover have "255 + 2 * h \<le> 260 + 2 * (h + Suc n)" by simp
  ultimately show ?thesis unfolding mult_Suc by linarith
qed

lemma affords_ids:
  assumes "pool_affords p t (Suc n)" "k \<le> SMALL_ROW"
  shows "ids_left p t k"
proof -
  have "255 + 2 * height_of t \<le> Suc n * (260 + 2 * (height_of t + Suc n))"
    using budget_step [of 0 "height_of t" n] by simp
  then show ?thesis
    using assms txn_left [of "p_txn_id (bp_pager p)" "Suc n"] by (simp add: pool_affords_def ids_left_def small_consts)
qed

lemma affords_less:
  assumes "pool_affords p t (Suc n)"
  shows "pool_affords p t n"
proof -
  have "n * (260 + 2 * (height_of t + n)) \<le> Suc n * (260 + 2 * (height_of t + Suc n))" by (intro mult_le_mono) simp_all
  then show ?thesis using assms unfolding pool_affords_def by linarith
qed

lemma affords_after:
  assumes "pool_affords p t (Suc n)" "modest_op op" "call_effect xxh op p t r p' t' M'"
  shows "pool_affords p' t' n"
  using assms(3) unfolding call_effect_def
proof (elim disjE conjE exE)
  assume "looked_at xxh p p'" "t' = t"
  then show ?thesis
    using affords_less [OF assms(1)] extends_txn [of xxh p p'] by (simp add: looked_at_def pool_affords_def)
next
  fix u
  assume u: "t' = Some u"
    and w: "written xxh p p' u M' (op_ids op + 2 * height_of t + 3) (Suc (height_of t)) (cells_of t \<union> op_cells p op)"
  have op: "op_ids op \<le> SMALL_ROW" "\<forall>c \<in> op_cells p op. length c \<le> SMALL_CELL"
    using assms(2) by (auto simp: modest_op_def op_ids_def op_cells_def row_cell_len_def SMALL_CELL_def split: kv_op.splits)
  then have ids: "unat (bp_next_page_id p') \<le> unat (bp_next_page_id p) + (255 + 2 * height_of t)"
    "height_of t' \<le> Suc (height_of t)" "cells_of t' \<subseteq> cells_of t \<union> op_cells p op"
    "p_txn_id (bp_pager p') = p_txn_id (bp_pager p) + 1"
    using w u by (auto simp: written_def height_of_def cells_of_def small_consts)
  have a: "unat (bp_next_page_id p) + Suc n * (260 + 2 * (height_of t + Suc n)) < 2 ^ 32"
    "unat (p_txn_id (bp_pager p)) + Suc n < 2 ^ 64" "\<forall>c \<in> cells_of t. length c \<le> SMALL_CELL"
    using assms(1) unfolding pool_affords_def by blast+
  have "unat (bp_next_page_id p') + n * (260 + 2 * (height_of t' + n)) < 2 ^ 32"
    using a(1) ids(1) budget_step [OF ids(2), of n] by linarith
  moreover have "unat (p_txn_id (bp_pager p')) + n < 2 ^ 64"
    using a(2) txn_next [OF txn_left [OF a(2)]] ids(4) by simp
  ultimately show ?thesis using a(3) op(2) ids(3) unfolding pool_affords_def by blast
qed

lemma affords_accepts:
  assumes "db_rep xxh db t M" "db_affords db t (Suc n)" "modest_op op"
  shows "db_accepts xxh db t op"
proof -
  have rep: "represents xxh (db_pool db) t M" and aff: "pool_affords (db_pool db) t (Suc n)"
    using assms(1,2) by (simp_all add: db_rep_def db_affords_def)
  have cells: "\<forall>c \<in> cells_of t. length c \<le> SMALL_CELL" using aff by (simp add: pool_affords_def)
  have "room_for xxh (db_pool db) t key row" if "length (row_bytes row) \<le> SMALL_ROW" for key row
    by (rule room_for_small [OF rep cells that affords_ids [OF aff that]])
  then show ?thesis
    using assms(3) affords_ids [OF aff, of 0] by (auto simp: db_accepts_def modest_op_def split: kv_op.splits)
qed

interpretation db_session: kv_session "db_rep xxh" "db_accepts xxh" "db_call xxh" db_affords modest_op for xxh
proof
  fix db t M n op
  assume r: "db_rep xxh db t M" and a: "db_affords db t (Suc n)" and m: "modest_op op"
  have rep: "represents xxh (db_pool db) t M" and aff: "pool_affords (db_pool db) t (Suc n)"
    using r a by (simp_all add: db_rep_def db_affords_def)
  from db_call_law [OF rep affords_accepts [OF r a m]] obtain r p' t' M' where
    "db_call xxh op db = Some (r, db\<lparr>db_pool := p'\<rparr>)" "kv_step op M r M'" "represents xxh p' t' M'"
    "call_effect xxh op (db_pool db) t r p' t' M'" by blast
  moreover have "pool_affords p' t' n" by (rule affords_after [OF aff m calculation(4)])
  ultimately show "\<exists>r db' t' M'. db_call xxh op db = Some (r, db') \<and> kv_step op M r M' \<and>
      db_rep xxh db' t' M' \<and> db_affords db' t' n"
    by (force simp: db_rep_def db_affords_def)
qed

section \<open>A new database\<close>

text \<open>A file system on which the file can be created, and no call is going to fail.\<close>

definition creatable :: "filesystem \<Rightarrow> path \<Rightarrow> bool" where
  "creatable fs path \<longleftrightarrow> fs_open_faults fs = [] \<and> fs_files fs path = None \<and> list_all (\<lambda>x. x = None) (fs_new_faults fs)"

lemma creatable_empty [simp]: "creatable empty_fs path"
  by (simp add: creatable_def)

lemma new_pool_represents:
  assumes "pager_inv xxh pg" "fault_free (p_file pg)" "meta_of pg = fresh_meta ps" "1 \<le> capacity"
  obtains p where "pool_new pg capacity = Inr p" "represents xxh p None Map.empty" "bp_pager p = pg"
    "bp_next_page_id p = 2" "bp_dirty p = []"
proof -
  define p where "p = \<lparr>bp_pager = pg, bp_capacity = capacity, bp_entries = [], bp_dirty = [], bp_recency = [],
    bp_next_page_id = p_page_count pg\<rparr>"
  have m: "p_page_count pg = 2" "p_root_page_id pg = EMPTY_TREE_ROOT"
    using assms(3) by (simp_all add: meta_of_def fresh_meta_def page_consts)
  have v: "valid_page_size (page_bytes (p_page_size pg))" using assms(1) by (simp add: pager_inv_def)
  have "store_inv xxh p"
    using assms m(1) v pager_inv_ready [OF assms(1)] by (simp add: store_inv_def store_ok_def pool_inv_def pool_wf_def pool_coherent_def pool_page_size_def p_def)
  then have "represents xxh p None Map.empty"
    using m(2) by (simp add: represents_def pool_root_page_id_def p_def)
  moreover have "pool_new pg capacity = Inr p" using assms(4) by (simp add: pool_new_def p_def)
  ultimately show thesis using that m(1) by (simp add: p_def)
qed

lemma created_database:
  assumes "creatable fs path" "valid_page_size (page_bytes ps)" "1 \<le> capacity"
  obtains db fs' where "create_with_capacity xxh path ps capacity fs = (Inr db, fs')" "db_rep xxh db None Map.empty"
    "bp_next_page_id (db_pool db) = 2" "p_txn_id (bp_pager (db_pool db)) = 0" "bp_dirty (db_pool db) = []"
    "f_pending (pool_file (db_pool db)) = []" "fs_files fs' path = Some (pool_file (db_pool db))"
proof -
  from assms(1,2) obtain pg fs' where
    c: "pager_create xxh path ps fs = (Inr pg, fs')" "pager_inv xxh pg" "meta_of pg = fresh_meta ps" "p_path pg = path"
      "f_pending (p_file pg) = []" "fault_free (p_file pg)" "fs_files fs' path = Some (p_file pg)"
    unfolding creatable_def by (auto elim: pager_create_fault_free [where xxh = xxh])
  from c(2,6,3) assms(3) obtain p where
    p: "pool_new pg capacity = Inr p" "represents xxh p None Map.empty" "bp_pager p = pg" "bp_next_page_id p = 2" "bp_dirty p = []"
    by (rule new_pool_represents)
  have "create_with_capacity xxh path ps capacity fs = (Inr \<lparr>db_pool = p\<rparr>, fs')"
    using c(1) p(1) by (simp add: create_with_capacity_def sbind_def spure_def)
  moreover have "p_txn_id pg = 0" using c(3) by (simp add: meta_of_def fresh_meta_def)
  ultimately show thesis
    by (intro that [of "\<lparr>db_pool = p\<rparr>" fs']) (simp_all add: c(5,7) p db_rep_def)
qed

lemma fresh_affords:
  assumes "bp_next_page_id p = 2" "p_txn_id (bp_pager p) = 0" "n \<le> 46000"
  shows "pool_affords p None n"
proof -
  have "n * (260 + 2 * n) \<le> 46000 * (260 + 2 * 46000)" using assms(3) by (intro mult_le_mono) simp_all
  then show ?thesis using assms by (simp add: pool_affords_def cells_of_def height_of_def)
qed

section \<open>A sample database\<close>

definition sample_row :: row where
  "sample_row = Row [Integer 7, Text [0x70, 0x69], Boolean True]"

lemma sample_row_modest: "row_wf sample_row" "length (row_bytes sample_row) \<le> SMALL_ROW" "row_fits sample_row"
proof -
  show "row_wf sample_row" unfolding sample_row_def by code_simp
  show "row_fits sample_row" by (simp add: sample_row_def row_fits_def)
  show "length (row_bytes sample_row) \<le> SMALL_ROW" by (simp add: sample_row_def row_bytes_def SMALL_ROW_def)
qed

lemma sample_database:
  obtains db t where "db_rep xxh db (Some t) [1 \<mapsto> sample_row]" "db_affords db (Some t) 100"
    "bp_dirty (db_pool db) = []" "f_pending (pool_file (db_pool db)) = []"
    "p_page_count (bp_pager (db_pool db)) = bp_next_page_id (db_pool db)" "2 \<le> unat (root_id t)"
    "pager_inv xxh (bp_pager (db_pool db))"
proof -
  obtain db0 fs' where c: "create_with_capacity xxh ''db'' DEFAULT_PAGE_SIZE 256 empty_fs = (Inr db0, fs')"
    "db_rep xxh db0 None Map.empty" "bp_next_page_id (db_pool db0) = 2" "p_txn_id (bp_pager (db_pool db0)) = 0"
    by (rule created_database [OF creatable_empty default_page_size, of 256]) simp_all
  let ?op = "OpInsert 1 sample_row"
  have m: "modest_op ?op" using sample_row_modest by (simp add: modest_op_def)
  have a: "pool_affords (db_pool db0) None (Suc 100)" by (rule fresh_affords [OF c(3,4)]) simp
  have rep: "represents xxh (db_pool db0) None Map.empty" using c(2) by (simp add: db_rep_def)
  have "ids_left (db_pool db0) None (length (row_bytes sample_row))" by (rule affords_ids [OF a sample_row_modest(2)])
  then have "room_for xxh (db_pool db0) None 1 sample_row" by (simp add: room_for_def)
  from insert_empty [OF rep sample_row_modest(3,1) this] obtain t p' where
    w: "written xxh (db_pool db0) p' t [1 \<mapsto> sample_row] (length (row_bytes sample_row) + 3) 1
      {c. length c = row_cell_len (db_pool db0) sample_row}" and root: "bp_next_page_id (db_pool db0) \<le> root_id t" .
  then have "call_effect xxh ?op (db_pool db0) None (Inr Done) p' (Some t) [1 \<mapsto> sample_row]"
    by (simp add: call_effect_def op_writes_def op_ids_def op_cells_def height_of_def cells_of_def)
  from affords_after [OF a m this] have "pool_affords p' (Some t) 100" .
  then show thesis
    using that [of "db0\<lparr>db_pool := p'\<rparr>" t] w root c(3) by (simp add: db_rep_def db_affords_def written_def word_le_nat_alt)
qed

section \<open>Claims\<close>

lemma dbind_reply:
  "dbind m (\<lambda>a. dpure (Inr (f a))) s = Some (r, s') \<longleftrightarrow>
     (\<exists>x. m s = Some (x, s') \<and> r = (case x of Inl e \<Rightarrow> Inl e | Inr a \<Rightarrow> Inr (f a)))"
proof (cases "m s")
  case None
  then show ?thesis by (simp add: dbind_def)
next
  case (Some q)
  obtain x s1 where q: "q = (x, s1)" by fastforce
  show ?thesis using Some q by (cases x) (auto simp: dbind_def dpure_def)
qed

text \<open>
  C1: a session on a new database. On every page size and cache capacity, a list of up to 46000
  calls with small rows runs to its end, every reply is the one the map gives, and a scan
  afterwards lists the map the calls led to, in key order.
\<close>
lemma database_session:
  assumes "creatable fs path" "valid_page_size (page_bytes ps)" "1 \<le> capacity"
    and "create_with_capacity xxh path ps capacity fs = (Inr db, fs')"
    and "list_all modest_op ops" "length ops \<le> 46000"
  shows "\<exists>rs db' M'. calls (db_call xxh) ops db = Some (rs, db') \<and> kv_run ops Map.empty rs M' \<and>
    (\<exists>entries db''. db_scan xxh db' = Some (Inr entries, db'') \<and> lists_map entries M')"
proof -
  obtain db0 fs0 where c: "create_with_capacity xxh path ps capacity fs = (Inr db0, fs0)" "db_rep xxh db0 None Map.empty"
    "bp_next_page_id (db_pool db0) = 2" "p_txn_id (bp_pager (db_pool db0)) = 0"
    by (rule created_database [OF assms(1-3)])
  then have db: "db_rep xxh db None Map.empty" "db_affords db None (length ops)"
    using assms(4) fresh_affords [OF c(3,4) assms(6)] by (simp_all add: db_affords_def)
  from db_session.session_then_scan [OF db assms(5)] obtain rs db' M' where
    r: "calls (db_call xxh) ops db = Some (rs, db')" "kv_run ops Map.empty rs M'"
      "\<exists>entries db''. db_call xxh OpScan db' = Some (Inr (Rows entries), db'') \<and> lists_map entries M'" .
  from r(3) obtain entries db'' where e: "db_call xxh OpScan db' = Some (Inr (Rows entries), db'')" "lists_map entries M'"
    by blast
  from e(1) obtain x where x: "db_scan xxh db' = Some (x, db'')"
    "Inr (Rows entries) = (case x of Inl e \<Rightarrow> Inl e | Inr rs \<Rightarrow> Inr (Rows rs))"
    by (auto simp: db_call_def dbind_reply)
  then have "db_scan xxh db' = Some (Inr entries, db'')" by (cases x) simp_all
  with r(1,2) e(2) show ?thesis by blast
qed

text \<open>Insert twice, look up, delete, look up, delete.\<close>

lemma database_session_witness:
  "\<exists>db fs' db' M'. create_with_capacity (\<lambda>_. 0) ''db'' DEFAULT_PAGE_SIZE 1 empty_fs = (Inr db, fs') \<and>
     calls (db_call (\<lambda>_. 0))
       [OpInsert 1 sample_row, OpInsert 1 sample_row, OpGet 1, OpDelete 1, OpGet 1, OpDelete 1] db =
     Some ([Inr Done, Inl (Permanent (KeyAlreadyExists 1)), Inr (Found (Some sample_row)), Inr (Deleted sample_row),
       Inr (Found None), Inl (Permanent (KeyNotFound 1))], db') \<and>
     M' = Map.empty \<and> (\<exists>entries db''. db_scan (\<lambda>_. 0) db' = Some (Inr entries, db'') \<and> lists_map entries M')"
proof -
  let ?ops = "[OpInsert 1 sample_row, OpInsert 1 sample_row, OpGet 1, OpDelete 1, OpGet 1, OpDelete 1]"
  obtain db fs' where c: "create_with_capacity (\<lambda>_. 0) ''db'' DEFAULT_PAGE_SIZE 1 empty_fs = (Inr db, fs')"
    by (rule created_database [OF creatable_empty default_page_size, of 1]) simp_all
  have "list_all modest_op ?ops" using sample_row_modest by (simp add: modest_op_def)
  with database_session [OF creatable_empty default_page_size _ c, of ?ops] obtain rs db' M' where
    r: "calls (db_call (\<lambda>_. 0)) ?ops db = Some (rs, db')" "kv_run ?ops Map.empty rs M'"
      "\<exists>entries db''. db_scan (\<lambda>_. 0) db' = Some (Inr entries, db'') \<and> lists_map entries M'" by auto
  have "rs = [Inr Done, Inl (Permanent (KeyAlreadyExists 1)), Inr (Found (Some sample_row)), Inr (Deleted sample_row),
       Inr (Found None), Inl (Permanent (KeyNotFound 1))] \<and> M' = Map.empty"
    using r(2) sample_row_modest(3)
    by (fastforce elim!: kv_run_ConsE kv_run_NilE kv_insertE kv_getE kv_deleteE)
  with c r show ?thesis by blast
qed

lemma db_rep_pool: "db_rep xxh db t M \<Longrightarrow> represents xxh p t' M' \<Longrightarrow> db_rep xxh (db\<lparr>db_pool := p\<rparr>) t' M'"
  by (simp add: db_rep_def)

text \<open>
  C14: a lookup returns what the map holds under the key, whatever the tree looks like, and leaves
  the map as it is.
\<close>
lemma database_get:
  assumes "db_rep xxh db t M"
  shows "\<exists>db'. db_get xxh key db = Some (Inr (M key), db') \<and> db_rep xxh db' t M"
proof -
  have rep: "represents xxh (db_pool db) t M" using assms by (simp add: db_rep_def)
  from get_represents [OF rep, of key] obtain p' where
    "btree_get xxh key (db_pool db) = Some (Inr (M key), p')" "looked_at xxh (db_pool db) p'" .
  then show ?thesis
    using db_rep_pool [OF assms represents_looked_at [OF rep]] by (simp add: db_get_def on_pool_def)
qed

lemma database_get_witness:
  "\<exists>db t. db_rep (\<lambda>_. 0) db (Some t) [1 \<mapsto> sample_row] \<and>
     (\<exists>db'. db_get (\<lambda>_. 0) 1 db = Some (Inr (Some sample_row), db') \<and> db_rep (\<lambda>_. 0) db' (Some t) [1 \<mapsto> sample_row])"
proof -
  obtain db t where s: "db_rep (\<lambda>_. 0) db (Some t) [1 \<mapsto> sample_row]" by (rule sample_database)
  with database_get [OF s, of 1] show ?thesis by auto
qed

text \<open>
  C15: a scan returns every entry of the map once, in ascending key order.
\<close>
lemma database_scan:
  assumes "db_rep xxh db t M"
  shows "\<exists>rs db'. db_scan xxh db = Some (Inr rs, db') \<and> sorted_wrt (<) (map (\<lambda>(key, row). sint key) rs) \<and>
    map_of rs = M \<and> db_rep xxh db' t M"
proof -
  have rep: "represents xxh (db_pool db) t M" using assms by (simp add: db_rep_def)
  from scan_represents [OF rep] obtain rs p' where
    "btree_scan xxh (db_pool db) = Some (Inr rs, p')" "lists_map rs M" "looked_at xxh (db_pool db) p'" .
  then show ?thesis
    using db_rep_pool [OF assms represents_looked_at [OF rep]] by (simp add: db_scan_def on_pool_def lists_map_def)
qed

lemma database_scan_witness:
  "\<exists>db t. db_rep (\<lambda>_. 0) db (Some t) [1 \<mapsto> sample_row] \<and>
     (\<exists>rs db'. db_scan (\<lambda>_. 0) db = Some (Inr rs, db') \<and> sorted_wrt (<) (map (\<lambda>(key, row). sint key) rs) \<and>
       map_of rs = [1 \<mapsto> sample_row] \<and> db_rep (\<lambda>_. 0) db' (Some t) [1 \<mapsto> sample_row])"
proof -
  obtain db t where s: "db_rep (\<lambda>_. 0) db (Some t) [1 \<mapsto> sample_row]" by (rule sample_database)
  with database_scan [OF s] show ?thesis by blast
qed


lemma sample_room:
  obtains db t where "db_rep xxh db (Some t) [1 \<mapsto> sample_row]" "\<forall>key. room_for xxh (db_pool db) (Some t) key sample_row"
    "ids_left (db_pool db) (Some t) 0"
proof -
  obtain db t where s: "db_rep xxh db (Some t) [1 \<mapsto> sample_row]" "db_affords db (Some t) (Suc 99)"
    by (rule sample_database) simp
  have a: "pool_affords (db_pool db) (Some t) (Suc 99)" using s(2) by (simp add: db_affords_def)
  have "room_for xxh (db_pool db) (Some t) key sample_row" for key
    by (rule room_for_small [OF _ _ sample_row_modest(2) affords_ids [OF a sample_row_modest(2)]])
      (use s(1) a in \<open>simp_all add: db_rep_def pool_affords_def\<close>)
  then show thesis using that [OF s(1)] affords_ids [OF a] by simp
qed




text \<open>
  C13: a delete refines the delete of a map: it returns the row that was there and removes the key
  and nothing else, and it needs the key.
\<close>
lemma database_delete:
  assumes "db_rep xxh db t M" "ids_left (db_pool db) t 0"
  shows "\<exists>r db' t' M'. db_delete xxh key db = Some (r, db') \<and> db_rep xxh db' t' M' \<and>
    (case M key of
       None \<Rightarrow> r = Inl (Permanent (KeyNotFound key)) \<and> M' = M
     | Some row \<Rightarrow> r = Inr row \<and> M' = M(key := None))"
proof -
  have "represents xxh (db_pool db) t M" using assms(1) by (simp add: db_rep_def)
  from delete_call [OF this assms(2)] obtain r p' t' M' where
    c: "db_call xxh (OpDelete key) db = Some (r, db\<lparr>db_pool := p'\<rparr>)" "kv_step (OpDelete key) M r M'"
      "represents xxh p' t' M'" by blast
  then obtain x where x: "db_delete xxh key db = Some (x, db\<lparr>db_pool := p'\<rparr>)"
    "r = (case x of Inl e \<Rightarrow> Inl e | Inr row \<Rightarrow> Inr (Deleted row))"
    by (auto simp: db_call_def dbind_reply)
  have "case M key of
       None \<Rightarrow> x = Inl (Permanent (KeyNotFound key)) \<and> M' = M
     | Some row \<Rightarrow> x = Inr row \<and> M' = M(key := None)"
    using c(2) x(2) by (auto elim!: kv_deleteE split: sum.splits)
  with x(1) db_rep_pool [OF assms(1) c(3)] show ?thesis by blast
qed

lemma database_delete_witness:
  "\<exists>db t. db_rep (\<lambda>_. 0) db (Some t) [1 \<mapsto> sample_row] \<and>
     (\<exists>db' t'. db_delete (\<lambda>_. 0) 1 db = Some (Inr sample_row, db') \<and> db_rep (\<lambda>_. 0) db' t' Map.empty)"
proof -
  obtain db t where s: "db_rep (\<lambda>_. 0) db (Some t) [1 \<mapsto> sample_row]" "ids_left (db_pool db) (Some t) 0"
    by (rule sample_room)
  with database_delete [OF s, of 1] show ?thesis by auto
qed

end
