(* ===== verification/Chain_Claims.thy ===== *)
theory Chain_Claims
  imports Session
begin

text \<open>
  Overflow chains: what is written is read back, a row is recovered from its cell and chain, and
  reading a chain ends whatever the pages hold, also when they form a cycle.
\<close>

interpretation size_stable: pager_stable xxh "\<lambda>pg. p_page_size pg = ps" UNIV for xxh ps
proof
  fix pg pg' :: pager and pid buf buf' and r r'' :: "unit presult" and r' :: "bytes presult"
  assume s: "p_page_size pg = ps"
  show "read_data_page xxh pid pg = (r', pg') \<Longrightarrow> p_page_size pg' = ps"
    using s read_data_page_result(1) same_pager_sel(1) by metis
  show "sync_data pg = (r'', pg') \<Longrightarrow> p_page_size pg' = ps"
    using s sync_data_result(1) same_pager_sel(1) by metis
  show "write_data_page xxh pid buf pg = ((r, buf'), pg') \<Longrightarrow> p_page_size pg' = ps"
    using s same_pager_sel(1) by (elim write_data_page_pending) auto
qed

lemma pool_get_page_size: "pool_get xxh pid p = (r, p') \<Longrightarrow> pool_page_size p' = pool_page_size p"
  using size_stable.pool_get_safe [where ps = "pool_page_size p" and xxh = xxh and p = p and pid = pid and r = r and p' = p']
  by (simp add: size_stable.safe_def pool_page_size_def)

text \<open>Every page read adds at least one byte, so the loop ends after at most \<open>len\<close> pages.\<close>

lemma read_chain_returns:
  assumes "valid_page_size (page_bytes (pool_page_size p))"
  shows "\<exists>r p'. read_chain_loop xxh len current out p = Some (r, p')"
  using assms
proof (induction "len - length out" arbitrary: current out p rule: less_induct)
  case less
  show ?case
  proof (cases "current \<noteq> 0 \<and> length out < len")
    case False
    then show ?thesis by (subst read_chain_loop.simps) auto
  next
    case True
    obtain r1 p1 where g: "pool_get xxh current p = (r1, p1)" by fastforce
    have ps: "valid_page_size (page_bytes (pool_page_size p1))" using pool_get_page_size [OF g] less.prems by simp
    let ?n = "min (len - length out) (overflow_chunk_cap (page_bytes (pool_page_size p1)))"
    have n: "0 < ?n" using True overflow_chunk_cap_valid(2) [OF ps] by simp
    have step: "\<exists>r p'. read_chain_loop xxh len next_id (out @ chunk) p1 = Some (r, p')"
      if "read_vec buf OVERFLOW_HEADER_LEN ?n = Inr chunk" for buf next_id chunk
    proof -
      have "length chunk = ?n" using that by (auto simp: read_vec_def get_range_def split: if_splits)
      then have "len - length (out @ chunk) < len - length out" using n True by (simp add: min_def split: if_splits)
      then show ?thesis using less.hyps ps by blast
    qed
    show ?thesis
    proof (cases r1)
      case (Inl e)
      then show ?thesis using True g by (simp add: read_chain_loop.simps [of xxh len current] dbind_dlift_err)
    next
      case (Inr buf)
      note unfold = read_chain_loop.simps [of xxh len current] dbind_dlift_ok dbind_def [of "dpure _"] dpure_def
      show ?thesis
        using True g Inr step
        by (cases "expect_page_type current buf PAGE_TYPE_OVERFLOW ''overflow''"; cases "read_u32 buf 1";
            cases "read_vec buf OVERFLOW_HEADER_LEN ?n") (simp_all add: unfold)
    qed
  qed
qed

section \<open>Claims\<close>

text \<open>
  C25: reading an overflow chain always ends, with the bytes or an error, whatever the pages on disk
  hold and whichever reads fail: a chain that runs in a circle is cut off at the length asked for.
\<close>
lemma read_overflow_chain_returns:
  assumes "valid_page_size (page_bytes (pool_page_size p))"
  shows "\<exists>r p'. read_overflow_chain xxh first_id total_len p = Some (r, p')"
  using read_chain_returns [OF assms] by (simp add: read_overflow_chain_def)

lemma new_store:
  obtains p where "store_inv xxh p" "bp_next_page_id p = 2" "pool_page_size p = DEFAULT_PAGE_SIZE"
proof -
  obtain pg where pg: "pager_inv xxh pg" "fault_free (p_file pg)" "meta_of pg = fresh_meta DEFAULT_PAGE_SIZE"
    by (rule created_pager [OF default_page_size, of xxh])
  obtain p where p: "represents xxh p None Map.empty" "bp_pager p = pg" "bp_next_page_id p = 2"
    by (rule new_pool_represents [OF pg, of 1]) simp
  have "p_page_size pg = DEFAULT_PAGE_SIZE" using pg(3) by (simp add: meta_of_def fresh_meta_def)
  with p show thesis using that [of p] by (simp add: represents_def pool_page_size_def)
qed

lemma read_overflow_chain_returns_witness:
  "\<exists>p r p'. read_overflow_chain (\<lambda>_. 0) 7 10000 p = Some (r, p')"
proof -
  obtain p where "store_inv (\<lambda>_. 0) p" by (rule new_store)
  from read_overflow_chain_returns [OF conjunct1 [OF store_inv_page_size [OF this]]] show ?thesis by blast
qed

text \<open>
  C24: a payload written as an overflow chain is read back from it, byte for byte, and the pages
  that were there stay readable. The chain takes at most one page per byte.
\<close>
lemma overflow_chain_round_trip:
  assumes "store_inv xxh p" "unat (bp_next_page_id p) + length bs < 2 ^ 32"
  shows "\<exists>first p' p''. write_overflow_chain xxh bs p = Some (Inr first, p') \<and>
    read_overflow_chain xxh first (length bs) p' = Some (Inr bs, p'') \<and>
    store_inv xxh p'' \<and> store_view xxh p \<subseteq>\<^sub>m store_view xxh p''"
proof -
  from write_overflow_chain_ok [OF assms] obtain first p' where
    w: "write_overflow_chain xxh bs p = Some (Inr first, p')" "store.extends xxh p p'"
      "chain (store_view xxh p') (chunk_cap_of p) first bs" .
  have cap: "chunk_cap_of p = chunk_cap_of p'" using extends_frame(2) [OF w(2)] by (simp add: chunk_cap_of_def)
  from read_chain_loop_chain [OF w(3) extends_frame(1) [OF w(2)] map_le_refl cap, of "[]"] obtain p'' where
    r: "read_overflow_chain xxh first (length bs) p' = Some (Inr bs, p'')" "store.extends xxh p' p''"
    by (auto simp: read_overflow_chain_def)
  have e: "store.extends xxh p p''" by (rule store.extends_trans [OF w(2) r(2)])
  show ?thesis using w(1) r(1) extends_frame(1,6) [OF e] by blast
qed

lemma overflow_chain_round_trip_witness:
  "\<exists>p first p' p''. write_overflow_chain (\<lambda>_. 0) (replicate 9000 7) p = Some (Inr first, p') \<and>
     read_overflow_chain (\<lambda>_. 0) first 9000 p' = Some (Inr (replicate 9000 7), p'')"
proof -
  obtain p where "store_inv (\<lambda>_. 0) p" "bp_next_page_id p = 2" by (rule new_store)
  from overflow_chain_round_trip [OF this(1), of "replicate 9000 7"] this(2) show ?thesis by auto
qed

text \<open>
  C26: a row is recovered from the leaf page and the chain it is stored in. Build the cell of a row
  that fits the format and insert it into a leaf page with room for it, at any index: reading the
  cell at that index from the page gives the key and the length of the payload, with an overflow
  chain exactly if the payload is longer than what may stay on the page; reassembling the payload
  and decoding it gives the row.
\<close>
lemma row_cell_round_trip:
  assumes "store_inv xxh p" "row_fits row" "row_wf row" "unat (bp_next_page_id p) + length (row_bytes row) < 2 ^ 32"
    and "page_cells 5 buf cells" "index \<le> length cells" "5 + 2 * (length cells + 1) + row_cell_len p row \<le> content_pos buf"
  shows "\<exists>c p' buf' cell bs p''. build_row_cell xxh key row p = Some (Inr c, p') \<and>
    insert_cell_at buf LEAF_HEADER_LEN index c = Inr buf' \<and>
    leaf_cell_at buf' index (max_local (pool_page_size p)) = Inr cell \<and>
    lc_key cell = key \<and> unat (lc_payload_len cell) = length (row_bytes row) \<and>
    (lc_overflow_first cell = 0 \<longleftrightarrow> length (row_bytes row) \<le> unat (max_local (pool_page_size p))) \<and>
    reassemble xxh cell p' = Some (Inr bs, p'') \<and> row_decode bs = Inr row"
proof -
  obtain c p' where b: "build_row_cell xxh key row p = Some (Inr c, p')" "store.extends xxh p p'" "cell_key c = key"
    "cell_holds (store_view xxh p') (chunk_cap_of p) (max_local_of p) c row" "length c = row_cell_len p row"
    and fields: "unat (cell_payload_len c) = length (row_bytes row)"
      "cell_overflow c = 0 \<longleftrightarrow> length (row_bytes row) \<le> unat (max_local_of p)"
    by (rule build_row_cell_fields [OF assms(1-4), of key]) simp
  have "chunk_cap_of p = chunk_cap_of p'" "max_local_of p = max_local_of p'"
    using extends_frame(2) [OF b(2)] by (simp_all add: chunk_cap_of_def max_local_of_def)
  with b(4) have h: "cell_holds (store_view xxh p') (chunk_cap_of p') (max_local_of p') c row" by simp
  obtain bs p'' where r: "reassemble xxh (parse_leaf_cell c) p' = Some (Inr bs, p'')" "row_decode bs = Inr row"
    by (rule reassemble_holds [OF extends_frame(1) [OF b(2)] h]) simp
  obtain buf' where buf': "insert_cell_at buf 5 index c = Inr buf'" "page_cells 5 buf' (list_insert index c cells)"
    using page_cells_insert [OF assms(5,6), of c] assms(7) b(5) unfolding list_insert_def by metis
  have nth: "list_insert index c cells ! index = c" "index < length (list_insert index c cells)"
    using assms(6) by (simp_all add: list_insert_def nth_append)
  have "leaf_cell_wf (max_local_of p) c" using b(4) by (simp add: cell_holds_def)
  then have "leaf_cell_at buf' index (max_local_of p) = Inr (parse_leaf_cell c)"
    using leaf_cell_at_cells [OF buf'(2) nth(2)] nth(1) by simp
  with b(1,3) fields r buf'(1) show ?thesis
    by (intro exI [of _ c] exI [of _ p'] exI [of _ buf'] exI [of _ "parse_leaf_cell c"] exI [of _ bs] exI [of _ p''])
      (simp add: layout_consts parse_leaf_cell_def max_local_of_def)
qed

text \<open>A row with a blob of 9000 bytes, in an empty leaf: it has an overflow chain.\<close>

definition large_row :: row where
  "large_row = Row [Integer 7, Blob (replicate 9000 1)]"

lemma large_row: "row_wf large_row" "row_fits large_row" "length (row_bytes large_row) = 9018"
  by (simp_all add: large_row_def row_wf_def row_fits_def row_bytes_def)

lemma row_cell_round_trip_witness:
  "\<exists>p buf c p' buf' cell bs p''. build_row_cell (\<lambda>_. 0) 1 large_row p = Some (Inr c, p') \<and>
     insert_cell_at buf LEAF_HEADER_LEN 0 c = Inr buf' \<and>
     leaf_cell_at buf' 0 (max_local (pool_page_size p)) = Inr cell \<and> lc_key cell = 1 \<and> lc_overflow_first cell \<noteq> 0 \<and>
     reassemble (\<lambda>_. 0) cell p' = Some (Inr bs, p'') \<and> row_decode bs = Inr large_row"
proof -
  obtain p where p: "store_inv (\<lambda>_. 0) p" "bp_next_page_id p = 2" "pool_page_size p = DEFAULT_PAGE_SIZE" by (rule new_store)
  have ml: "max_local_of p = max_local DEFAULT_PAGE_SIZE" "unat (max_local DEFAULT_PAGE_SIZE) = 4053"
    using p(3) unat_max_local_of [OF p(1)] by (simp_all add: max_local_of_def pool_page_bytes_def DEFAULT_PAGE_SIZE_def bytes_usize_def)
  obtain buf where buf: "page_cells 5 buf []" "content_pos buf = 4088"
    by (rule init_slotted_cells [of 5 "replicate 4096 0" PAGE_TYPE_LEAF]) (simp_all add: page_limit_def)
  have "5 + 2 * (length [] + 1) + row_cell_len p large_row \<le> content_pos buf"
    by (simp add: row_cell_len_def large_row(3) ml buf(2))
  from row_cell_round_trip [OF p(1) large_row(2,1) _ buf(1) _ this, where index = 0 and key = 1] p(2,3) obtain c p' buf' cell bs p'' where
    r: "build_row_cell (\<lambda>_. 0) 1 large_row p = Some (Inr c, p')" "insert_cell_at buf LEAF_HEADER_LEN 0 c = Inr buf'"
      "leaf_cell_at buf' 0 (max_local (pool_page_size p)) = Inr cell" "lc_key cell = 1"
      "lc_overflow_first cell = 0 \<longleftrightarrow> length (row_bytes large_row) \<le> unat (max_local (pool_page_size p))"
      "reassemble (\<lambda>_. 0) cell p' = Some (Inr bs, p'')" "row_decode bs = Inr large_row"
    by (auto simp: large_row(3))
  moreover have "lc_overflow_first cell \<noteq> 0" using r(5) by (simp add: large_row(3) p(3) ml(2))
  ultimately show ?thesis by blast
qed

end
