(* ===== verification/Comparison.thy ===== *)
theory Comparison
  imports BTree
begin

text \<open>
  Two runs of the same code compared. \<open>R n p q\<close> relates a pool \<open>p\<close> with some defect (faults to
  come, damaged pages) to a pool \<open>q\<close> without it, both with \<open>n\<close> page ids left; \<open>bad\<close> says
  which errors report the defect. Then \<open>sim k\<close> says that the run on \<open>q\<close> does what the run on
  \<open>p\<close> does, unless that ends in a bad error, and that the pools stay related while \<open>k\<close> page ids
  are used up; \<open>ret k\<close> that the run on \<open>p\<close> returns if the run on \<open>q\<close> does. The locale
  \<open>reading\<close> lifts the law of \<open>pool_get\<close> to the loops of the tree that only read, the locale
  \<open>writing\<close> that of \<open>put_page\<close> to the operations that write. A loop is compared with itself
  through its approximations, where \<open>loop\<close> stands for the recursive call.
\<close>

section \<open>Results\<close>

definition io_failure :: "pinax_error \<Rightarrow> bool" where
  "io_failure e \<longleftrightarrow> (case e of Fatal (Io _ _) \<Rightarrow> True | _ \<Rightarrow> False)"

text \<open>A result that is one of the errors \<open>bad\<close>.\<close>

definition failed :: "('e \<Rightarrow> bool) \<Rightarrow> 'e + 'a \<Rightarrow> bool" where
  "failed bad r \<longleftrightarrow> (case r of Inl e \<Rightarrow> bad e | Inr _ \<Rightarrow> False)"

lemma failed_simps [simp]: "failed bad (Inl e) = bad e" "\<not> failed bad (Inr a)"
  by (simp_all add: failed_def)

lemma dbind_cases:
  assumes "dbind m f s = Some (r, t)"
  obtains (err) e where "m s = Some (Inl e, t)" "r = Inl e"
    | (ok) a s' where "m s = Some (Inr a, s')" "f a s' = Some (r, t)"
proof (cases "m s")
  case None
  with assms show thesis by (simp add: dbind_def)
next
  case (Some q)
  obtain x s' where q: "q = (x, s')" by fastforce
  show thesis using assms Some q that by (cases x) (auto simp: dbind_def)
qed

text \<open>One state transformer under a relation of the states.\<close>

definition ssim :: "('e \<Rightarrow> bool) \<Rightarrow> ('s \<Rightarrow> 's \<Rightarrow> bool) \<Rightarrow> ('s, 'e, 'a) smethod \<Rightarrow> bool" where
  "ssim bad R m \<longleftrightarrow> (\<forall>s t r s'. R s t \<longrightarrow> m s = (r, s') \<longrightarrow> (\<exists>t'. R s' t' \<and> (\<not> failed bad r \<longrightarrow> m t = (r, t'))))"

lemma ssimE:
  assumes "ssim bad R m" "R s t" "m s = (r, s')"
  obtains t' where "R s' t'" "\<not> failed bad r \<longrightarrow> m t = (r, t')"
  using assms unfolding ssim_def by blast

lemma ssim_spure: "ssim bad R (spure r)"
  by (auto simp: ssim_def spure_def)

lemma ssim_sbind:
  assumes "ssim bad R m" "\<And>a. ssim bad R (f a)"
  shows "ssim bad R (sbind m f)"
  unfolding ssim_def
proof (intro allI impI)
  fix s t r s'
  assume R: "R s t" and r: "sbind m f s = (r, s')"
  show "\<exists>t'. R s' t' \<and> (\<not> failed bad r \<longrightarrow> sbind m f t = (r, t'))"
    using r
  proof (cases rule: sbind_cases)
    case (err e)
    obtain t' where "R s' t'" "\<not> bad e \<longrightarrow> m t = (Inl e, t')" by (rule ssimE [OF assms(1) R err(1)]) simp
    then show ?thesis using err(2) by (intro exI [of _ t']) (auto simp: sbind_def)
  next
    case (ok a s1)
    obtain t1 where t1: "R s1 t1" "m t = (Inr a, t1)" by (rule ssimE [OF assms(1) R ok(1)]) simp
    obtain t' where "R s' t'" "\<not> failed bad r \<longrightarrow> f a t1 = (r, t')" by (rule ssimE [OF assms(2) t1(1) ok(2)])
    then show ?thesis using t1(2) by (intro exI [of _ t']) (simp add: sbind_ok)
  qed
qed

section \<open>Comparing runs\<close>

locale comparison =
  fixes bad :: "pinax_error \<Rightarrow> bool"
    and R :: "nat \<Rightarrow> pool \<Rightarrow> pool \<Rightarrow> bool"
  assumes same_size: "R n p q \<Longrightarrow> pool_page_size q = pool_page_size p"
    and same_root: "R n p q \<Longrightarrow> pool_root_page_id q = pool_root_page_id p"
    and fewer: "R (n + k) p q \<Longrightarrow> R n p q"
    and sane: "R n p q \<Longrightarrow> R n q q"
begin

definition follows :: "nat \<Rightarrow> 'a pmethod \<Rightarrow> bool" where
  "follows k m \<longleftrightarrow> (\<forall>n p q r p'. R (n + k) p q \<longrightarrow> m p = (r, p') \<longrightarrow>
     (\<exists>q'. R n p' q' \<and> (\<not> failed bad r \<longrightarrow> m q = (r, q'))))"

definition sim :: "nat \<Rightarrow> 'a pdmethod \<Rightarrow> 'a pdmethod \<Rightarrow> bool" where
  "sim k m m' \<longleftrightarrow> (\<forall>n p q r p'. R (n + k) p q \<longrightarrow> m p = Some (r, p') \<longrightarrow>
     (\<exists>q'. R n p' q' \<and> (\<not> failed bad r \<longrightarrow> m' q = Some (r, q'))))"

definition ret :: "nat \<Rightarrow> 'a pdmethod \<Rightarrow> 'a pdmethod \<Rightarrow> bool" where
  "ret k m m' \<longleftrightarrow> (\<forall>n p q y. R (n + k) p q \<longrightarrow> m q = Some y \<longrightarrow>
     (\<exists>r p' q'. m' p = Some (r, p') \<and> R n p' q' \<and> (\<not> failed bad r \<longrightarrow> y = (r, q'))))"

definition like :: "nat \<Rightarrow> 'a pdmethod \<Rightarrow> 'a pdmethod \<Rightarrow> bool" where
  "like k m m' \<longleftrightarrow> sim k m m' \<and> ret k m m'"

abbreviation tracks :: "nat \<Rightarrow> 'a pdmethod \<Rightarrow> bool" where
  "tracks k m \<equiv> like k m m"

lemma simI:
  "(\<And>n p q r p'. R (n + k) p q \<Longrightarrow> m p = Some (r, p') \<Longrightarrow> \<exists>q'. R n p' q' \<and> (\<not> failed bad r \<longrightarrow> m' q = Some (r, q'))) \<Longrightarrow>
     sim k m m'"
  unfolding sim_def by blast

lemma simE:
  assumes "sim k m m'" "R (n + k) p q" "m p = Some (r, p')"
  obtains q' where "R n p' q'" "\<not> failed bad r \<longrightarrow> m' q = Some (r, q')"
  using assms unfolding sim_def by blast

lemma retI:
  "(\<And>n p q y. R (n + k) p q \<Longrightarrow> m q = Some y \<Longrightarrow>
     \<exists>r p' q'. m' p = Some (r, p') \<and> R n p' q' \<and> (\<not> failed bad r \<longrightarrow> y = (r, q'))) \<Longrightarrow> ret k m m'"
  unfolding ret_def by blast

lemma retE:
  assumes "ret k m m'" "R (n + k) p q" "m q = Some y"
  obtains r p' q' where "m' p = Some (r, p')" "R n p' q'" "\<not> failed bad r \<longrightarrow> y = (r, q')"
  using assms unfolding ret_def by blast

lemma tracksE:
  assumes "tracks k m" "R (n + k) p q" "m p = Some (r, p')"
  obtains q' where "R n p' q'" "\<not> failed bad r \<longrightarrow> m q = Some (r, q')"
  using assms unfolding like_def by (blast elim: simE)

lemma sim_dpure: "sim k (dpure r) (dpure r)"
  and ret_dpure: "ret k (dpure r) (dpure r)"
  using fewer unfolding sim_def ret_def dpure_def by blast+

lemma sim_dlift: "follows k m \<Longrightarrow> sim k (dlift m) (dlift m)"
  by (simp add: sim_def dlift_def follows_def)

lemma ret_dlift:
  assumes "follows k m"
  shows "ret k (dlift m) (dlift m)"
proof (rule retI)
  fix n p q y
  assume R: "R (n + k) p q" and y: "dlift m q = Some y"
  obtain r p' where m: "m p = (r, p')" by fastforce
  with assms R obtain q' where "R n p' q'" "\<not> failed bad r \<longrightarrow> m q = (r, q')" unfolding follows_def by blast
  then show "\<exists>r p' q'. dlift m p = Some (r, p') \<and> R n p' q' \<and> (\<not> failed bad r \<longrightarrow> y = (r, q'))"
    using m y by (intro exI [of _ r] exI [of _ p'] exI [of _ q']) (auto simp: dlift_def)
qed

text \<open>What is known of a result.\<close>

definition yields :: "('a \<Rightarrow> bool) \<Rightarrow> 'a pdmethod \<Rightarrow> bool" where
  "yields Q m \<longleftrightarrow> (\<forall>n p q a p'. R n p q \<longrightarrow> m p = Some (Inr a, p') \<longrightarrow> Q a)"

lemma yieldsD: "yields Q m \<Longrightarrow> R n p q \<Longrightarrow> m p = Some (Inr a, p') \<Longrightarrow> Q a"
  and yieldsD': "yields Q m \<Longrightarrow> R n p q \<Longrightarrow> m q = Some (Inr a, p') \<Longrightarrow> Q a"
  using sane unfolding yields_def by blast+

lemma yields_any: "yields (\<lambda>_. True) m"
  and yields_dpure: "yields (\<lambda>a. r = Inr a) (dpure r)"
  and yields_Inr: "Q a \<Longrightarrow> yields Q (dpure (Inr a))"
  and yields_Inl: "yields Q (dpure (Inl e))"
  by (simp_all add: yields_def dpure_def)

lemma sim_then:
  assumes "sim k m m'" "yields Q m" "\<And>a. Q a \<Longrightarrow> sim j (f a) (f' a)"
  shows "sim (k + j) (dbind m f) (dbind m' f')"
proof (rule simI)
  fix n p q r p'
  assume "R (n + (k + j)) p q" and r: "dbind m f p = Some (r, p')"
  then have R: "R ((n + j) + k) p q" by (simp add: ac_simps)
  show "\<exists>q'. R n p' q' \<and> (\<not> failed bad r \<longrightarrow> dbind m' f' q = Some (r, q'))"
    using r
  proof (cases rule: dbind_cases)
    case (err e)
    obtain q' where "R (n + j) p' q'" "\<not> failed bad (Inl e :: 'a presult) \<longrightarrow> m' q = Some (Inl e, q')"
      by (rule simE [OF assms(1) R err(1)])
    then show ?thesis using err(2) fewer by (intro exI [of _ q']) (auto simp: dbind_err)
  next
    case (ok a p1)
    obtain q1 where q1: "R (n + j) p1 q1" "m' q = Some (Inr a, q1)" by (rule simE [OF assms(1) R ok(1)]) simp
    have "Q a" by (rule yieldsD [OF assms(2) R ok(1)])
    obtain q' where "R n p' q'" "\<not> failed bad r \<longrightarrow> f' a q1 = Some (r, q')"
      by (rule simE [OF assms(3) [OF \<open>Q a\<close>] q1(1) ok(2)])
    then show ?thesis using q1(2) by (intro exI [of _ q']) (simp add: dbind_ok)
  qed
qed

lemma ret_then:
  assumes "ret k m m'" "yields Q m" "\<And>a. Q a \<Longrightarrow> ret j (f a) (f' a)"
  shows "ret (k + j) (dbind m f) (dbind m' f')"
proof (rule retI)
  fix n p q y
  assume "R (n + (k + j)) p q" and y: "dbind m f q = Some y"
  then have R: "R ((n + j) + k) p q" by (simp add: ac_simps)
  obtain x where x: "m q = Some x" using y by (cases "m q") (simp_all add: dbind_def)
  obtain r p1 q1 where 1: "m' p = Some (r, p1)" "R (n + j) p1 q1" "\<not> failed bad r \<longrightarrow> x = (r, q1)" by (rule retE [OF assms(1) R x])
  show "\<exists>r p' q'. dbind m' f' p = Some (r, p') \<and> R n p' q' \<and> (\<not> failed bad r \<longrightarrow> y = (r, q'))"
  proof (cases r)
    case (Inl e)
    then have "\<not> bad e \<longrightarrow> y = (Inl e, q1)" using y x 1(3) by (auto simp: dbind_err)
    then show ?thesis using 1(1) fewer [OF 1(2)] Inl
      by (intro exI [of _ "Inl e"] exI [of _ p1] exI [of _ q1]) (simp add: dbind_err)
  next
    case (Inr a)
    then have x': "m q = Some (Inr a, q1)" and f: "f a q1 = Some y" using y x 1(3) by (simp_all add: dbind_ok)
    have "Q a" by (rule yieldsD' [OF assms(2) R x'])
    obtain r2 p2 q2 where "f' a p1 = Some (r2, p2)" "R n p2 q2" "\<not> failed bad r2 \<longrightarrow> y = (r2, q2)"
      by (rule retE [OF assms(3) [OF \<open>Q a\<close>] 1(2) f])
    then show ?thesis using 1(1) Inr by (intro exI [of _ r2] exI [of _ p2] exI [of _ q2]) (simp add: dbind_ok)
  qed
qed

lemma like_then:
  assumes "like k m m'" "yields Q m" "\<And>a. Q a \<Longrightarrow> like j (f a) (f' a)"
  shows "like (k + j) (dbind m f) (dbind m' f')"
proof -
  have "sim (k + j) (dbind m f) (dbind m' f')"
    using assms by (intro sim_then [where Q = Q]) (simp_all add: like_def)
  moreover have "ret (k + j) (dbind m f) (dbind m' f')"
    using assms by (intro ret_then [where Q = Q]) (simp_all add: like_def)
  ultimately show ?thesis by (simp add: like_def)
qed

lemma like_dpure: "like k (dpure r) (dpure r)"
  and like_dlift: "follows k m \<Longrightarrow> like k (dlift m) (dlift m)"
  by (simp_all add: like_def sim_dpure ret_dpure sim_dlift ret_dlift)

lemma like_dbind: "like k m m' \<Longrightarrow> (\<And>a. like j (f a) (f' a)) \<Longrightarrow> like (k + j) (dbind m f) (dbind m' f')"
  by (rule like_then [OF _ yields_any])

lemma like_read: "like 0 m m' \<Longrightarrow> (\<And>a. like k (f a) (f' a)) \<Longrightarrow> like k (dbind m f) (dbind m' f')"
  using like_dbind [of 0 m m' k f f'] by simp

lemma like_pure_then: "(\<And>a. r = Inr a \<Longrightarrow> like k (f a) (f' a)) \<Longrightarrow> like k (dbind (dpure r) f) (dbind (dpure r) f')"
  using like_then [OF like_dpure yields_dpure, of r k f f' 0] by simp

lemma like_le:
  assumes "like k m m'" "k \<le> j"
  shows "like j m m'"
proof -
  have "R (n + k) p q" if "R (n + j) p q" for n p q
    using fewer [of "n + k" "j - k"] that assms(2) by simp
  then show ?thesis using assms(1) unfolding like_def sim_def ret_def by blast
qed

lemma yields_dbind:
  assumes "tracks 0 m" "yields P m" "\<And>a. P a \<Longrightarrow> yields Q (f a)"
  shows "yields Q (dbind m f)"
  unfolding yields_def
proof (intro allI impI)
  fix n p q b p'
  assume R: "R n p q" and r: "dbind m f p = Some (Inr b, p')"
  from r show "Q b"
  proof (cases rule: dbind_cases)
    case (ok a p1)
    from assms(1) R ok(1) obtain q1 where "R n p1 q1" by (auto elim: tracksE [of 0 m n])
    moreover have "yields Q (f a)" using assms(3) yieldsD [OF assms(2) R ok(1)] .
    ultimately show ?thesis using ok(2) by (blast intro: yieldsD)
  qed simp
qed

lemmas yields_read = yields_dbind [OF _ yields_any]

text \<open>Methods that are, at every pool, methods that are alike.\<close>

lemma like_at:
  assumes "\<And>n p q. R (n + k) p q \<Longrightarrow> \<exists>m m'. like k m m' \<and> f p = m p \<and> f q = m q \<and> f' p = m' p \<and> f' q = m' q"
  shows "like k f f'"
proof -
  have "sim k f f'"
  proof (rule simI)
    fix n p q r p'
    assume R: "R (n + k) p q" and r: "f p = Some (r, p')"
    from assms [OF R] obtain m m' where m: "like k m m'" "f p = m p" "f' q = m' q" by blast
    then have "sim k m m'" "m p = Some (r, p')" using r by (simp_all add: like_def)
    from simE [OF this(1) R this(2)] show "\<exists>q'. R n p' q' \<and> (\<not> failed bad r \<longrightarrow> f' q = Some (r, q'))"
      unfolding m(3) by blast
  qed
  moreover have "ret k f f'"
  proof (rule retI)
    fix n p q y
    assume R: "R (n + k) p q" and y: "f q = Some y"
    from assms [OF R] obtain m m' where m: "like k m m'" "f q = m q" "f' p = m' p" by blast
    then have "ret k m m'" "m q = Some y" using y by (simp_all add: like_def)
    from retE [OF this(1) R this(2)] show "\<exists>r p' q'. f' p = Some (r, p') \<and> R n p' q' \<and> (\<not> failed bad r \<longrightarrow> y = (r, q'))"
      unfolding m(3) by blast
  qed
  ultimately show ?thesis by (simp add: like_def)
qed

text \<open>Methods that look at the page size and the root first.\<close>

lemma like_root:
  assumes "\<And>ps root. like k (m ps root) (m' ps root)"
  shows "like k (\<lambda>p. m (pool_page_size p) (pool_root_page_id p) p) (\<lambda>p. m' (pool_page_size p) (pool_root_page_id p) p)"
proof (rule like_at)
  fix n p q
  assume "R (n + k) p q"
  then show "\<exists>l l'. like k l l' \<and> m (pool_page_size p) (pool_root_page_id p) p = l p \<and>
      m (pool_page_size q) (pool_root_page_id q) q = l q \<and> m' (pool_page_size p) (pool_root_page_id p) p = l' p \<and>
      m' (pool_page_size q) (pool_root_page_id q) q = l' q"
    by (intro exI [of _ "m (pool_page_size p) (pool_root_page_id p)"] exI [of _ "m' (pool_page_size p) (pool_root_page_id p)"])
      (simp add: assms same_size same_root)
qed

lemma like_page_size:
  "(\<And>ps. like k (m ps) (m' ps)) \<Longrightarrow> like k (\<lambda>p. m (pool_page_size p) p) (\<lambda>p. m' (pool_page_size p) p)"
  by (rule like_root)

lemma like_cases:
  "like k m m1 \<Longrightarrow> like k m' m1' \<Longrightarrow> like k (if x then m else m') (if x then m1 else m1')"
  "(\<And>a b. like k (g a b) (g' a b)) \<Longrightarrow> like k (case z of (a, b) \<Rightarrow> g a b) (case z of (a, b) \<Rightarrow> g' a b)"
  "(\<And>a. like k (h a) (h' a)) \<Longrightarrow> (\<And>b. like k (l b) (l' b)) \<Longrightarrow>
     like k (case y of Inl a \<Rightarrow> h a | Inr b \<Rightarrow> l b) (case y of Inl a \<Rightarrow> h' a | Inr b \<Rightarrow> l' b)"
  "like k m m' \<Longrightarrow> (\<And>a. like k (o' a) (o1 a)) \<Longrightarrow>
     like k (case u of None \<Rightarrow> m | Some a \<Rightarrow> o' a) (case u of None \<Rightarrow> m' | Some a \<Rightarrow> o1 a)"
  by (simp_all split: prod.split sum.split option.split)

lemma like_if_fun: "like k m m1 \<Longrightarrow> like k m' m1' \<Longrightarrow> like k (\<lambda>p. if x then m p else m' p) (\<lambda>p. if x then m1 p else m1' p)"
  by (cases x) simp_all

lemma tracks_eq: "tracks k m' \<Longrightarrow> (\<And>p. m p = m' p) \<Longrightarrow> tracks k m"
  by (simp add: like_def sim_def ret_def)

text \<open>A \<open>for\<close> loop whose steps are alike.\<close>

lemma like_dfold:
  assumes "\<And>acc x. like 0 (f acc x) (g acc x)"
  shows "like 0 (dfold f acc xs) (dfold g acc xs)"
proof (induction xs arbitrary: acc)
  case (Cons x xs)
  have "like 0 (dbind (f acc x) (\<lambda>acc. dfold f acc xs)) (dbind (g acc x) (\<lambda>acc. dfold g acc xs))"
    by (intro like_read assms Cons)
  then show ?case by (simp add: like_def sim_def ret_def)
next
  case Nil
  show ?case using like_dpure [of 0 "Inr acc"] by (simp add: like_def sim_def ret_def dpure_def)
qed

text \<open>What a loop \<open>g\<close> does, next to one of its approximations that ends in \<open>y\<close>.\<close>

definition likes :: "'a pdmethod \<Rightarrow> pool \<Rightarrow> 'a presult \<times> pool \<Rightarrow> bool" where
  "likes g p y \<longleftrightarrow>
     (\<forall>n q. R n p q \<longrightarrow> (\<exists>q'. R n (snd y) q' \<and> (\<not> failed bad (fst y) \<longrightarrow> g q = Some (fst y, q')))) \<and>
     (\<forall>n q. R n q p \<longrightarrow> (\<exists>r q' p'. g q = Some (r, q') \<and> R n q' p' \<and> (\<not> failed bad r \<longrightarrow> y = (r, p'))))"

lemma like_loop:
  assumes "like 0 m m'" "m p = Some y" "\<And>q. g q = m' q"
  shows "likes g p y"
proof -
  have "g = m'" using assms(3) by blast
  then have s: "sim 0 m g" and r: "ret 0 m g" using assms(1) by (simp_all add: like_def)
  obtain x p' where y: "y = (x, p')" by fastforce
  show ?thesis unfolding likes_def
    using s r assms(2) unfolding sim_def ret_def y fst_conv snd_conv add_0_right by blast
qed

lemma likes_like: "(\<And>p y. m p = Some y \<Longrightarrow> likes g p y) \<Longrightarrow> like 0 m g"
  unfolding like_def sim_def ret_def likes_def add_0_right by fastforce

end

section \<open>The loops that read\<close>

locale reading = comparison bad R for bad and R +
  fixes xxh :: "bytes \<Rightarrow> u64"
  assumes get_law: "follows 0 (pool_get xxh pid)"
begin

lemma like_get: "like 0 (dlift (pool_get xxh pid)) (dlift (pool_get xxh pid))"
  by (rule like_dlift [OF get_law])

lemmas like_rules = like_read like_dpure like_get like_cases like_if_fun

lemma tracks_descend: "tracks 0 (descend_loop xxh key path current)"
proof -
  have "likes (descend_loop h key path current) p y"
    if "descend_loop h key path current p = Some y" "h = xxh" for h p y
    using that
  proof (induction rule: descend_loop.raw_induct [rotated, consumes 1, case_names step])
    case (step loop h key path current p y)
    let ?body = "\<lambda>loop. dbind (dlift (pool_get h current)) (\<lambda>buf.
       dbind (dpure (read_u8 buf 0)) (\<lambda>page_type p.
         if page_type = PAGE_TYPE_LEAF then dpure (Inr path) p
         else
           dbind (dpure (expect_page_type current buf PAGE_TYPE_INTERIOR ''interior'')) (\<lambda>_.
           dbind (dpure (interior_find_child_for_key buf key)) (\<lambda>child.
             loop h key (path @ [child]) child)) p))"
    have "like 0 (loop h key path current) (descend_loop h key path current)" for path current
      using step(1,3) by (blast intro: likes_like)
    then have "like 0 (?body loop) (?body descend_loop)" unfolding step(3) by (intro like_rules)
    from like_loop [OF this step(2) descend_loop.simps] show ?case .
  qed
  then show ?thesis by (blast intro: likes_like)
qed

lemma tracks_descend_path: "tracks 0 (descend_path xxh root key)"
  unfolding descend_path_def by (rule tracks_descend)

lemma tracks_read_chain: "tracks 0 (read_chain_loop xxh total_len current out)"
proof -
  have "likes (read_chain_loop h total_len current out) p y"
    if "read_chain_loop h total_len current out p = Some y" "h = xxh" for h p y
    using that
  proof (induction rule: read_chain_loop.raw_induct [rotated, consumes 1, case_names step])
    case (step loop h total_len current out p y)
    let ?next = "\<lambda>loop buf next_id ps. dbind (dpure (read_vec buf OVERFLOW_HEADER_LEN
        (min (total_len - length out) (overflow_chunk_cap (page_bytes ps))))) (\<lambda>chunk.
           loop h total_len next_id (out @ chunk))"
    let ?body = "\<lambda>loop p. if current \<noteq> 0 \<and> length out < total_len
        then dbind (dlift (pool_get h current)) (\<lambda>buf.
          dbind (dpure (expect_page_type current buf PAGE_TYPE_OVERFLOW ''overflow'')) (\<lambda>_.
          dbind (dpure (read_u32 buf 1)) (\<lambda>next_id p. ?next loop buf next_id (pool_page_size p) p))) p
        else dpure (Inr out) p"
    have l: "like 0 (loop h total_len current out) (read_chain_loop h total_len current out)" for current out
      using step(1,3) by (blast intro: likes_like)
    have "like 0 (\<lambda>p. ?next loop buf next_id (pool_page_size p) p) (\<lambda>p. ?next read_chain_loop buf next_id (pool_page_size p) p)"
      for buf next_id by (rule like_page_size, intro like_rules l)
    then have "like 0 (?body loop) (?body read_chain_loop)" unfolding step(3) by (intro like_rules)
    moreover have "read_chain_loop h total_len current out q = ?body read_chain_loop q" for q
      by (subst read_chain_loop.simps) (simp add: dpure_def)
    ultimately show ?case using step(2) unfolding Let_def dpure_def by (blast intro: like_loop)
  qed
  then show ?thesis by (blast intro: likes_like)
qed

lemma tracks_reassemble: "tracks 0 (reassemble xxh cell)"
proof -
  have "tracks 0 (\<lambda>p. if lc_overflow_first cell = 0 then dpure (Inr (lc_local cell)) p
      else dbind (read_overflow_chain xxh (lc_overflow_first cell)
        (unat (saturating_sub (lc_payload_len cell) (max_local (pool_page_size p))))) (\<lambda>tail. dpure (Inr (lc_local cell @ tail))) p)"
    unfolding read_overflow_chain_def
    by (intro like_if_fun like_dpure, rule like_page_size, intro like_rules tracks_read_chain)
  then show ?thesis unfolding reassemble_def [abs_def] Let_def dpure_def .
qed

lemma tracks_find_key: "tracks 0 (find_key xxh key)"
proof -
  let ?f = "\<lambda>root. if root = EMPTY_TREE_ROOT then dpure (Inl (Permanent (KeyNotFound key)))
    else dbind (descend_path xxh root key) (\<lambda>path.
        dbind (dpure (path_leaf path)) (\<lambda>leaf_id.
        dbind (dlift (pool_get xxh leaf_id)) (\<lambda>leaf_buf.
        dbind (dpure (leaf_search leaf_buf key)) (\<lambda>found.
        dbind (dpure (case found of Inr idx \<Rightarrow> Inr idx | Inl _ \<Rightarrow> Inl (Permanent (KeyNotFound key)))) (\<lambda>idx.
          dpure (Inr (path, leaf_id, leaf_buf, idx)))))))"
  have "tracks 0 (?f root)" for root by (intro like_rules tracks_descend_path)
  then have "tracks 0 (\<lambda>p. ?f (pool_root_page_id p) p)" by (rule like_root)
  moreover have "find_key xxh key p = ?f (pool_root_page_id p) p" for p by (simp add: find_key_def dpure_def)
  ultimately show ?thesis by (rule tracks_eq)
qed

lemma tracks_get_loop: "tracks 0 (get_loop xxh key max_loc current)"
proof -
  let ?found = "\<lambda>buf max_loc found. case found of
      Inl (_ :: nat) \<Rightarrow> dpure (Inr None)
    | Inr idx \<Rightarrow>
       dbind (dpure (leaf_cell_at buf idx max_loc)) (\<lambda>cell.
       dbind (reassemble xxh cell) (\<lambda>full.
       dbind (dpure (row_decode full)) (\<lambda>row.
         dpure (Inr (Some row)))))"
  have found: "tracks 0 (?found buf max_loc found)" for buf max_loc found
    by (intro like_rules tracks_reassemble)
  have "likes (get_loop h key max_loc current) p y"
    if "get_loop h key max_loc current p = Some y" "h = xxh" for h p y
    using that
  proof (induction rule: get_loop.raw_induct [rotated, consumes 1, case_names step])
    case (step loop h key max_loc current p y)
    let ?body = "\<lambda>loop. dbind (dlift (pool_get xxh current)) (\<lambda>buf.
       dbind (dpure (read_u8 buf 0)) (\<lambda>page_type p.
         if page_type = PAGE_TYPE_LEAF then dbind (dpure (leaf_search buf key)) (?found buf max_loc) p
         else
           dbind (dpure (expect_page_type current buf PAGE_TYPE_INTERIOR ''interior'')) (\<lambda>_.
           dbind (dpure (interior_find_child_for_key buf key)) (\<lambda>child. loop xxh key max_loc child)) p))"
    have l: "like 0 (loop xxh key max_loc current) (get_loop xxh key max_loc current)" for current
      using step(1,3) by (blast intro: likes_like)
    have "like 0 (?body loop) (?body get_loop)" by (intro like_read like_if_fun like_dpure like_get found l)
    moreover have "get_loop xxh key max_loc current q = ?body get_loop q" for q by (rule get_loop.simps)
    moreover have "?body loop p = Some y" using step(2) unfolding step(3) .
    ultimately show ?case unfolding step(3) by (blast intro: like_loop)
  qed
  then show ?thesis by (blast intro: likes_like)
qed

lemma tracks_scan_cell: "tracks 0 (scan_cell xxh buf max_loc out i)"
  unfolding scan_cell_def by (intro like_rules tracks_reassemble)

lemma tracks_scan_node: "tracks 0 (scan_node xxh pid out)"
proof -
  let ?leaf = "\<lambda>buf out. dbind (dpure (num_cells buf)) (\<lambda>n p.
    dfold (scan_cell xxh buf (max_local (pool_page_size p))) out [0..<unat n] p)"
  have "tracks 0 (\<lambda>p. dfold (scan_cell xxh buf (max_local (pool_page_size p))) out [0..<n] p)" for buf out n
    by (rule like_page_size, intro like_dfold tracks_scan_cell)
  then have leaf: "tracks 0 (?leaf buf out)" for buf out by (intro like_rules)
  have leaf_eq: "dbind (dpure (num_cells buf)) (\<lambda>n. dfold (scan_cell xxh buf (max_local (pool_page_size p))) out [0..<unat n]) p =
      ?leaf buf out p" for buf out p
    by (simp add: dbind_def dpure_def split: sum.split)
  have "likes (scan_node h pid out) p y" if "scan_node h pid out p = Some y" "h = xxh" for h p y
    using that
  proof (induction rule: scan_node.raw_induct [rotated, consumes 1, case_names step])
    case (step loop h pid out p y)
    let ?body = "\<lambda>loop. dbind (dlift (pool_get xxh pid)) (\<lambda>buf.
       dbind (dpure (read_u8 buf 0)) (\<lambda>page_type p.
         if page_type = PAGE_TYPE_LEAF then ?leaf buf out p
         else
           dbind (dpure (expect_page_type pid buf PAGE_TYPE_INTERIOR ''interior'')) (\<lambda>_.
           dbind (dpure (interior_entries buf)) (\<lambda>(_, children).
             dfold (\<lambda>out child. loop xxh child out) out children)) p))"
    have l: "like 0 (loop xxh pid out) (scan_node xxh pid out)" for pid out
      using step(1,3) by (blast intro: likes_like)
    have "like 0 (?body loop) (?body scan_node)"
      by (intro like_read like_if_fun like_dpure like_get leaf like_cases(2) like_dfold l)
    moreover have "scan_node xxh pid out q = ?body scan_node q" for q by (subst scan_node.simps) (simp only: leaf_eq)
    moreover have "?body loop p = Some y" using step(2) unfolding step(3) leaf_eq .
    ultimately show ?case unfolding step(3) by (blast intro: like_loop)
  qed
  then show ?thesis by (blast intro: likes_like)
qed

lemma tracks_btree_get: "tracks 0 (btree_get xxh key)"
proof -
  let ?f = "\<lambda>ps root. if root = EMPTY_TREE_ROOT then dpure (Inr None) else get_loop xxh key (max_local ps) root"
  have "tracks 0 (?f ps root)" for ps root by (intro like_rules tracks_get_loop)
  then have "tracks 0 (\<lambda>p. ?f (pool_page_size p) (pool_root_page_id p) p)" by (rule like_root)
  moreover have "btree_get xxh key p = ?f (pool_page_size p) (pool_root_page_id p) p" for p
    by (simp add: btree_get_def dpure_def)
  ultimately show ?thesis by (rule tracks_eq)
qed

lemma tracks_btree_scan: "tracks 0 (btree_scan xxh)"
proof -
  let ?f = "\<lambda>root. if root \<noteq> EMPTY_TREE_ROOT then scan_node xxh root [] else dpure (Inr [])"
  have "tracks 0 (?f root)" for root by (intro like_rules tracks_scan_node)
  then have "tracks 0 (\<lambda>p. ?f (pool_root_page_id p) p)" by (rule like_root)
  moreover have "btree_scan xxh p = ?f (pool_root_page_id p) p" for p by (simp add: btree_scan_def dpure_def)
  ultimately show ?thesis by (rule tracks_eq)
qed

end

end
