(* ===== verification/Compare_Writes.thy ===== *)
theory Compare_Writes
  imports Comparison
begin

text \<open>
  The operations of the tree that write, compared as in \<open>Comparison\<close>. The locale \<open>writing\<close>
  asks for the law of \<open>put_page\<close>: it takes one page id and needs a buffer of the length of a page,
  so the proofs follow the lengths of the buffers, and count the page ids.
\<close>

section \<open>Buffers keep their length\<close>

named_theorems keeps_length

lemma write_bytes_length [keeps_length]: "write_bytes buf at bs = Inr buf' \<Longrightarrow> length buf' = length buf"
  by (auto simp: write_bytes_def split: if_splits)

lemma write_u_length [keeps_length]:
  "write_u8 buf at v8 = Inr buf' \<Longrightarrow> length buf' = length buf"
  "write_u16 buf at v16 = Inr buf' \<Longrightarrow> length buf' = length buf"
  "write_u32 buf at v32 = Inr buf' \<Longrightarrow> length buf' = length buf"
  by (simp_all only: write_u8_def write_u16_def write_u32_def write_bytes_length)

lemma set_length [keeps_length]:
  "set_num_cells buf n = Inr buf' \<Longrightarrow> length buf' = length buf"
  "set_content_start buf n = Inr buf' \<Longrightarrow> length buf' = length buf"
  "set_pointer_at buf h i n = Inr buf' \<Longrightarrow> length buf' = length buf"
  "interior_set_rightmost buf c = Inr buf' \<Longrightarrow> length buf' = length buf"
  "interior_set_child_at buf i c = Inr buf' \<Longrightarrow> length buf' = length buf"
  by (auto simp: set_num_cells_def set_content_start_def set_pointer_at_def interior_set_rightmost_def
      interior_set_child_at_def rbind_eq_Inr dest: write_u_length)

lemma init_length [keeps_length]:
  "init_slotted buf ty = Inr buf' \<Longrightarrow> length buf' = length buf"
  "init_leaf buf = Inr buf' \<Longrightarrow> length buf' = length buf"
  "init_interior buf right = Inr buf' \<Longrightarrow> length buf' = length buf"
  by (auto simp: init_leaf_def init_interior_def init_slotted_def Let_def rbind_eq_Inr dest!: write_u_length)

lemma shift_length [keeps_length]:
  "shift_pointers_right h is buf = Inr buf' \<Longrightarrow> length buf' = length buf"
  "shift_pointers_left h is buf = Inr buf' \<Longrightarrow> length buf' = length buf"
  by (induction "is" arbitrary: buf) (auto simp: rbind_eq_Inr dest!: set_length)

lemma cell_length [keeps_length]:
  "insert_cell_at buf h i cell = Inr buf' \<Longrightarrow> length buf' = length buf"
  "remove_cell_at buf h i = Inr (off, buf') \<Longrightarrow> length buf' = length buf"
  by (auto simp: insert_cell_at_def remove_cell_at_def Let_def rbind_eq_Inr
      dest!: write_bytes_length shift_length set_length)

lemma replace_child_length [keeps_length]: "replace_child buf old new = Inr buf' \<Longrightarrow> length buf' = length buf"
  unfolding replace_child_def rbind_eq_Inr by (elim exE conjE, split child_slot.split_asm) (auto dest: set_length)

lemma insert_cells_length [keeps_length]:
  "insert_interior_cells children i keys buf = Inr buf' \<Longrightarrow> length buf' = length buf"
  "insert_leaf_cells i cells buf = Inr buf' \<Longrightarrow> length buf' = length buf"
  by (induction keys arbitrary: i buf, auto simp: rbind_eq_Inr dest!: cell_length)
    (induction cells arbitrary: i buf, auto simp: rbind_eq_Inr dest!: cell_length)

lemma built_length [keeps_length]:
  "build_interior_page n keys children = Inr buf \<Longrightarrow> length buf = n"
  "build_leaf_page n cells = Inr buf \<Longrightarrow> length buf = n"
  "overflow_page n next_id chunk = Inr buf \<Longrightarrow> length buf = n"
  by (auto simp: build_interior_page_def build_leaf_page_def overflow_page_def Let_def rbind_eq_Inr dest!: keeps_length)

section \<open>New pages\<close>

lemma dlift_bind: "dlift (sbind m f) = dbind (dlift m) (\<lambda>a. dlift (f a))"
  and dlift_spure: "dlift (spure r) = dpure r"
  by (auto simp: fun_eq_iff dlift_def sbind_def dbind_def spure_def dpure_def split: prod.split sum.split)

lemma link_chunks_Cons:
  "link_chunks xxh (c # cs) next_id =
     (\<lambda>p. sbind (spure (overflow_page (bytes_usize (pool_page_size p)) next_id c)) (\<lambda>buf.
        sbind (put_page xxh buf) (link_chunks xxh cs)) p)"
  by (rule ext) (auto simp: put_page_def sbind_def spure_def split: sum.split prod.split)

locale writing = reading bad R xxh for bad and R and xxh :: "bytes \<Rightarrow> u64" +
  fixes ps :: page_size
  assumes one_size: "R n p q \<Longrightarrow> pool_page_size p = ps \<and> valid_page_size (page_bytes ps)"
    and get_length: "R n p q \<Longrightarrow> pool_get xxh pid p = (Inr buf, p') \<Longrightarrow> length buf = bytes_usize ps"
    and put_law: "length buf = bytes_usize ps \<Longrightarrow> follows 1 (put_page xxh buf)"
begin

lemma yields_get: "yields (\<lambda>buf. length buf = bytes_usize ps) (dlift (pool_get xxh pid))"
  using get_length by (auto simp: yields_def dlift_def)

lemma tracks_get_then:
  "(\<And>buf. length buf = bytes_usize ps \<Longrightarrow> tracks k (f buf)) \<Longrightarrow> tracks k (dbind (dlift (pool_get xxh pid)) f)"
  using like_then [OF like_get yields_get, of k f f pid] by simp

lemma tracks_put: "length buf = bytes_usize ps \<Longrightarrow> tracks 1 (dlift (put_page xxh buf))"
  by (rule like_dlift [OF put_law])

lemma tracks_put_then:
  "length buf = bytes_usize ps \<Longrightarrow> (\<And>pid. tracks k (f pid)) \<Longrightarrow> tracks (Suc k) (dbind (dlift (put_page xxh buf)) f)"
  using like_dbind [OF tracks_put, of buf k f f] by simp

lemma tracks_page_size:
  assumes "valid_page_size (page_bytes ps) \<Longrightarrow> tracks k (m ps)"
  shows "tracks k (\<lambda>p. m (pool_page_size p) p)"
proof (rule like_at)
  fix n p q
  assume R: "R (n + k) p q"
  then show "\<exists>l l'. like k l l' \<and> m (pool_page_size p) p = l p \<and> m (pool_page_size q) q = l q \<and>
      m (pool_page_size p) p = l' p \<and> m (pool_page_size q) q = l' q"
    using one_size [OF R] one_size [OF sane [OF R]] assms by (intro exI [of _ "m ps"]) simp
qed

lemmas write_rules = tracks_put_then like_pure_then tracks_get_then like_dpure like_get
lemmas dlift_rules = dlift_bind dlift_spure

section \<open>The way up\<close>

lemma dlift_page_size: "dlift (\<lambda>p. m (pool_page_size p) p) = (\<lambda>p. dlift (m (pool_page_size p)) p)"
  by (simp add: fun_eq_iff dlift_def)

lemma tracks_dlift_page_size:
  "(valid_page_size (page_bytes ps) \<Longrightarrow> tracks k (dlift (m ps))) \<Longrightarrow> tracks k (dlift (\<lambda>p. m (pool_page_size p) p))"
  unfolding dlift_page_size by (rule tracks_page_size)

lemma tracks_link_chunks: "tracks (length chunks) (dlift (link_chunks xxh chunks next_id))"
proof (induction chunks arbitrary: next_id)
  case Nil
  have "dlift (link_chunks xxh [] next_id) = dpure (Inr next_id)" by (rule ext) (simp add: dlift_def dpure_def)
  then show ?case by (simp only: like_dpure list.size)
next
  case (Cons c cs)
  show ?case unfolding link_chunks_Cons length_Cons
    by (rule tracks_dlift_page_size, unfold dlift_rules, intro write_rules Cons)
      (auto dest: keeps_length)
qed

lemma tracks_leaf_split: "tracks 2 (dlift (leaf_split_with_new_cell xxh buf i c))"
  unfolding leaf_split_with_new_cell_def [abs_def] Let_def numeral_2_eq_2
  by (rule tracks_dlift_page_size, unfold dlift_rules, intro write_rules) (auto dest: keeps_length)

lemma tracks_leaf_insert_or_split:
  assumes "length buf = bytes_usize ps"
  shows "tracks 2 (dlift (leaf_insert_or_split xxh buf i c))"
proof -
  have if_lift: "dlift (if x then m else m') = (if x then dlift m else dlift m')" for x and m m' :: "node_result pmethod"
    by simp
  show ?thesis
    unfolding leaf_insert_or_split_def Let_def dlift_rules if_lift numeral_2_eq_2
    by (intro write_rules like_cases(1) tracks_leaf_split [unfolded numeral_2_eq_2]) (auto simp: assms dest: keeps_length)
qed

lemma tracks_split_interior: "tracks 2 (dlift (split_interior_entries xxh (bytes_usize ps) keys children))"
  unfolding split_interior_entries_def Let_def dlift_rules numeral_2_eq_2 by (intro write_rules) (auto dest: keeps_length)

lemma tracks_apply_result: "tracks 2 (dlift (apply_result_to_interior xxh ancestor old res))"
proof (cases res)
  case (Replaced new)
  show ?thesis
    unfolding apply_result_to_interior_def [abs_def] Replaced node_result.case Let_def dlift_rules numeral_2_eq_2
    by (intro write_rules) (auto dest: keeps_length)
next
  case (Split l r k)
  have if_lift: "dlift (if x then m else m') = (if x then dlift m else dlift m')" for x and m m' :: "node_result pmethod"
    by simp
  have prod_lift: "dlift (case x of (keys, children) \<Rightarrow> m keys children) = (case x of (keys, children) \<Rightarrow> dlift (m keys children))"
    for x and m :: "i64 list \<Rightarrow> u32 list \<Rightarrow> node_result pmethod"
    by (cases x) simp
  show ?thesis
    unfolding apply_result_to_interior_def [abs_def] Split node_result.case Let_def numeral_2_eq_2
    by (rule tracks_dlift_page_size, unfold dlift_rules if_lift prod_lift,
        intro write_rules like_cases(2) like_cases(1) tracks_split_interior [unfolded numeral_2_eq_2])
      (auto dest: keeps_length)
qed

lemma tracks_propagate: "tracks (2 * length ancestors) (dlift (propagate xxh ancestors old res))"
proof (induction ancestors arbitrary: old res)
  case Nil
  have "dlift (propagate xxh [] old res) = dpure (Inr res)" by (rule ext) (simp add: dlift_def dpure_def)
  then show ?case by (simp only: like_dpure list.size mult_0_right)
next
  case (Cons a as)
  have "dlift (propagate xxh (a # as) old res) =
      dbind (dlift (apply_result_to_interior xxh a old res)) (\<lambda>res. dlift (propagate xxh as a res))"
    by (rule ext) (simp add: dlift_bind [symmetric], simp add: dlift_def)
  moreover have "2 * length (a # as) = 2 + 2 * length as" by simp
  ultimately show ?case using like_dbind [OF tracks_apply_result Cons] by (simp only:)
qed

lemma tracks_finalize_root: "tracks 1 (dlift (finalize_root xxh res))"
proof (cases res)
  case (Replaced pid)
  have "dlift (finalize_root xxh res) = dpure (Inr pid)" by (rule ext) (simp add: dlift_def dpure_def finalize_root_def Replaced)
  then show ?thesis by (simp only: like_dpure)
next
  case (Split l r k)
  show ?thesis
    unfolding finalize_root_def [abs_def] Split node_result.case
    by (rule tracks_dlift_page_size, unfold dlift_rules, intro write_rules tracks_put) (auto dest!: keeps_length)
qed

lemma tracks_collapse_root: "tracks 0 (dlift (collapse_root_if_needed xxh root))"
  unfolding collapse_root_if_needed_def dlift_rules by (intro write_rules)

section \<open>Overflow chains\<close>

lemma tracks_write_chain: "tracks (length tail) (write_overflow_chain xxh tail)"
proof -
  have "tracks (length tail) (\<lambda>p. Option.bind (chunk_loop (overflow_chunk_cap (page_bytes ps)) tail 0 []) (\<lambda>r.
      dbind (dpure r) (\<lambda>chunks. dlift (link_chunks xxh (rev chunks) 0)) p))"
    if "valid_page_size (page_bytes ps)"
  proof -
    let ?cap = "overflow_chunk_cap (page_bytes ps)" and ?cs = "chunk_list (overflow_chunk_cap (page_bytes ps)) tail"
    have cap: "0 < ?cap" using overflow_chunk_cap_valid [OF that] by simp
    have "length (rev ?cs) \<le> length tail" using length_chunk_list [OF cap] by simp
    from like_le [OF tracks_link_chunks this]
    show ?thesis using chunk_loop_list [OF cap, of 0 tail "[]"] by (simp add: dbind_dpure_Inr [abs_def])
  qed
  then have "tracks (length tail) (\<lambda>p. if tail = [] then dpure (Inr 0) p
      else Option.bind (chunk_loop (overflow_chunk_cap (page_bytes (pool_page_size p))) tail 0 []) (\<lambda>r.
          dbind (dpure r) (\<lambda>chunks. dlift (link_chunks xxh (rev chunks) 0)) p))"
    by (intro like_if_fun like_dpure, rule tracks_page_size)
  then show ?thesis unfolding write_overflow_chain_def [abs_def] Let_def dpure_def .
qed

lemma tracks_spill: "tracks (length bs) (spill_if_needed xxh bs)"
proof -
  let ?f = "\<lambda>m. if length bs \<le> m then dpure (Inr (bs, 0))
    else case get_range bs 0 m of None \<Rightarrow> dpure (Inl (buffer_bounds 0 m (length bs)))
      | Some local \<Rightarrow> (case get_range bs m (length bs) of
            None \<Rightarrow> dpure (Inl (buffer_bounds m (length bs - m) (length bs)))
          | Some tail \<Rightarrow> dbind (write_overflow_chain xxh tail) (\<lambda>first. dpure (Inr (local, first))))"
  have w: "tracks (length bs) (dbind (write_overflow_chain xxh tail) (\<lambda>first. dpure (Inr (local, first))))"
    if "get_range bs m (length bs) = Some tail" for m local tail
  proof -
    have "length tail \<le> length bs" using that by (auto simp: get_range_def split: if_splits)
    then show ?thesis by (rule like_le [OF like_dbind [OF tracks_write_chain like_dpure [of 0], simplified]])
  qed
  have "tracks (length bs) (?f m)" for m
  proof (cases "get_range bs m (length bs)")
    case None
    then show ?thesis by (simp only: option.case) (intro like_cases(1) like_cases(4) like_dpure)
  next
    case (Some tail)
    then show ?thesis by (simp only: option.case) (intro like_cases(1) like_cases(4) like_dpure w)
  qed
  then have "tracks (length bs) (\<lambda>p. ?f (unat (max_local (pool_page_size p))) p)" by (rule like_page_size)
  moreover have "spill_if_needed xxh bs = (\<lambda>p. ?f (unat (max_local (pool_page_size p))) p)"
    by (rule ext) (simp add: spill_if_needed_def Let_def dpure_def split: option.split)
  ultimately show ?thesis by simp
qed

lemma tracks_build_row_cell: "tracks (length (row_bytes row)) (build_row_cell xxh key row)"
proof (cases "row_encode row key")
  case (Inl e)
  have "build_row_cell xxh key row = dpure (Inl e)"
    by (rule ext) (simp add: build_row_cell_def Inl dpure_def [of "Inl e"])
  then show ?thesis by (simp only: like_dpure)
next
  case (Inr bs)
  then have bs: "bs = row_bytes row" by (simp add: row_encode_Inr)
  have "tracks (length bs) (dbind (spill_if_needed xxh bs) (\<lambda>(local, overflow_first).
       dpure (Inr (build_leaf_cell key (u32_from (length bs) (- 1)) overflow_first local))))"
    by (rule like_dbind [OF tracks_spill, of 0, simplified]) (intro like_cases(2) like_dpure)
  moreover have "build_row_cell xxh key row = dbind (spill_if_needed xxh bs) (\<lambda>(local, overflow_first).
       dpure (Inr (build_leaf_cell key (u32_from (length bs) (- 1)) overflow_first local)))"
    by (rule ext) (simp add: build_row_cell_def Inr)
  ultimately show ?thesis by (simp add: bs)
qed

section \<open>Reading\<close>

lemmas yields_rules = yields_dbind [OF like_get yields_get] yields_read [OF like_dpure] yields_Inr yields_Inl

lemma yields_if: "yields Q m \<Longrightarrow> yields Q m' \<Longrightarrow> yields Q (if x then m else m')"
  by simp

lemma yields_find_key: "yields (\<lambda>(path, leaf_id, buf, idx). length buf = bytes_usize ps) (find_key xxh key)"
proof -
  let ?f = "\<lambda>root. if root = EMPTY_TREE_ROOT then dpure (Inl (Permanent (KeyNotFound key)))
    else dbind (descend_path xxh root key) (\<lambda>path.
        dbind (dpure (path_leaf path)) (\<lambda>leaf_id.
        dbind (dlift (pool_get xxh leaf_id)) (\<lambda>leaf_buf.
        dbind (dpure (leaf_search leaf_buf key)) (\<lambda>found.
        dbind (dpure (case found of Inr idx \<Rightarrow> Inr idx | Inl _ \<Rightarrow> Inl (Permanent (KeyNotFound key)))) (\<lambda>idx.
          dpure (Inr (path, leaf_id, leaf_buf, idx)))))))"
  let ?Q = "\<lambda>(path :: u32 list, leaf_id :: u32, buf, idx :: nat). length (buf :: bytes) = bytes_usize ps"
  have f: "yields ?Q (?f root)" for root
    unfolding descend_path_def by (intro yields_if yields_read [OF tracks_descend] yields_rules) simp
  have eq: "find_key xxh key p = ?f (pool_root_page_id p) p" for p by (simp add: find_key_def dpure_def)
  show ?thesis
    unfolding yields_def
  proof (intro allI impI)
    fix n p q a p'
    assume "R n p q" "find_key xxh key p = Some (Inr a, p')"
    then show "?Q a" using f [of "pool_root_page_id p"] unfolding yields_def eq by blast
  qed
qed

end

end
