(* ===== verification/Twins.thy ===== *)
theory Twins
  imports Compare_Writes
begin

text \<open>
  Two pools with the same cache over two pagers. \<open>P s t\<close> relates a pager \<open>s\<close> with some defect
  to a pager \<open>t\<close> without it. The locale \<open>twin_pagers\<close> asks what a page read and a page write
  make of the relation, and gives what the cache makes of it: the pools stay twins and the same
  pages are served, evicted and flushed, until a read ends in one of the errors \<open>bad\<close> or a write
  in one of the errors \<open>bad_write\<close>. The ids that may be written are those in \<open>W\<close>.
\<close>

text \<open>A method that is, at every pair of related states, a method that runs alike on both.\<close>

lemma ssim_at: "(\<And>s t. R s t \<Longrightarrow> \<exists>m. ssim bad R m \<and> f s = m s \<and> f t = m t) \<Longrightarrow> ssim bad R f"
proof -
  assume at: "\<And>s t. R s t \<Longrightarrow> \<exists>m. ssim bad R m \<and> f s = m s \<and> f t = m t"
  show ?thesis unfolding ssim_def
  proof (intro allI impI)
    fix s t r s'
    assume R: "R s t" and r: "f s = (r, s')"
    obtain m where "ssim bad R m" "f s = m s" "f t = m t" using at [OF R] by blast
    then show "\<exists>t'. R s' t' \<and> (\<not> failed bad r \<longrightarrow> f t = (r, t'))" using R r unfolding ssim_def by simp
  qed
qed

lemma ssimI:
  "(\<And>s t r s'. R s t \<Longrightarrow> m s = (r, s') \<Longrightarrow> \<exists>t'. R s' t' \<and> (\<not> failed bad r \<longrightarrow> m t = (r, t'))) \<Longrightarrow> ssim bad R m"
  unfolding ssim_def by blast

locale twin_pagers =
  fixes bad bad_write :: "pinax_error \<Rightarrow> bool"
    and xxh :: "bytes \<Rightarrow> u64"
    and P :: "pager \<Rightarrow> pager \<Rightarrow> bool"
    and W :: "u32 set"
  assumes read_law: "P s t \<Longrightarrow> read_data_page xxh pid s = (r, s') \<Longrightarrow> read_data_page xxh pid t = (r0, t') \<Longrightarrow>
      P s' t' \<and> (failed bad r \<or> r0 = r)"
    and write_law: "P s t \<Longrightarrow> pid \<in> W \<Longrightarrow> write_data_page xxh pid buf s = ((r', buf'), s') \<Longrightarrow>
      \<exists>t'. P s' t' \<and> (failed bad_write r' \<or> write_data_page xxh pid buf t = ((r', buf'), t'))"
begin

definition twins :: "pool \<Rightarrow> pool \<Rightarrow> bool" where
  "twins p q \<longleftrightarrow> q = p\<lparr>bp_pager := bp_pager q\<rparr> \<and> P (bp_pager p) (bp_pager q) \<and> set (bp_dirty p) \<subseteq> W"

lemma twinsE:
  assumes "twins p q"
  obtains t where "q = p\<lparr>bp_pager := t\<rparr>" "P (bp_pager p) t" "set (bp_dirty p) \<subseteq> W"
  using assms unfolding twins_def by blast

lemma twinsI: "P (bp_pager p) t \<Longrightarrow> set (bp_dirty p) \<subseteq> W \<Longrightarrow> twins p (p\<lparr>bp_pager := t\<rparr>)"
  by (simp add: twins_def)

section \<open>Eviction\<close>

lemma twins_evict_one: "ssim bad_write twins (evict_one xxh)"
proof (rule ssimI)
  fix p q p' and r :: "unit presult"
  assume tw: "twins p q" and r: "evict_one xxh p = (r, p')"
  obtain t where q: "q = p\<lparr>bp_pager := t\<rparr>" and P: "P (bp_pager p) t" and W: "set (bp_dirty p) \<subseteq> W"
    using tw by (rule twinsE)
  show "\<exists>q'. twins p' q' \<and> (\<not> failed bad_write r \<longrightarrow> evict_one xxh q = (r, q'))"
  proof (cases "bp_recency p = [] \<or> map_of (bp_entries p) (hd (bp_recency p)) = None \<or> hd (bp_recency p) \<notin> set (bp_dirty p)")
    case True
    then show ?thesis
      using r P W by (intro exI [of _ "p'\<lparr>bp_pager := t\<rparr>"])
        (auto simp: q twins_def evict_one_def Let_def split: list.splits option.splits)
  next
    case False
    then obtain pid rest buf where p: "bp_recency p = pid # rest" "map_of (bp_entries p) pid = Some buf" "pid \<in> set (bp_dirty p)"
      by (cases "bp_recency p") auto
    obtain r1 b s' where w: "write_data_page xxh pid buf (bp_pager p) = ((r1, b), s')" by (metis prod.collapse)
    obtain t' where t': "P s' t'" "failed bad_write r1 \<or> write_data_page xxh pid buf t = ((r1, b), t')"
      using write_law [OF P _ w] p(3) W by blast
    show ?thesis
      using r p w t' W by (intro exI [of _ "p'\<lparr>bp_pager := t'\<rparr>"]) (auto simp: q twins_def evict_one_def Let_def)
  qed
qed

lemma twins_evict_to_fit: "ssim bad_write twins (evict_to_fit xxh)"
proof (rule ssimI)
  fix p q p' and r :: "unit presult"
  assume "twins p q" "evict_to_fit xxh p = (r, p')"
  then show "\<exists>q'. twins p' q' \<and> (\<not> failed bad_write r \<longrightarrow> evict_to_fit xxh q = (r, q'))"
  proof (induction "length (bp_entries p)" arbitrary: p q rule: less_induct)
    case less
    have cap: "bp_capacity q = bp_capacity p" "length (bp_entries q) = length (bp_entries p)"
      using less.prems(1) by (auto elim!: twinsE)
    obtain r1 p1 where ev: "evict_one xxh p = (r1, p1)" by fastforce
    show ?case
    proof (cases "bp_capacity p \<le> length (bp_entries p)")
      case False
      then show ?thesis using less.prems cap by (auto simp: evict_to_fit.simps)
    next
      case True
      obtain q1 where q1: "twins p1 q1" "\<not> failed bad_write r1 \<longrightarrow> evict_one xxh q = (r1, q1)"
        by (rule ssimE [OF twins_evict_one less.prems(1) ev])
      show ?thesis
      proof (cases r1)
        case (Inl e)
        then have "r = Inl e" "p' = p1" using less.prems(2) ev True by (simp_all add: evict_to_fit.simps [of xxh p])
        then show ?thesis using q1 Inl True cap by (intro exI [of _ q1]) (simp add: evict_to_fit.simps [of xxh q])
      next
        case (Inr v)
        then have rec: "evict_to_fit xxh p1 = (r, p')" using less.prems(2) ev True by (simp add: evict_to_fit.simps [of xxh p])
        have "length (bp_entries p1) < length (bp_entries p)" using evict_one_shorter ev Inr by simp
        from less.hyps [OF this q1(1) rec] show ?thesis using q1(2) Inr True cap by (simp add: evict_to_fit.simps [of xxh q])
      qed
    qed
  qed
qed

lemma twins_drop_page: "twins p q \<Longrightarrow> twins (drop_page pid p) (drop_page pid q)"
  by (elim twinsE) (auto simp: drop_page_def twins_def)

lemma twins_insert_cached:
  assumes "dirty \<Longrightarrow> pid \<in> W"
  shows "ssim bad_write twins (insert_cached xxh pid buf dirty)"
proof -
  let ?add = "\<lambda>(_ :: unit) p2 :: pool.
    let p3 = (if dirty then p2\<lparr>bp_dirty := List.insert pid (bp_dirty p2)\<rparr> else p2)
    in (Inr (), p3\<lparr>bp_entries := entries_insert pid buf (bp_entries p3), bp_recency := bp_recency p3 @ [pid]\<rparr>)"
  have "twins (snd (?add u p)) (snd (?add u q))" "fst (?add u q) = fst (?add u p)" if "twins p q" for u p q
    by (rule twinsE [OF that], use assms in \<open>auto simp: Let_def twins_def\<close>)+
  then have "ssim bad_write twins (?add u)" for u by (auto intro!: ssimI simp: prod_eq_iff)
  then have "ssim bad_write twins (sbind (evict_to_fit xxh) ?add)" by (intro ssim_sbind twins_evict_to_fit)
  then show ?thesis unfolding ssim_def insert_cached_drop using twins_drop_page by blast
qed

section \<open>Reads and writes of the pool\<close>

lemma twins_read:
  assumes "twins p q" "pool_read xxh pid p = (r, p')"
  obtains r0 q' where "pool_read xxh pid q = (r0, q')" "twins p' q'" "failed bad r \<or> r0 = r"
proof -
  obtain t where q: "q = p\<lparr>bp_pager := t\<rparr>" and P: "P (bp_pager p) t" and W: "set (bp_dirty p) \<subseteq> W"
    using assms(1) by (rule twinsE)
  obtain s' where s: "read_data_page xxh pid (bp_pager p) = (r, s')" "p' = p\<lparr>bp_pager := s'\<rparr>"
    using assms(2) by (auto simp: pool_read_def split: prod.splits)
  obtain r0 t' where t: "read_data_page xxh pid t = (r0, t')" by fastforce
  show thesis
    using read_law [OF P s(1) t] W t by (intro that [of r0 "p\<lparr>bp_pager := t'\<rparr>"]) (auto simp: pool_read_def q s(2) twins_def)
qed

text \<open>A lookup in the cache. If it goes wrong for a bad page, the partner has read that page and no more.\<close>

lemma twins_get:
  assumes tw: "twins p q" and r: "pool_get xxh pid p = (r, p')"
  obtains q' where "twins p' q'" "pool_get xxh pid q = (r, q')"
    | (unread) r0 q' where "twins p' q'" "failed bad r" "pool_read xxh pid q = (r0, q')"
    | (unwritten) q' where "twins p' q'" "failed bad_write r"
proof (cases "map_of (bp_entries p) pid")
  case (Some buf)
  have "twins p' (touch pid q)" "pool_get xxh pid q = (r, touch pid q)"
    by (rule twinsE [OF tw], use r Some in \<open>auto simp: pool_get_def touch_def twins_def\<close>)+
  then show thesis by (rule that(1))
next
  case None
  then have None': "map_of (bp_entries q) pid = None" using tw by (auto elim!: twinsE)
  obtain r1 p1 where rd: "pool_read xxh pid p = (r1, p1)" by fastforce
  obtain r0 q1 where q1: "pool_read xxh pid q = (r0, q1)" "twins p1 q1" "failed bad r1 \<or> r0 = r1"
    by (rule twins_read [OF tw rd])
  show thesis
  proof (cases r1)
    case (Inl e)
    then have "r = Inl e" "p' = p1" using r None rd by (simp_all add: pool_get_def sbind_def)
    then show thesis using that(1,2) q1 Inl None' by (auto simp: pool_get_def sbind_def)
  next
    case (Inr buf)
    obtain r2 p2 where ic: "insert_cached xxh pid buf False p1 = (r2, p2)" by fastforce
    have "ssim bad_write twins (insert_cached xxh pid buf False)" by (rule twins_insert_cached) simp
    from ssimE [OF this q1(2) ic] obtain q2 where
      q2: "twins p2 q2" "\<not> failed bad_write r2 \<longrightarrow> insert_cached xxh pid buf False q1 = (r2, q2)" .
    have "p' = p2" "r = (case r2 of Inl e \<Rightarrow> Inl e | Inr _ \<Rightarrow> Inr buf)"
      using r None rd Inr ic by (auto simp: pool_get_def sbind_def spure_def split: sum.splits)
    moreover have "pool_get xxh pid q = (case r2 of Inl e \<Rightarrow> Inl e | Inr _ \<Rightarrow> Inr buf, q2)" if "\<not> failed bad_write r2"
      using None' q1 Inr q2(2) that by (simp add: pool_get_def sbind_def spure_def split: sum.split)
    ultimately show thesis using that(1,3) q2(1) by (cases r2) auto
  qed
qed

text \<open>A new page gets the next id, which must be one that may be written.\<close>

lemma twins_put_page:
  assumes tw: "twins p q" and W: "bp_next_page_id p \<in> W" and r: "put_page xxh buf p = (r, p')"
  obtains q' where "twins p' q'" "failed bad_write r \<or> put_page xxh buf q = (r, q')"
proof -
  let ?pid = "bp_next_page_id p" and ?next = "\<lambda>p :: pool. p\<lparr>bp_next_page_id := bp_next_page_id p + 1\<rparr>"
  have next': "bp_next_page_id q = ?pid" "twins (?next p) (?next q)" by (rule twinsE [OF tw], simp add: twins_def)+
  have put: "put_page xxh buf p0 = sbind (insert_cached xxh (bp_next_page_id p0) buf True) (\<lambda>_. spure (Inr (bp_next_page_id p0))) (?next p0)"
    for p0 by (simp add: put_page_def allocate_page_id_def sbind_def put_new_def spure_def)
  have "ssim bad_write twins (sbind (insert_cached xxh ?pid buf True) (\<lambda>_. spure (Inr ?pid)))"
    by (intro ssim_sbind ssim_spure twins_insert_cached W)
  from ssimE [OF this next'(2) r [unfolded put]] show thesis using that put [of q] next'(1) by auto
qed

end

section \<open>Commits\<close>

locale twin_commits = twin_pagers +
  assumes sync_law: "ssim bad_write P sync_data"
    and commit_law: "ssim bad_write P (pager_commit xxh root count)"
begin

lemma twins_flush_ids: "set ids \<subseteq> W \<Longrightarrow> ssim bad_write twins (flush_ids xxh ids)"
proof (induction ids)
  case Nil
  then show ?case by (auto simp: ssim_def)
next
  case (Cons pid ids)
  then have IH: "ssim bad_write twins (flush_ids xxh ids)" by simp
  show ?case
  proof (rule ssimI)
    fix p q p' and r :: "unit presult"
    assume tw: "twins p q" and r: "flush_ids xxh (pid # ids) p = (r, p')"
    obtain t where q: "q = p\<lparr>bp_pager := t\<rparr>" and P: "P (bp_pager p) t" and W: "set (bp_dirty p) \<subseteq> W"
      using tw by (rule twinsE)
    show "\<exists>q'. twins p' q' \<and> (\<not> failed bad_write r \<longrightarrow> flush_ids xxh (pid # ids) q = (r, q'))"
    proof (cases "map_of (bp_entries p) pid")
      case None
      let ?clean = "\<lambda>p :: pool. p\<lparr>bp_dirty := removeAll pid (bp_dirty p)\<rparr>"
      have "twins (?clean p) (?clean q)" using P W by (auto simp: q twins_def)
      from ssimE [OF IH this, of r p'] show ?thesis using r None q by auto
    next
      case (Some buf)
      obtain r1 b s' where w: "write_data_page xxh pid buf (bp_pager p) = ((r1, b), s')" by (metis prod.collapse)
      obtain t' where t': "P s' t'" "failed bad_write r1 \<or> write_data_page xxh pid buf t = ((r1, b), t')"
        using write_law [OF P _ w] Cons.prems by auto
      let ?stamp = "\<lambda>pg p :: pool. p\<lparr>bp_pager := pg, bp_entries := AList.update pid b (bp_entries p)\<rparr>"
      let ?clean = "\<lambda>p :: pool. p\<lparr>bp_dirty := removeAll pid (bp_dirty p)\<rparr>"
      show ?thesis
      proof (cases r1)
        case (Inl e)
        then show ?thesis using r Some w t' W by (intro exI [of _ "?stamp t' q"]) (auto simp: q twins_def)
      next
        case (Inr u)
        have "twins (?clean (?stamp s' p)) (?clean (?stamp t' q))" using t'(1) W by (auto simp: q twins_def)
        from ssimE [OF IH this, of r p'] show ?thesis using r Some w t'(2) Inr q by auto
      qed
    qed
  qed
qed

text \<open>A call on the pager alone.\<close>

lemma twins_on_pager:
  assumes "ssim bad_write P m"
  shows "ssim bad_write twins (\<lambda>p. case m (bp_pager p) of (r, pg) \<Rightarrow> (r, p\<lparr>bp_pager := pg\<rparr>))"
proof (rule ssimI)
  fix p q and r :: "'a presult" and p'
  assume tw: "twins p q" and r: "(case m (bp_pager p) of (r, pg) \<Rightarrow> (r, p\<lparr>bp_pager := pg\<rparr>)) = (r, p')"
  then obtain s' where s: "m (bp_pager p) = (r, s')" "p' = p\<lparr>bp_pager := s'\<rparr>" by (auto split: prod.splits)
  obtain t where t: "q = p\<lparr>bp_pager := t\<rparr>" "P (bp_pager p) t" "set (bp_dirty p) \<subseteq> W" using tw by (rule twinsE)
  obtain t' where "P s' t'" "\<not> failed bad_write r \<longrightarrow> m t = (r, t')" by (rule ssimE [OF assms t(2) s(1)])
  then show "\<exists>q'. twins p' q' \<and> (\<not> failed bad_write r \<longrightarrow> (case m (bp_pager q) of (r, pg) \<Rightarrow> (r, q\<lparr>bp_pager := pg\<rparr>)) = (r, q'))"
    using t s(2) by (intro exI [of _ "p\<lparr>bp_pager := t'\<rparr>"]) (auto simp: twins_def)
qed

lemma twins_flush_all_dirty: "ssim bad_write twins (flush_all_dirty xxh)"
proof (rule ssim_at)
  fix p q
  assume tw: "twins p q"
  have "ssim bad_write twins (sbind (flush_ids xxh (bp_dirty p)) (\<lambda>_. pool_sync))"
    using tw twins_on_pager [OF sync_law] by (intro ssim_sbind twins_flush_ids) (auto simp: pool_sync_def [abs_def] elim: twinsE)
  moreover have "bp_dirty q = bp_dirty p" using tw by (auto elim!: twinsE)
  ultimately show "\<exists>m. ssim bad_write twins m \<and> flush_all_dirty xxh p = m p \<and> flush_all_dirty xxh q = m q"
    by (intro exI conjI) (simp_all add: flush_all_dirty_def)
qed

lemma twins_commit: "ssim bad_write twins (pool_commit xxh root)"
  unfolding pool_commit_def
proof (rule ssim_sbind [OF twins_flush_all_dirty], rule ssim_at)
  fix p q :: pool
  assume "twins p q"
  then have "bp_next_page_id q = bp_next_page_id p" by (auto elim!: twinsE)
  then show "\<exists>m. ssim bad_write twins m \<and>
      (case pager_commit xxh root (bp_next_page_id p) (bp_pager p) of (r, pg) \<Rightarrow> (r, p\<lparr>bp_pager := pg\<rparr>)) = m p \<and>
      (case pager_commit xxh root (bp_next_page_id q) (bp_pager q) of (r, pg) \<Rightarrow> (r, q\<lparr>bp_pager := pg\<rparr>)) = m q"
    using twins_on_pager [OF commit_law, of root "bp_next_page_id p"] by (intro exI conjI) simp_all
qed

end

end
