(* ===== verification/Faults.thy ===== *)
theory Faults
  imports Twins
begin

text \<open>
  I/O faults only ever turn a run into an I/O error. \<open>calm\<close> is a pool whose remaining fault
  schedule is cleared; a call on the file, the pager or the pool that does not end in an I/O error
  under a schedule does the same on the calm state, whether it succeeds or is refused.
\<close>

section \<open>Simulation by the fault-free run\<close>

definition calm_file :: "dbfile \<Rightarrow> dbfile" where
  "calm_file f = f\<lparr>f_faults := []\<rparr>"

definition calm_pager :: "pager \<Rightarrow> pager" where
  "calm_pager pg = pg\<lparr>p_file := calm_file (p_file pg)\<rparr>"

definition calm :: "pool \<Rightarrow> pool" where
  "calm p = p\<lparr>bp_pager := calm_pager (bp_pager p)\<rparr>"

text \<open>What a calm state does is what the state does unless it meets a fault.\<close>

abbreviation csim :: "('e \<Rightarrow> bool) \<Rightarrow> ('s \<Rightarrow> 's) \<Rightarrow> ('s, 'e, 'a) smethod \<Rightarrow> bool" where
  "csim io c \<equiv> ssim io (\<lambda>s t. t = c s)"

abbreviation psim :: "'a pmethod \<Rightarrow> bool" where
  "psim \<equiv> csim io_failure calm"

lemma csimI: "(\<And>s r s'. m s = (r, s') \<Longrightarrow> \<not> failed io r \<Longrightarrow> m (c s) = (r, c s')) \<Longrightarrow> csim io c m"
  and csimD: "csim io c m \<Longrightarrow> m s = (r, s') \<Longrightarrow> \<not> failed io r \<Longrightarrow> m (c s) = (r, c s')"
  and csim_okD: "csim io c m \<Longrightarrow> m s = (Inr a, s') \<Longrightarrow> m (c s) = (Inr a, c s')"
  by (simp_all add: ssim_def)

lemma calm_sel [simp]:
  "bp_capacity (calm p) = bp_capacity p" "bp_entries (calm p) = bp_entries p" "bp_dirty (calm p) = bp_dirty p"
  "bp_recency (calm p) = bp_recency p" "bp_next_page_id (calm p) = bp_next_page_id p"
  "bp_pager (calm p) = calm_pager (bp_pager p)" "pool_page_size (calm p) = pool_page_size p"
  "pool_root_page_id (calm p) = pool_root_page_id p"
  by (simp_all add: calm_def pool_page_size_def pool_root_page_id_def calm_pager_def)

lemma calm_pager_sel [simp]:
  "p_file (calm_pager pg) = calm_file (p_file pg)" "p_path (calm_pager pg) = p_path pg"
  "p_page_size (calm_pager pg) = p_page_size pg" "p_active_slot (calm_pager pg) = p_active_slot pg"
  "p_txn_id (calm_pager pg) = p_txn_id pg" "p_root_page_id (calm_pager pg) = p_root_page_id pg"
  "p_page_count (calm_pager pg) = p_page_count pg" "file_offset (calm_pager pg) = file_offset pg"
  by (simp_all add: calm_pager_def file_offset_def fun_eq_iff)

lemma calm_file_sel [simp]:
  "f_durable (calm_file f) = f_durable f" "f_pending (calm_file f) = f_pending f"
  "contents (calm_file f) = contents f" "fault_free (calm_file f)"
  by (simp_all add: calm_file_def contents_def fault_free_def)

lemma calm_idem [simp]: "calm (calm p) = calm p"
  by (simp add: calm_def calm_pager_def calm_file_def)

section \<open>Files and the pager\<close>

lemma calm_tick: "io_tick f = (x, f') \<Longrightarrow> io_tick (calm_file f) = (None, calm_file f')"
  by (auto simp: io_tick_def calm_file_def split: list.splits)

text \<open>Every error of a call on the file is an I/O error.\<close>

abbreviation fsim :: "(dbfile, io_error, 'a) smethod \<Rightarrow> bool" where
  "fsim \<equiv> csim (\<lambda>_. True) calm_file"

lemma fsimI: "(\<And>f a f'. m f = (Inr a, f') \<Longrightarrow> m (calm_file f) = (Inr a, calm_file f')) \<Longrightarrow> fsim m"
  by (auto simp: ssim_def failed_def split: sum.splits)

lemma fsim_write: "fsim (write_all_at bs off)"
  by (rule fsimI) (auto simp: write_all_at_def calm_tick push_write_def split: prod.splits option.splits,
    auto simp: calm_file_def)

lemma fsim_read: "fsim (read_exact_at n off)"
  by (rule fsimI) (auto simp: read_exact_at_def calm_tick split: prod.splits option.splits if_splits)

lemma fsim_sync: "fsim file_sync"
  by (rule fsimI) (auto simp: file_sync_def calm_tick contents_def split: prod.splits option.splits,
    auto simp: calm_file_def)

lemma ssim_pager_io:
  assumes "fsim m"
  shows "csim io_failure calm_pager (pager_io m)"
proof (rule csimI)
  fix pg r pg'
  assume r: "pager_io m pg = (r, pg')" "\<not> failed io_failure r"
  obtain x f' where m: "m (p_file pg) = (x, f')" by fastforce
  then obtain a where "x = Inr a" "r = Inr a" "pg' = pg\<lparr>p_file := f'\<rparr>"
    using r by (auto simp: pager_io_def io_at_def io_failure_def split: sum.splits)
  then show "pager_io m (calm_pager pg) = (r, calm_pager pg')"
    using csim_okD [OF assms] m by (simp add: pager_io_ok calm_pager_def)
qed

lemma ssim_read_data_page: "csim io_failure calm_pager (read_data_page xxh pid)"
  by (rule ssim_at) (force simp: read_data_page_def intro: ssim_sbind ssim_pager_io fsim_read ssim_spure)

lemma calm_write_data_page:
  assumes "write_data_page xxh pid buf pg = ((r, buf'), pg')" "\<not> failed io_failure r"
  shows "write_data_page xxh pid buf (calm_pager pg) = ((r, buf'), calm_pager pg')"
proof (cases "stamp_checksum xxh buf")
  case (Inl e)
  with assms show ?thesis by (simp add: write_data_page_def)
next
  case (Inr sb)
  then have "pager_io (write_all_at sb (unat (file_offset pg pid))) pg = (r, pg')" "buf' = sb"
    using assms(1) by (auto simp: write_data_page_def split: prod.splits)
  then show ?thesis using csimD [OF ssim_pager_io [OF fsim_write]] Inr assms(2) by (simp add: write_data_page_def)
qed

lemma ssim_sync_data: "csim io_failure calm_pager sync_data"
  unfolding sync_data_def by (rule ssim_pager_io [OF fsim_sync])

lemma ssim_pager_commit: "csim io_failure calm_pager (pager_commit xxh root count)"
  unfolding pager_commit_def
proof (rule ssim_sbind [OF ssim_sync_data], rule csimI)
  fix u :: unit and pg r pg'
  show "(let target_slot = 1 - p_active_slot pg;
           content = \<lparr>mc_page_size = p_page_size pg, mc_txn_id = p_txn_id pg + 1, mc_root_page_id = root, mc_page_count = count\<rparr>
       in sbind (spure (encode_meta_slot xxh content)) (\<lambda>slot_buf.
          let offset = ucast target_slot * META_SLOT_LEN :: u64
          in sbind (pager_io (write_all_at slot_buf (unat offset))) (\<lambda>_.
             sbind (pager_io file_sync) (\<lambda>_ pg.
               (Inr (), pg\<lparr>p_active_slot := target_slot, p_txn_id := p_txn_id pg + 1,
                           p_root_page_id := root, p_page_count := count\<rparr>)))) pg) = (r, pg') \<Longrightarrow> \<not> failed io_failure r \<Longrightarrow>
    (let target_slot = 1 - p_active_slot (calm_pager pg);
           content = \<lparr>mc_page_size = p_page_size (calm_pager pg), mc_txn_id = p_txn_id (calm_pager pg) + 1,
             mc_root_page_id = root, mc_page_count = count\<rparr>
       in sbind (spure (encode_meta_slot xxh content)) (\<lambda>slot_buf.
          let offset = ucast target_slot * META_SLOT_LEN :: u64
          in sbind (pager_io (write_all_at slot_buf (unat offset))) (\<lambda>_.
             sbind (pager_io file_sync) (\<lambda>_ pg.
               (Inr (), pg\<lparr>p_active_slot := target_slot, p_txn_id := p_txn_id pg + 1,
                           p_root_page_id := root, p_page_count := count\<rparr>)))) (calm_pager pg)) = (r, calm_pager pg')"
    unfolding Let_def calm_pager_sel
    by (rule csimD [rotated], assumption, assumption)
      (intro ssim_sbind ssim_spure ssim_pager_io fsim_write fsim_sync, simp add: ssim_def calm_pager_def)
qed

section \<open>The pool\<close>

lemma calm_pager_same:
  assumes "same_pager s s'" "f_durable (p_file s') = f_durable (p_file s)" "f_pending (p_file s') = f_pending (p_file s)"
  shows "calm_pager s' = calm_pager s"
proof -
  have "calm_file (p_file s') = calm_file (p_file s)" using assms(2,3) by (simp add: calm_file_def)
  moreover have "s' = s\<lparr>p_file := p_file s'\<rparr>" using assms(1) by (simp add: same_pager_def)
  ultimately show ?thesis unfolding calm_pager_def by (cases s, cases s') simp
qed

lemma read_calm:
  assumes "read_data_page xxh pid (calm_pager s) = (r, t)"
  shows "t = calm_pager s"
  using assms
  by (auto simp: read_data_page_def pager_io_def io_at_def read_exact_at_def io_tick_def calm_pager_def calm_file_def spure_def
      elim!: sbind_cases split: option.splits)

text \<open>The calm pager is the partner: every error that comes between them is an I/O error.\<close>

interpretation calm_pool: twin_commits io_failure io_failure xxh "\<lambda>s t. t = calm_pager s" UNIV for xxh
proof
  fix s t s' t' :: pager and pid buf buf' and r r0 :: "bytes presult" and r' :: "unit presult"
  assume t: "t = calm_pager s"
  show "read_data_page xxh pid s = (r, s') \<Longrightarrow> read_data_page xxh pid t = (r0, t') \<Longrightarrow>
      t' = calm_pager s' \<and> (failed io_failure r \<or> r0 = r)"
  proof -
    assume rd: "read_data_page xxh pid s = (r, s')" "read_data_page xxh pid t = (r0, t')"
    have "t' = calm_pager s'"
      using calm_pager_same [OF read_data_page_result(1,3,4) [OF rd(1)]] read_calm [OF rd(2) [unfolded t]] by simp
    moreover have "r0 = r" if "\<not> failed io_failure r"
      using csimD [OF ssim_read_data_page rd(1) that] rd(2) t by simp
    ultimately show ?thesis by blast
  qed
  show "write_data_page xxh pid buf s = ((r', buf'), s') \<Longrightarrow>
      \<exists>t'. t' = calm_pager s' \<and> (failed io_failure r' \<or> write_data_page xxh pid buf t = ((r', buf'), t'))"
    using calm_write_data_page [of xxh pid buf s r' buf' s'] by (intro exI [of _ "calm_pager s'"]) (auto simp: t)
qed (rule ssim_sync_data ssim_pager_commit)+

lemma calm_twins: "calm_pool.twins p q \<longleftrightarrow> q = calm p"
  by (auto simp: calm_pool.twins_def calm_def)

lemma ssim_pool_get: "psim (pool_get xxh pid)"
proof (rule csimI)
  fix p r p'
  assume r: "pool_get xxh pid p = (r, p')" "\<not> failed io_failure r"
  have "calm_pool.twins p (calm p)" by (simp add: calm_twins)
  from this r(1) show "pool_get xxh pid (calm p) = (r, calm p')"
    by (rule calm_pool.twins_get) (use r(2) in \<open>simp_all add: calm_twins\<close>)
qed

lemma ssim_put_page: "psim (put_page xxh buf)"
proof (rule csimI)
  fix p r p'
  assume r: "put_page xxh buf p = (r, p')" "\<not> failed io_failure r"
  have "calm_pool.twins p (calm p)" by (simp add: calm_twins)
  from this UNIV_I r(1) show "put_page xxh buf (calm p) = (r, calm p')"
    by (rule calm_pool.twins_put_page) (use r(2) in \<open>simp_all add: calm_twins\<close>)
qed

lemmas ssim_flush_all_dirty = calm_pool.twins_flush_all_dirty [unfolded calm_twins [abs_def]]
  and ssim_pool_commit = calm_pool.twins_commit [unfolded calm_twins [abs_def]]

end
