(* ===== verification/Stable_Ops.thy ===== *)
theory Stable_Ops
  imports Faults
begin

text \<open>
  What the tree operations keep of the pager, on every path and under every fault. The locale
  \<open>tree_stable\<close> has the contract of \<open>pager_stable\<close>, the page size and the page ids that may be
  written; it gives the contract of \<open>writing\<close>, for pools with so many page ids left and their
  calm counterparts. So every operation that \<open>tracks k\<close> keeps the contract, takes at most \<open>k\<close>
  page ids, and does without faults what it does under faults unless it ends in an I/O error.
\<close>

section \<open>The next page id\<close>

lemma evict_one_next: "evict_one xxh p = (r, p') \<Longrightarrow> bp_next_page_id p' = bp_next_page_id p"
  by (auto simp: evict_one_def Let_def split: list.splits option.splits if_splits prod.splits)

lemma evict_to_fit_next: "evict_to_fit xxh p = (r, p') \<Longrightarrow> bp_next_page_id p' = bp_next_page_id p"
proof (induction "length (bp_entries p)" arbitrary: p rule: less_induct)
  case less
  obtain r1 p1 where ev: "evict_one xxh p = (r1, p1)" by fastforce
  show ?case
  proof (cases "bp_capacity p \<le> length (bp_entries p) \<and> r1 = Inr ()")
    case True
    then have "evict_to_fit xxh p1 = (r, p')" "length (bp_entries p1) < length (bp_entries p)"
      using less.prems ev evict_one_shorter [of xxh p p1] by (simp_all add: evict_to_fit.simps [of xxh p])
    with less.hyps evict_one_next [OF ev] show ?thesis by simp
  next
    case False
    then have "(r, p') = (if bp_capacity p \<le> length (bp_entries p) then (r1, p1) else (Inr (), p))"
      using less.prems ev by (cases r1) (simp_all add: evict_to_fit.simps [of xxh p] split: if_splits)
    with evict_one_next [OF ev] show ?thesis by (simp split: if_splits)
  qed
qed

lemma insert_cached_next: "insert_cached xxh pid buf dirty p = (r, p') \<Longrightarrow> bp_next_page_id p' = bp_next_page_id p"
  by (auto simp: insert_cached_def Let_def dest!: evict_to_fit_next elim!: sbind_cases split: if_splits)

lemma pool_get_next: "pool_get xxh pid p = (r, p') \<Longrightarrow> bp_next_page_id p' = bp_next_page_id p"
  by (auto simp: pool_get_def touch_def pool_read_def spure_def dest!: insert_cached_next elim!: sbind_cases
      split: option.splits prod.splits)

section \<open>Calls and their page ids\<close>

locale tree_stable = pager_stable xxh K W for xxh :: "bytes \<Rightarrow> u64" and K :: "pager \<Rightarrow> bool" and W :: "u32 set" +
  fixes ps :: page_size and n0 :: u32
  assumes K_size: "K pg \<Longrightarrow> p_page_size pg = ps \<and> valid_page_size (page_bytes ps)"
    and K_calm: "K pg \<Longrightarrow> K (calm_pager pg)"
begin

definition sound :: "pool \<Rightarrow> bool" where
  "sound p \<longleftrightarrow> store_ok xxh p \<and> safe p \<and> n0 \<le> bp_next_page_id p"

text \<open>The next \<open>n\<close> page ids are writable.\<close>

definition stock :: "nat \<Rightarrow> pool \<Rightarrow> bool" where
  "stock n p \<longleftrightarrow> sound p \<and> unat (bp_next_page_id p) + n < 2 ^ 32 \<and> (\<forall>i < n. bp_next_page_id p + of_nat i \<in> W)"

text \<open>A call that takes at most \<open>k\<close> page ids, whether it succeeds or fails.\<close>

definition costs :: "nat \<Rightarrow> 'a pdmethod \<Rightarrow> bool" where
  "costs k m \<longleftrightarrow> (\<forall>n p r p'. stock (n + k) p \<longrightarrow> m p = Some (r, p') \<longrightarrow> stock n p')"

lemma costsI: "(\<And>n p r p'. stock (n + k) p \<Longrightarrow> m p = Some (r, p') \<Longrightarrow> stock n p') \<Longrightarrow> costs k m"
  and costsD: "costs k m \<Longrightarrow> stock (n + k) p \<Longrightarrow> m p = Some (r, p') \<Longrightarrow> stock n p'"
  unfolding costs_def by blast+

lemma stock_less: "stock n p \<Longrightarrow> k \<le> n \<Longrightarrow> stock k p"
  by (simp add: stock_def)

lemma stock_sound: "stock n p \<Longrightarrow> sound p"
  by (simp add: stock_def)

lemma stock_0 [simp]: "stock 0 p = sound p"
  using unsigned_less [of "bp_next_page_id p"] by (auto simp: stock_def)

lemma sound_safe: "sound p \<Longrightarrow> safe p"
  by (simp add: sound_def)

lemma sound_size: "sound p \<Longrightarrow> pool_page_size p = ps \<and> valid_page_size (page_bytes ps)"
  using K_size [of "bp_pager p"] by (simp add: sound_def safe_def pool_page_size_def)

lemma costs_sound: "costs k m \<Longrightarrow> stock k p \<Longrightarrow> m p = Some (r, p') \<Longrightarrow> sound p'"
  using costsD [of k m 0 p r p'] by simp

text \<open>How many ids the call took.\<close>

lemma costs_ids:
  assumes "costs k m" "stock k p" "\<And>n. unat (bp_next_page_id p) + n < 2 ^ 32 \<Longrightarrow> stock n p" "m p = Some (r, p')"
  shows "unat (bp_next_page_id p') \<le> unat (bp_next_page_id p) + k"
proof -
  let ?n = "2 ^ 32 - 1 - (unat (bp_next_page_id p) + k)"
  have "unat (bp_next_page_id p) + k < 2 ^ 32" using assms(2) by (simp add: stock_def)
  then have "stock (?n + k) p" by (intro assms(3)) simp
  then have "stock ?n p'" using costsD [OF assms(1)] assms(4) by blast
  then have "unat (bp_next_page_id p') + ?n < 2 ^ 32" unfolding stock_def by blast
  then show ?thesis using \<open>unat (bp_next_page_id p) + k < 2 ^ 32\<close> by simp
qed

text \<open>Clearing the fault schedule changes nothing of this.\<close>

lemma store_ok_calm: "store_ok xxh p \<Longrightarrow> store_ok xxh (calm p)"
  using disk_page_cong [of "bp_pager p" "calm_pager (bp_pager p)" xxh]
  by (simp add: store_ok_def pool_inv_def pool_wf_def pool_coherent_def same_pager_def)

lemma stock_calm: "stock n p \<Longrightarrow> stock n (calm p)"
  using store_ok_calm [of p] K_calm by (simp add: stock_def sound_def safe_def)

lemma sound_get:
  assumes "sound p" "pool_get xxh pid p = (r, p')"
  shows "sound p'" "bp_next_page_id p' = bp_next_page_id p" "r = Inr buf \<Longrightarrow> length buf = bytes_usize ps"
proof -
  have inv: "pool_inv xxh p" using assms(1) by (simp add: sound_def store_ok_def)
  note G = pool_get_inv [OF inv assms(2)]
  have "pool_frame p p'" using G by blast
  then show next': "bp_next_page_id p' = bp_next_page_id p" by (rule pool_frame_sel(4))
  show "sound p'"
    using assms(1) store_ok_get [OF _ assms(2)] pool_get_safe [OF _ assms(2)] next' by (simp add: sound_def)
  show "r = Inr buf \<Longrightarrow> length buf = bytes_usize ps" using G sound_size [OF assms(1)] by simp
qed

lemma stock_read:
  assumes "stock n p" "pool_read xxh pid p = (r, p')"
  shows "stock n p'"
proof -
  obtain pg where pg: "read_data_page xxh pid (bp_pager p) = (r, pg)" "p' = p\<lparr>bp_pager := pg\<rparr>"
    using assms(2) by (auto simp: pool_read_def split: prod.splits)
  have s: "store_ok xxh p" "safe p" using assms(1) by (simp_all add: stock_def sound_def)
  then have "pool_inv xxh p'" using pool_read_inv(1) [OF _ assms(2)] by (simp add: store_ok_def)
  then have "store_ok xxh p'" "safe p'" using s read_keeps [OF _ pg(1)] by (simp_all add: store_ok_def safe_def pg(2))
  then show ?thesis using assms(1) by (simp add: stock_def sound_def pg(2))
qed

lemma stock_get: "stock n p \<Longrightarrow> pool_get xxh pid p = (r, p') \<Longrightarrow> stock n p'"
  using sound_get by (auto simp: stock_def)

lemma put_page_keeps:
  assumes "stock (Suc n) p" "put_page xxh buf p = (r, p')" "length buf = bytes_usize ps"
  shows "sound p'" "bp_next_page_id p' = bp_next_page_id p + 1"
proof -
  let ?p1 = "p\<lparr>bp_next_page_id := bp_next_page_id p + 1\<rparr>"
  obtain r1 p1 where w: "put_new xxh (bp_next_page_id p) buf ?p1 = (r1, p1)" by fastforce
  then have p1: "p' = p1" using assms(2)
    by (auto simp: put_page_def allocate_page_id_def spure_def sbind_def split: sum.splits)
  have s: "sound p" "bp_next_page_id p \<in> W" "unat (bp_next_page_id p) + Suc n < 2 ^ 32"
    using assms(1) by (auto simp: stock_def dest: spec [of _ 0])
  have "bp_next_page_id p \<noteq> - 1" using s(3) by (auto simp: unsigned_minus_1_eq_mask mask_eq_exp_minus_1)
  moreover have "store_ok xxh p" "length buf = bytes_usize (pool_page_size p)"
    using s(1) assms(3) sound_size by (simp_all add: sound_def)
  ultimately have P: "store_ok xxh p1" "pool_frame ?p1 p1" using store_ok_put [OF _ _ _ w] by blast+
  then show next': "bp_next_page_id p' = bp_next_page_id p + 1" using pool_frame_sel(4) [OF P(2)] p1 by simp
  have "safe ?p1" using s(1) by (simp add: sound_def safe_def)
  then have "safe p1" using put_new_safe [OF _ s(2) w] by blast
  moreover have "n0 \<le> bp_next_page_id p + 1"
    using s(1) unat_next [OF \<open>bp_next_page_id p \<noteq> - 1\<close>] by (simp add: sound_def word_le_nat_alt)
  ultimately show "sound p'" using P(1) next' p1 by (simp add: sound_def)
qed

lemma stock_next:
  assumes "stock (Suc n) p" "sound p'" "bp_next_page_id p' = bp_next_page_id p + 1"
  shows "stock n p'"
proof -
  have lt: "unat (bp_next_page_id p) + Suc n < 2 ^ 32" using assms(1) by (simp add: stock_def)
  then have "bp_next_page_id p \<noteq> - 1" by (auto simp: unsigned_minus_1_eq_mask mask_eq_exp_minus_1)
  then have "unat (bp_next_page_id p') + n < 2 ^ 32" using lt unat_next by (simp add: assms(3))
  moreover have "bp_next_page_id p' + of_nat i \<in> W" if "i < n" for i
  proof -
    have "bp_next_page_id p + of_nat (Suc i) \<in> W" using assms(1) that unfolding stock_def by blast
    then show ?thesis by (simp add: assms(3) ac_simps)
  qed
  ultimately show ?thesis using assms(2) by (simp add: stock_def)
qed

lemma stock_put: "stock (n + 1) p \<Longrightarrow> length buf = bytes_usize ps \<Longrightarrow> put_page xxh buf p = (r, p') \<Longrightarrow> stock n p'"
  using put_page_keeps stock_next by (metis Suc_eq_plus1)

end

text \<open>A pool with \<open>n\<close> page ids left, and the calm pool.\<close>

sublocale tree_stable \<subseteq> comparison io_failure "\<lambda>n p q. stock n p \<and> q = calm p"
proof
  fix n k p q
  show "stock (n + k) p \<and> q = calm p \<Longrightarrow> stock n p \<and> q = calm p" using stock_less [of "n + k" p n] by simp
  show "stock n p \<and> q = calm p \<Longrightarrow> stock n q \<and> q = calm q" using stock_calm by simp
qed simp_all

sublocale tree_stable \<subseteq> writing io_failure "\<lambda>n p q. stock n p \<and> q = calm p" xxh ps
proof
  fix pid
  show "follows 0 (pool_get xxh pid)"
    unfolding follows_def using csimD [OF ssim_pool_get] stock_get by fastforce
next
  fix n p q pid buf p'
  assume R: "stock n p \<and> q = calm p"
  show "pool_page_size p = ps \<and> valid_page_size (page_bytes ps)" using R stock_sound sound_size by blast
  show "pool_get xxh pid p = (Inr buf, p') \<Longrightarrow> length buf = bytes_usize ps"
    using R stock_sound sound_get(3) by blast
next
  fix buf :: bytes
  assume len: "length buf = bytes_usize ps"
  show "follows 1 (put_page xxh buf)"
    unfolding follows_def using csimD [OF ssim_put_page] stock_put [OF _ len] by fastforce
qed

context tree_stable
begin

lemma tracks_costs: "tracks k m \<Longrightarrow> costs k m"
  unfolding costs_def like_def sim_def by blast

end

end
