(* ===== verification/Crash.thy ===== *)
theory Crash
  imports Session Stable_Ops
begin

text \<open>
  Calls under I/O faults and crashes. From a settled database, on which nothing is unsynced, a call
  under any schedule of faults returns, and whatever a crash then leaves of the file opens again to
  the map before the call or to the map after it, and to the latter once the call has succeeded.
\<close>

section \<open>Reopening a database\<close>

text \<open>A file system that holds one file, on which no call fails.\<close>

definition disk :: "path \<Rightarrow> bytes \<Rightarrow> filesystem" where
  "disk path c =
     \<lparr>fs_files = (\<lambda>_. None)(path := Some (after_crash c [])), fs_open_faults = [], fs_new_faults = []\<rparr>"

definition settled :: "(bytes \<Rightarrow> u64) \<Rightarrow> pool \<Rightarrow> tree option \<Rightarrow> (i64 \<rightharpoonup> row) \<Rightarrow> bool" where
  "settled xxh p t M \<longleftrightarrow> represents xxh (calm p) t M \<and> f_pending (pool_file p) = [] \<and> bp_dirty p = [] \<and>
     pager_inv xxh (bp_pager p) \<and> p_page_count (bp_pager p) = bp_next_page_id p"

lemma pager_inv_calm [simp]: "pager_inv xxh (calm_pager pg) = pager_inv xxh pg"
  and commit_ready_calm [simp]: "commit_ready xxh (calm_pager pg) = commit_ready xxh pg"
  by (simp_all add: pager_inv_def commit_ready_def meta_of_def)

lemma settled_calm [simp]: "settled xxh (calm p) t M = settled xxh p t M"
  by (simp add: settled_def)

definition recovers :: "(bytes \<Rightarrow> u64) \<Rightarrow> path \<Rightarrow> bytes \<Rightarrow> (i64 \<rightharpoonup> row) \<Rightarrow> bool" where
  "recovers xxh path c M \<longleftrightarrow> (\<forall>capacity. 1 \<le> capacity \<longrightarrow>
     (\<exists>db t. fst (open_with_capacity xxh path capacity (disk path c)) = Inr db \<and>
        represents xxh (db_pool db) t M \<and> settled xxh (db_pool db) t M))"

definition page_kept :: "pager \<Rightarrow> bytes \<Rightarrow> u32 \<Rightarrow> bool" where
  "page_kept pg c pid \<longleftrightarrow>
     (let off = unat (file_offset pg pid); n = bytes_usize (p_page_size pg) in
      page_in_file pg pid \<longrightarrow> off + n \<le> length c \<and> slice c off n = page_at pg pid)"

lemma calm_fault_free: "f_faults (pool_file p) = [] \<Longrightarrow> calm p = p"
  by (simp add: calm_def calm_pager_def calm_file_def)

lemma disk_page_kept:
  assumes "page_kept pg c pid" "contents (p_file pg') = c" "p_page_size pg' = p_page_size pg"
    and "disk_page xxh pg pid = Some b"
  shows "disk_page xxh pg' pid = Some b"
proof -
  have fo: "file_offset pg' pid = file_offset pg pid" by (simp add: file_offset_def assms(3))
  have inf: "page_in_file pg pid" using assms(4) by (auto simp: disk_page_def split: if_splits)
  with assms(1) have "page_in_file pg' pid" "page_at pg' pid = page_at pg pid"
    by (simp_all add: page_kept_def Let_def page_in_file_def page_at_def fo assms(2,3))
  then show ?thesis using assms(4) inf by (simp add: disk_page_def split: if_splits)
qed

lemma disk_page_calm [simp]: "disk_page xxh (calm_pager pg) = disk_page xxh pg"
  by (intro ext) (simp add: disk_page_def page_in_file_def page_at_def)

lemma meta_of_calm [simp]: "meta_of (calm_pager pg) = meta_of pg"
  by (simp add: meta_of_def)

lemma pool_inv_calm [simp]: "pool_inv xxh (calm p) = pool_inv xxh p"
  by (simp add: pool_inv_def pool_wf_def pool_coherent_def)

lemma represents_grows:
  assumes "represents xxh p t M" "grows xxh p p'" "pool_root_page_id p' = pool_root_page_id p"
  shows "represents xxh p' t M"
  using assms(1)
proof (cases rule: represents_cases)
  case empty
  then show ?thesis using assms(2,3) by (simp add: represents_def grows_def)
next
  case (tree u)
  have "readable xxh p (set (tree_cells u))" using tree(5) by (simp add: tree_ok_def)
  then show ?thesis
    using tree assms tree_ok_grows [OF tree(5) assms(2)] maps_to_grows [OF tree(6) _ assms(2)]
    by (simp add: represents_def grows_def)
qed

lemma represents_calm:
  assumes "represents xxh p t M"
  shows "represents xxh (calm p) t M"
proof (rule represents_grows [OF assms])
  have "store_inv xxh p" using assms by (simp add: represents_def)
  moreover have "pool_view xxh (calm p) = pool_view xxh p" by (rule pool_view_cong) simp_all
  ultimately show "grows xxh p (calm p)" by (simp add: grows_def store_inv_def store_ok_def store_view_def)
qed simp

text \<open>A clean pool shows what is on disk.\<close>

lemma clean_view:
  assumes "pool_inv xxh p" "bp_dirty p = []" "pool_view xxh p pid = Some b"
  shows "disk_page xxh (bp_pager p) pid = Some b"
  using assms pool_coherent_entry(4) [of xxh p pid]
  by (auto simp: pool_view_def pool_inv_def split: option.splits if_splits)

lemma recovers_pages:
  assumes rep: "represents xxh p t M" and clean: "bp_dirty p = []" and count: "p_page_count (bp_pager p) = bp_next_page_id p"
    and slots: "slots_ok xxh c s (meta_of (bp_pager p))"
    and pages: "\<forall>pid. 2 \<le> unat pid \<and> pid < bp_next_page_id p \<longrightarrow> page_kept (bp_pager p) c pid"
  shows "recovers xxh path c M"
  unfolding recovers_def
proof (intro allI impI)
  fix capacity :: nat
  assume cap: "1 \<le> capacity"
  let ?m = "meta_of (bp_pager p)" and ?fs = "disk path c"
  have inv: "store_inv xxh p" using rep by (simp add: represents_def)
  have "fs_open_faults ?fs = []" "fs_files ?fs path = Some (after_crash c [])" "fault_free (after_crash c [])"
    by (simp_all add: disk_def fault_free_def after_crash_def)
  moreover have "opens_to xxh path (contents (after_crash c [])) s ?m" using opens_to_slots [OF slots] by simp
  ultimately obtain pg fs' where pg: "pager_open xxh path ?fs = (Inr pg, fs')" "meta_of pg = ?m" "p_active_slot pg = s"
    "contents (p_file pg) = c" "f_durable (p_file pg) = c" "f_pending (p_file pg) = []" "fault_free (p_file pg)"
    by (elim pager_open_opens_to) (auto simp: after_crash_def contents_def)
  have m: "p_page_size pg = p_page_size (bp_pager p)" "p_page_count pg = bp_next_page_id p"
    "p_root_page_id pg = p_root_page_id (bp_pager p)" "p_txn_id pg = p_txn_id (bp_pager p)"
    using pg(2) count by (simp_all add: meta_of_def)
  define q where "q = \<lparr>bp_pager = pg, bp_capacity = capacity, bp_entries = [], bp_dirty = [], bp_recency = [],
    bp_next_page_id = p_page_count pg\<rparr>"
  have "pager_inv xxh pg" using slots pg m by (simp add: slots_ok_def pager_inv_def)
  then have invq: "store_inv xxh q"
    using inv cap pg(7) m pager_inv_active(2) [of xxh pg] pager_inv_ready [of xxh pg]
    by (simp add: store_inv_def store_ok_def pool_inv_def pool_wf_def pool_coherent_def pool_page_size_def q_def)
  have view: "pool_view xxh p pid = Some b \<Longrightarrow> pid < bp_next_page_id p \<Longrightarrow> pool_view xxh q pid = Some b" for pid b
    using disk_page_kept [of "bp_pager p" c pid pg] pages clean_view [of xxh p pid b] inv clean pg(4) m(1)
    by (auto simp: pool_view_def q_def store_inv_def store_ok_def split: if_splits)
  then have g: "grows xxh p q"
    using invq m by (auto simp: grows_def map_le_def dom_def store_view_Some q_def pool_page_size_def store_view_def restrict_map_def)
  have root: "pool_root_page_id q = pool_root_page_id p" using m by (simp add: q_def pool_root_page_id_def)
  have rq: "represents xxh q t M" by (rule represents_grows [OF rep g root])
  from represents_calm [OF rq] have "settled xxh q t M" using pg(6) m \<open>pager_inv xxh pg\<close> by (simp add: settled_def q_def)
  moreover have "fst (open_with_capacity xxh path capacity ?fs) = Inr \<lparr>db_pool = q\<rparr>"
    using pg(1) cap by (simp add: open_with_capacity_def sbind_def spure_def pool_new_def q_def)
  ultimately show "\<exists>db t. fst (open_with_capacity xxh path capacity ?fs) = Inr db \<and>
      represents xxh (db_pool db) t M \<and> settled xxh (db_pool db) t M"
    using rq by (intro exI [of _ "\<lparr>db_pool = q\<rparr>"] exI [of _ t]) simp
qed

text \<open>
  Whatever happened to the file since the pool was settled: if the committed pages are frozen and
  the meta slots still lead to the same transaction, the file opens to the same map.
\<close>

lemma recovers_frozen:
  assumes st: "settled xxh p t M" and slots: "slots_ok xxh c s (meta_of (bp_pager p))"
    and frozen: "\<forall>pid. 2 \<le> unat pid \<and> pid < p_page_count (bp_pager p) \<longrightarrow> page_frozen (bp_pager p) pg pid"
    and crash: "crash_image (p_file pg) c"
  shows "recovers xxh path c M"
proof (rule recovers_pages [where p = "calm p" and s = s and t = t])
  have dur: "contents (pool_file p) = f_durable (pool_file p)" using st by (simp add: settled_def contents_synced)
  show "represents xxh (calm p) t M" "bp_dirty (calm p) = []" "p_page_count (bp_pager (calm p)) = bp_next_page_id (calm p)"
    using st by (simp_all add: settled_def)
  show "slots_ok xxh c s (meta_of (bp_pager (calm p)))" using slots by (simp add: meta_of_def)
  show "\<forall>pid. 2 \<le> unat pid \<and> pid < bp_next_page_id (calm p) \<longrightarrow> page_kept (bp_pager (calm p)) c pid"
  proof (intro allI impI, elim conjE)
    fix pid :: u32
    assume "2 \<le> unat pid" "pid < bp_next_page_id (calm p)"
    then have fr: "page_frozen (bp_pager p) pg pid" using frozen st by (simp add: settled_def)
    let ?off = "unat (file_offset (bp_pager p) pid)" and ?n = "bytes_usize (p_page_size (bp_pager p))"
    have "?off + ?n \<le> length c \<and> slice c ?off ?n = slice (f_durable (pool_file p)) ?off ?n"
      if "?off + ?n \<le> length (f_durable (pool_file p))"
    proof -
      have f: "?off + ?n \<le> length (f_durable (p_file pg))" "untouched (f_pending (p_file pg)) ?off ?n"
        "slice (f_durable (p_file pg)) ?off ?n = slice (f_durable (pool_file p)) ?off ?n"
        using fr that by (simp_all add: page_frozen_def Let_def)
      moreover have "length (f_durable (p_file pg)) \<le> length c" using crash by (simp add: crash_image_def)
      ultimately show ?thesis using crash_image_untouched [OF crash f(2,1)] by simp
    qed
    then show "page_kept (bp_pager (calm p)) c pid"
      by (simp add: page_kept_def Let_def page_in_file_def page_at_def dur)
  qed
qed

lemma settled_inv: "settled xxh p t M \<Longrightarrow> pager_inv xxh (bp_pager p)"
  by (simp add: settled_def)

lemma recovers_committed:
  assumes "settled xxh p t M" "keeps_committed xxh (bp_pager p) pg" "crash_image (p_file pg) c"
  shows "recovers xxh path c M"
proof -
  have k: "pager_inv xxh pg" "same_pager (bp_pager p) pg" using assms(2) by (simp_all add: keeps_committed_def)
  have "slots_ok xxh c (p_active_slot pg) (meta_of pg)" by (rule pager_inv_crash [OF k(1) assms(3)])
  then show ?thesis
    using assms by (intro recovers_frozen [where pg = pg]) (auto simp: keeps_committed_def same_pager_sel [OF k(2)])
qed

lemma committed_refl:
  assumes "settled xxh p t M"
  shows "keeps_committed xxh (bp_pager p) (bp_pager p)"
  using assms settled_inv [OF assms] by (simp add: keeps_committed_def page_frozen_def settled_def Let_def)

section \<open>The commit\<close>

text \<open>
  What the checksum is relied on for, at the next commit: a meta slot torn between its old bytes
  and those of the next transaction does not verify.
\<close>

definition torn_safe :: "(bytes \<Rightarrow> u64) \<Rightarrow> pager \<Rightarrow> bool" where
  "torn_safe xxh pg \<longleftrightarrow> (\<forall>root count.
     torn_detected xxh (slice (f_durable (p_file pg)) (slot_pos (1 - p_active_slot pg)) 4096)
       (encoded_slot xxh (next_meta pg root count)))"

lemma torn_safe_committed:
  assumes "torn_safe xxh pg0" "keeps_committed xxh pg0 pg"
  shows "torn_safe xxh pg"
proof -
  have k: "pager_inv xxh pg" "same_pager pg0 pg"
    "slice (f_durable (p_file pg)) 0 8192 = slice (f_durable (p_file pg0)) 0 8192"
    using assms(2) by (simp_all add: keeps_committed_def)
  have act: "p_active_slot pg \<in> {0, 1}" using k(1) by (simp add: pager_inv_def)
  have "slice (f_durable (p_file pg)) lo 4096 = slice (f_durable (p_file pg0)) lo 4096" if "lo + 4096 \<le> 8192" for lo
  proof -
    have part: "slice d lo 4096 = take 4096 (drop lo (slice d 0 8192))" for d :: bytes
      using that by (simp add: slice_def take_drop min_def)
    show ?thesis unfolding part k(3) ..
  qed
  moreover have "next_meta pg = next_meta pg0" by (intro ext) (simp add: next_meta_def same_pager_sel [OF k(2)])
  ultimately show ?thesis
    using assms(1) slot_regions(2) [OF conjunct1 [OF u8_slot_flip [OF act]]]
    by (simp add: torn_safe_def same_pager_sel [OF k(2)])
qed

lemma pager_commit_calm:
  assumes "p_active_slot pg \<in> {0, 1}"
  obtains pg' where "pager_commit xxh root count (calm_pager pg) = (Inr (), pg')" "meta_of pg' = next_meta pg root count"
    "f_durable (p_file pg') = overwrite (contents (p_file pg)) (slot_pos (1 - p_active_slot pg))
         (encoded_slot xxh (next_meta pg root count))" "f_pending (p_file pg') = []"
proof -
  have "fault_free (p_file (calm_pager pg))" by simp
  then obtain pg' where c: "pager_commit xxh root count (calm_pager pg) = (Inr (), pg')"
    by (rule pager_commit_fault_free)
  have n: "next_meta (calm_pager pg) root count = next_meta pg root count" by (simp add: next_meta_def)
  have "p_active_slot (calm_pager pg) \<in> {0, 1}" using assms by simp
  with c show thesis
  proof (cases rule: pager_commit_outcomes)
    case committed
    then show thesis by (intro that [OF c]) (simp_all add: n)
  qed simp_all
qed

lemma page_frozen_contents:
  assumes "page_frozen pg0 pg pid" "f_durable (p_file pg') = contents (p_file pg)"
    and "f_pending (p_file pg') = [(off, bs)]" "off + length bs \<le> 8192" "valid_page_size (page_bytes (p_page_size pg0))"
  shows "page_frozen pg0 pg' pid"
proof -
  have "8192 \<le> unat (file_offset pg0 pid)" using unat_file_offset [OF assms(5)] by simp
  then show ?thesis
    using assms(1-4) contents_untouched [of "f_pending (p_file pg)" _ _ "f_durable (p_file pg)"]
    by (auto simp: page_frozen_def Let_def contents_def untouched_def)
qed

text \<open>
  A commit of what a call has written, from a pool all of whose writes are to new pages: a crash
  leaves the old transaction or, if the last write got through, the new one.
\<close>

lemma commit_recovers:
  assumes st: "settled xxh p t M" and torn: "torn_safe xxh (bp_pager p)" and txn: "p_txn_id (bp_pager p) \<noteq> - 1"
    and safe: "committed_stable.safe xxh (bp_pager p) p1" and c: "pool_commit xxh root p1 = (r, p')"
    and new: "\<And>q. pool_commit xxh root (calm p1) = (Inr (), q) \<Longrightarrow> settled xxh q t' M'"
    and crash: "crash_image (pool_file p') c"
  shows "recovers xxh path c M' \<or> r \<noteq> Inr () \<and> recovers xxh path c M"
proof -
  let ?base = "bp_pager p"
  obtain rf pf where fl: "flush_all_dirty xxh p1 = (rf, pf)" by fastforce
  have keep: "keeps_committed xxh ?base (bp_pager pf)"
    using committed_stable.flush_all_dirty_safe [OF safe fl] by (simp add: committed_stable.safe_def)
  show ?thesis
  proof (cases rf)
    case (Inl e)
    then have "r = Inl e" "p' = pf" using c fl by (simp_all add: pool_commit_def sbind_def)
    then show ?thesis using recovers_committed [OF st keep] crash by simp
  next
    case (Inr u)
    let ?pg = "bp_pager pf" and ?count = "bp_next_page_id pf"
    let ?pos = "slot_pos (1 - p_active_slot (bp_pager pf))" and ?slot = "encoded_slot xxh (next_meta (bp_pager pf) root (bp_next_page_id pf))"
    have k: "pager_inv xxh ?pg" "same_pager ?base ?pg" using keep by (simp_all add: keeps_committed_def)
    have txn': "p_txn_id ?pg \<noteq> - 1" unfolding same_pager_sel(4) [OF k(2)] by (rule txn)
    note act = pager_inv_active(1) [OF k(1)]
    have pos: "?pos + length (take n ?slot) \<le> 8192" for n
      using slot_regions(2) [OF conjunct1 [OF u8_slot_flip [OF act]]] by simp
    have v: "valid_page_size (page_bytes (p_page_size ?base))"
      using pager_inv_active(2) [OF settled_inv [OF st]] .
    have meta: "meta_of ?pg = meta_of ?base" using same_pager_sel(7) [OF k(2)] .
    obtain pg' where pc: "pager_commit xxh root ?count ?pg = (r, pg')" "p' = pf\<lparr>bp_pager := pg'\<rparr>"
      using c fl Inr by (cases "pager_commit xxh root ?count ?pg") (simp add: pool_commit_def sbind_def)
    obtain pgc where cc: "pager_commit xxh root ?count (calm_pager ?pg) = (Inr (), pgc)" "meta_of pgc = next_meta ?pg root ?count"
      "f_durable (p_file pgc) = overwrite (contents (p_file ?pg)) ?pos ?slot" "f_pending (p_file pgc) = []"
      by (rule pager_commit_calm [OF act])
    have "flush_all_dirty xxh (calm p1) = (Inr u, calm pf)" using csim_okD [OF ssim_flush_all_dirty] fl Inr by blast
    then have "pool_commit xxh root (calm p1) = (Inr (), pf\<lparr>bp_pager := pgc\<rparr>)"
      using cc(1) by (simp add: pool_commit_def sbind_def calm_def)
    note q = new [OF this]
    have opens_new: "recovers xxh path c M'"
      if slots: "slots_ok xxh c s (next_meta ?pg root ?count)"
        and data: "\<forall>lo n. 8192 \<le> lo \<and> lo + n \<le> length (contents (p_file ?pg)) \<longrightarrow>
          lo + n \<le> length c \<and> slice c lo n = slice (contents (p_file ?pg)) lo n" for s
    proof (rule recovers_pages [where p = "calm (pf\<lparr>bp_pager := pgc\<rparr>)" and s = s and t = t'])
      have ps: "p_page_size pgc = p_page_size ?pg" using arg_cong [OF cc(2), of mc_page_size] by simp
      have cont: "contents (p_file pgc) = overwrite (contents (p_file ?pg)) ?pos ?slot" by (simp add: contents_synced cc(3,4))
      have len: "length (contents (p_file pgc)) = length (contents (p_file ?pg))"
        using pos [of 4096] pager_inv_length [OF k(1)] by (simp add: cont length_overwrite)
      show "\<forall>pid. 2 \<le> unat pid \<and> pid < bp_next_page_id (calm (pf\<lparr>bp_pager := pgc\<rparr>)) \<longrightarrow>
          page_kept (bp_pager (calm (pf\<lparr>bp_pager := pgc\<rparr>))) c pid"
      proof (intro allI impI)
        fix pid :: u32
        let ?off = "unat (file_offset pgc pid)" and ?n = "bytes_usize (p_page_size pgc)"
        have off: "8192 \<le> ?off" using unat_file_offset [of pgc pid] pager_inv_active(2) [OF k(1)] by (simp add: ps)
        have "?off + ?n \<le> length c \<and> slice c ?off ?n = slice (contents (p_file pgc)) ?off ?n"
          if "?off + ?n \<le> length (contents (p_file pgc))"
        proof -
          have "slice (contents (p_file pgc)) ?off ?n = slice (contents (p_file ?pg)) ?off ?n"
            unfolding cont using that off pos [of 4096] len by (intro slice_overwrite_other) auto
          then show ?thesis using data that off by (simp add: len)
        qed
        then show "page_kept (bp_pager (calm (pf\<lparr>bp_pager := pgc\<rparr>))) c pid"
          by (simp add: page_kept_def Let_def page_in_file_def page_at_def)
      qed
    qed (use q slots cc(2) in \<open>simp_all add: settled_def\<close>)
    have opens_old: "recovers xxh path c M"
      if "slots_ok xxh c s (meta_of ?pg)" "\<forall>pid. page_frozen ?base ?pg pid \<longrightarrow> page_frozen ?base pg' pid" for s
      using recovers_frozen [OF st, of c s pg'] that crash keep meta pc(2) by (simp add: keeps_committed_def)
    show ?thesis
      using pc(1) act
    proof (cases rule: pager_commit_outcomes)
      case (unsynced e)
      have same: "same_pager ?pg pg'" using unsynced(2) by (simp add: same_pager_def)
      have "pager_inv xxh pg'" using k(1) unsynced(3,4) by (simp add: pager_inv_def same_pager_sel [OF same])
      then have "keeps_committed xxh ?base pg'"
        using keep same_pager_trans [OF k(2) same] page_frozen_same_file [OF _ unsynced(3,4)]
        by (simp add: keeps_committed_def unsynced(3))
      then show ?thesis using recovers_committed [OF st] crash unsynced(1) pc(2) by simp
    next
      case (torn e cut)
      have fr: "\<forall>pid. page_frozen ?base ?pg pid \<longrightarrow> page_frozen ?base pg' pid"
        using page_frozen_contents [OF _ torn(3,4) pos v] by blast
      have data: "lo + n \<le> length c \<and> slice c lo n = slice (contents (p_file ?pg)) lo n"
        if "8192 \<le> lo" "lo + n \<le> length (contents (p_file ?pg))" for lo n
        using crash_image_untouched [of "p_file pg'" c lo n] crash that pos [of cut] torn(3,4) pc(2)
        by (auto simp: untouched_def crash_image_def)
      have tsafe: "torn_detected xxh (slice (f_durable (p_file ?pg)) (slot_pos (1 - p_active_slot ?pg)) 4096) ?slot"
        using torn_safe_committed [OF assms(2) keep] by (simp add: torn_safe_def)
      have "slots_ok xxh c (p_active_slot ?pg) (meta_of ?pg) \<or> slots_ok xxh c (1 - p_active_slot ?pg) (next_meta ?pg root ?count)"
        by (rule torn_commit_slots [OF k(1) txn' tsafe torn(3,4)]) (use crash pc(2) in simp)
      then show ?thesis using opens_old [OF _ fr] opens_new data torn(1) by blast
    next
      case committed
      note inv = commit_keeps_inv [OF k(1) txn' pc(1) [unfolded committed(1)]]
      have c': "c = contents (p_file pg')" using crash_image_synced [OF committed(5)] crash pc(2) by simp
      have "slots_ok xxh c (p_active_slot pg') (next_meta ?pg root ?count)"
        using pager_inv_crash [OF inv(1)] crash pc(2) inv(2) by simp
      then show ?thesis using opens_new inv(5) unfolding c' by blast
    qed
  qed
qed

end
