(* ===== verification/Call_Work.thy ===== *)
theory Call_Work
  imports Session Stable_Ops
begin

text \<open>
  The shape of a call. A writing call is some work that takes new page ids, followed by a commit
  (\<open>ends\<close>), and each call is brought into that form within the locale \<open>writing\<close>; a reading
  call takes no page id. What is proved of the form under faults, crashes and damage then holds for
  every call.
\<close>

section \<open>Work and its commit\<close>

definition committing :: "(bytes \<Rightarrow> u64) \<Rightarrow> (u32 \<times> 'a) pdmethod \<Rightarrow> 'a pdmethod" where
  "committing xxh work = dbind work (\<lambda>(root, a). dbind (dlift (pool_commit xxh root)) (\<lambda>_. dpure (Inr a)))"

lemma dbind_assoc: "dbind (dbind m f) g = dbind m (\<lambda>a. dbind (f a) g)"
proof (rule ext)
  fix s
  show "dbind (dbind m f) g s = dbind m (\<lambda>a. dbind (f a) g) s"
    by (cases "m s") (auto simp: dbind_def split: sum.split prod.split)
qed

lemma committing_bind: "committing xxh (dbind m f) = dbind m (\<lambda>a. committing xxh (f a))"
  by (simp add: committing_def dbind_assoc)

lemma committing_pure: "committing xxh (dpure (Inr (root, a))) = dbind (dlift (pool_commit xxh root)) (\<lambda>_. dpure (Inr a))"
  and committing_err: "committing xxh (dpure (Inl e)) = dpure (Inl e)"
  by (auto simp: fun_eq_iff committing_def dpure_def dbind_def)

lemma committing_map: "dbind (committing xxh work) (\<lambda>a. dpure (Inr (f a))) =
    committing xxh (dbind work (\<lambda>(root, a). dpure (Inr (root, f a))))"
  unfolding committing_bind unfolding committing_def dbind_assoc
  by (rule arg_cong [of _ _ "dbind work"]) (auto simp: fun_eq_iff dbind_assoc committing_def dbind_def dpure_def dlift_def split: sum.split prod.split)

text \<open>The work of a call, done; its commit is what is left.\<close>

lemma committing_Inl: "work p = Some (Inl e, p1) \<Longrightarrow> committing xxh work p = Some (Inl e, p1)"
  by (simp add: committing_def dbind_err)

lemma committing_Inr:
  assumes "work p = Some (Inr (root, a), p1)" "pool_commit xxh root p1 = (r, p')"
  shows "committing xxh work p = Some (case r of Inl e \<Rightarrow> Inl e | Inr _ \<Rightarrow> Inr a, p')"
  using assms by (simp add: committing_def dbind_ok dbind_def dlift_def dpure_def split: sum.split)

text \<open>A path of at most \<open>h + 1\<close> pages; a longer one does not occur and is cut off.\<close>

definition short_path :: "nat \<Rightarrow> ('x \<Rightarrow> u32 list) \<Rightarrow> ('x \<Rightarrow> 'a pdmethod) \<Rightarrow> 'x \<Rightarrow> 'a pdmethod" where
  "short_path h path f x = (if length (path x) \<le> Suc h then f x else dpure (Inl (Fatal PoolInvariantViolated)))"

definition pool_call :: "(bytes \<Rightarrow> u64) \<Rightarrow> kv_op \<Rightarrow> kv_reply pdmethod" where
  "pool_call xxh op =
     (case op of
        OpInsert key row \<Rightarrow> dbind (btree_insert xxh key row) (\<lambda>_. dpure (Inr Done))
      | OpGet key \<Rightarrow> dbind (btree_get xxh key) (\<lambda>found. dpure (Inr (Found found)))
      | OpUpdate key row \<Rightarrow> dbind (btree_update xxh key row) (\<lambda>_. dpure (Inr Done))
      | OpDelete key \<Rightarrow> dbind (btree_delete xxh key) (\<lambda>removed. dpure (Inr (Deleted (snd removed))))
      | OpScan \<Rightarrow> dbind (btree_scan xxh) (\<lambda>rs. dpure (Inr (Rows rs))))"

lemma on_pool_map:
  "dbind (on_pool m) (\<lambda>a. dpure (Inr (f a))) db =
     map_option (\<lambda>q. (fst q, db\<lparr>db_pool := snd q\<rparr>)) (dbind m (\<lambda>a. dpure (Inr (f a))) (db_pool db))"
  by (cases "m (db_pool db)") (auto simp: on_pool_def dbind_def dpure_def split: sum.split prod.split)

lemma db_call_pool:
  "db_call xxh op db = map_option (\<lambda>q. (fst q, db\<lparr>db_pool := snd q\<rparr>)) (pool_call xxh op (db_pool db))"
  unfolding db_call_def pool_call_def db_insert_def db_get_def db_update_def db_delete_def db_scan_def
  by (cases op) (simp_all add: dbind_assoc on_pool_map case_prod_unfold dbind_dpure_Inr [abs_def])

context reading
begin

lemma tracks_reading: "\<not> op_writes op \<Longrightarrow> tracks 0 (pool_call xxh op)"
  by (cases op) (auto simp: op_writes_def pool_call_def intro!: like_read tracks_btree_get tracks_btree_scan like_dpure)

end

context writing
begin

section \<open>Work that ends in a commit\<close>

definition ends :: "nat \<Rightarrow> 'a pdmethod \<Rightarrow> bool" where
  "ends k m \<longleftrightarrow> (\<exists>work. tracks k work \<and> (\<forall>p q. R k p q \<longrightarrow> m p = committing xxh work p))"

lemma endsI: "tracks k work \<Longrightarrow> (\<And>p q. R k p q \<Longrightarrow> m p = committing xxh work p) \<Longrightarrow> ends k m"
  unfolding ends_def by blast

lemma ends_commit: "ends k (dbind (dlift (pool_commit xxh root)) (\<lambda>_. dpure (Inr a)))"
  by (rule endsI [of _ "dpure (Inr (root, a))"]) (simp_all only: committing_pure like_dpure)

lemma ends_err: "ends k (dpure (Inl e))"
  by (rule endsI [of _ "dpure (Inl e)"]) (simp_all only: committing_err like_dpure)

lemma ends_then:
  assumes m: "tracks j m" "yields Q m" and f: "\<And>a. Q a \<Longrightarrow> ends k (f a)"
  shows "ends (j + k) (dbind m f)"
proof -
  have "\<forall>a. \<exists>w. Q a \<longrightarrow> tracks k w \<and> (\<forall>p q. R k p q \<longrightarrow> f a p = committing xxh w p)"
    using f unfolding ends_def by blast
  then obtain w where w: "\<And>a. Q a \<Longrightarrow> tracks k (w a)" "\<And>a p q. Q a \<Longrightarrow> R k p q \<Longrightarrow> f a p = committing xxh (w a) p"
    by metis
  let ?v = "\<lambda>a. if Q a then w a else dpure (Inl (Fatal PoolInvariantViolated))"
  show ?thesis
  proof (rule endsI)
    show "tracks (j + k) (dbind m ?v)" by (rule like_then [OF m]) (simp add: w(1))
    fix p q
    assume "R (j + k) p q"
    then have R: "R (k + j) p q" by (simp add: add.commute)
    show "dbind m f p = committing xxh (dbind m ?v) p"
    proof (cases "m p")
      case None
      then show ?thesis by (simp add: committing_bind dbind_def)
    next
      case (Some y)
      obtain r p1 where y: "y = (r, p1)" by fastforce
      show ?thesis
      proof (cases r)
        case (Inl e)
        then show ?thesis using Some y by (simp add: committing_bind dbind_err)
      next
        case (Inr a)
        then have a: "m p = Some (Inr a, p1)" using Some y by simp
        have "Q a" using yieldsD [OF m(2) R a] .
        moreover obtain q1 where "R k p1 q1" by (rule tracksE [OF m(1) R a])
        ultimately show ?thesis using w(2) a by (simp add: committing_bind dbind_ok)
      qed
    qed
  qed
qed

lemma ends_bind: "tracks j m \<Longrightarrow> (\<And>a. ends k (f a)) \<Longrightarrow> ends (j + k) (dbind m f)"
  by (rule ends_then [OF _ yields_any])

lemma ends_read: "tracks 0 m \<Longrightarrow> (\<And>a. ends k (f a)) \<Longrightarrow> ends k (dbind m f)"
  using ends_bind [of 0 m k f] by simp

lemma ends_pure: "(\<And>a. r = Inr a \<Longrightarrow> ends k (f a)) \<Longrightarrow> ends k (dbind (dpure r) f)"
  using ends_then [OF like_dpure yields_dpure, of r k f 0] by simp

lemma ends_get:
  "(\<And>buf. length buf = bytes_usize ps \<Longrightarrow> ends k (f buf)) \<Longrightarrow> ends k (dbind (dlift (pool_get xxh pid)) f)"
  using ends_then [OF like_get yields_get, of k f pid] by simp

lemma ends_le: "ends k m \<Longrightarrow> k \<le> n \<Longrightarrow> ends n m"
  unfolding ends_def using like_le fewer [of k "n - k"] by (metis le_add_diff_inverse)

lemma ends_if: "(P \<Longrightarrow> ends k m) \<Longrightarrow> (\<not> P \<Longrightarrow> ends k m') \<Longrightarrow> ends k (if P then m else m')"
  by simp

lemma ends_prod: "(\<And>a b. q = (a, b) \<Longrightarrow> ends k (g a b)) \<Longrightarrow> ends k (case q of (a, b) \<Rightarrow> g a b)"
  by (cases q) simp

lemma ends_page_size:
  assumes "ends k (m ps)"
  shows "ends k (\<lambda>p. m (pool_page_size p) p)"
proof -
  from assms obtain w where w: "tracks k w" "\<And>p q. R k p q \<Longrightarrow> m ps p = committing xxh w p"
    unfolding ends_def by blast
  show ?thesis by (rule endsI [OF w(1)]) (use w(2) one_size in auto)
qed

lemma ends_map:
  assumes "ends k m"
  shows "ends k (dbind m (\<lambda>a. dpure (Inr (f a))))"
proof -
  from assms obtain w where w: "tracks k w" "\<And>p q. R k p q \<Longrightarrow> m p = committing xxh w p"
    unfolding ends_def by blast
  let ?w = "dbind w (\<lambda>(root, a). dpure (Inr (root, f a)))"
  have "tracks (k + 0) ?w" by (intro like_dbind [OF w(1)] like_cases(2) like_dpure)
  then have "tracks k ?w" by simp
  from endsI [OF this] show ?thesis
    using w(2) by (simp add: committing_map [symmetric] dbind_def)
qed

lemma ends_put:
  "length buf = bytes_usize ps \<Longrightarrow> (\<And>pid. ends k (f pid)) \<Longrightarrow> ends (Suc k) (dbind (dlift (put_page xxh buf)) f)"
  unfolding Suc_eq_plus1_left by (rule ends_bind [OF tracks_put])

lemmas ends_rules = ends_pure ends_get ends_prod

lemma ends_write_tail:
  assumes "length path \<le> Suc h"
  shows "ends (2 * h + 1) (write_tail xxh path leaf_id result)"
proof -
  have "2 * length (path_ancestors path) \<le> 2 * h" using assms by (simp add: path_ancestors_def)
  note p = like_le [OF tracks_propagate this]
  show ?thesis unfolding write_tail_def
    by (rule ends_bind [OF p]) (use ends_bind [OF tracks_finalize_root ends_commit, of 0] in simp)
qed

lemma ends_short: "(length (path x) \<le> Suc h \<Longrightarrow> ends k (f x)) \<Longrightarrow> ends k (short_path h path f x)"
  unfolding short_path_def by (intro ends_if ends_err)

text \<open>\<open>m\<close> has this form when it is called on \<open>p\<close> or on its partner \<open>q\<close>.\<close>

definition ends_at :: "nat \<Rightarrow> 'a pdmethod \<Rightarrow> pool \<Rightarrow> pool \<Rightarrow> bool" where
  "ends_at k m p q \<longleftrightarrow> (\<exists>m'. ends k m' \<and> m p = m' p \<and> m q = m' q)"

lemma ends_at_map: "ends_at k m p q \<Longrightarrow> ends_at k (dbind m (\<lambda>a. dpure (Inr (f a)))) p q"
proof -
  assume "ends_at k m p q"
  then obtain m' where m: "ends k m'" "m p = m' p" "m q = m' q"
    unfolding ends_at_def by blast
  show ?thesis unfolding ends_at_def
    by (rule exI [of _ "dbind m' (\<lambda>a. dpure (Inr (f a)))"])
      (simp add: ends_map [OF m(1)] dbind_def m(2,3))
qed

lemma ends_at_work:
  assumes "ends_at k m p q" "R k p q"
  obtains work where "tracks k work" "m p = committing xxh work p" "m q = committing xxh work q"
  using assms(1) assms(2) sane [OF assms(2)] unfolding ends_at_def ends_def by metis

lemma short_path_eq:
  assumes "tracks 0 w" "R n p q" "\<forall>x q'. w q = Some (Inr x, q') \<longrightarrow> length (path x) \<le> Suc h"
  shows "dbind w f p = dbind w (short_path h path f) p" "dbind w f q = dbind w (short_path h path f) q"
proof -
  have "length (path x) \<le> Suc h" if w: "w p = Some (Inr x, p')" for x p'
  proof -
    obtain q' where "w q = Some (Inr x, q')" using tracksE [OF assms(1) _ w, of n q] assms(2) by auto
    then show ?thesis using assms(3) by blast
  qed
  then show "dbind w f p = dbind w (short_path h path f) p"
    by (cases "w p") (auto simp: dbind_def short_path_def split: sum.split)
  show "dbind w f q = dbind w (short_path h path f) q"
    using assms(3) by (cases "w q") (auto simp: dbind_def short_path_def split: sum.split)
qed

end

section \<open>Paths\<close>

text \<open>The descents from the root visit at most \<open>h + 1\<close> pages.\<close>

definition short_paths :: "(bytes \<Rightarrow> u64) \<Rightarrow> nat \<Rightarrow> pool \<Rightarrow> bool" where
  "short_paths xxh h p \<longleftrightarrow> (\<forall>key path q. pool_root_page_id p \<noteq> EMPTY_TREE_ROOT \<longrightarrow>
     descend_path xxh (pool_root_page_id p) key p = Some (Inr path, q) \<longrightarrow> length path \<le> Suc h)"

lemma represents_short:
  assumes "represents xxh p t M"
  shows "short_paths xxh (height_of t) p"
  using assms
proof (cases rule: represents_cases)
  case empty
  then show ?thesis by (simp add: short_paths_def)
next
  case (tree u)
  have u: "store_inv xxh p" "tree_ok xxh p KEY_MIN KEY_END u" "pool_root_page_id p = root_id u"
    using assms tree(1) by (simp_all add: represents_def)
  have "length path \<le> Suc (height u)" if d: "descend_path xxh (root_id u) key p = Some (Inr path, q)" for key path q
  proof -
    obtain p1 where "descend_path xxh (root_id u) key p = Some (Inr (path_ids key u), p1)"
      using locate_leaf [OF u(1,2), of key] by blast
    then show ?thesis using d by (simp add: path_ids_height)
  qed
  then show ?thesis using tree(1) u(3) by (simp add: short_paths_def height_of_def)
qed

lemma find_key_short:
  assumes "short_paths xxh h p" "find_key xxh key p = Some (Inr x, q)"
  shows "length (fst x) \<le> Suc h"
proof (cases "pool_root_page_id p = EMPTY_TREE_ROOT")
  case True
  then show ?thesis using assms(2) by (simp add: find_key_def)
next
  case False
  then have "dbind (descend_path xxh (pool_root_page_id p) key) (\<lambda>path.
        dbind (dpure (path_leaf path)) (\<lambda>leaf_id.
        dbind (dlift (pool_get xxh leaf_id)) (\<lambda>leaf_buf.
        dbind (dpure (leaf_search leaf_buf key)) (\<lambda>found.
        dbind (dpure (case found of
                        Inr idx \<Rightarrow> Inr idx
                      | Inl _ \<Rightarrow> Inl (Permanent (KeyNotFound key)))) (\<lambda>idx.
          dpure (Inr (path, leaf_id, leaf_buf, idx))))))) p = Some (Inr x, q)"
    using assms(2) by (simp add: find_key_def)
  then obtain path p1 where "descend_path xxh (pool_root_page_id p) key p = Some (Inr path, p1)" "fst x = path"
    by (auto elim!: dbind_cases simp: dpure_def)
  then show ?thesis using assms(1) False unfolding short_paths_def by blast
qed

context writing
begin

section \<open>The writing operations\<close>

lemma insert_ends:
  assumes "short_paths xxh h q" "R n p q"
  shows "ends_at (length (row_bytes row) + 2 * h + 3) (btree_insert xxh key row) p q"
proof (cases "pool_root_page_id p = EMPTY_TREE_ROOT")
  case True
  let ?m = "dbind (build_row_cell xxh key row) (\<lambda>cell p.
        dbind (dpure (init_leaf (replicate (bytes_usize (pool_page_size p)) 0))) (\<lambda>buf.
        dbind (dpure (insert_cell_at buf LEAF_HEADER_LEN 0 cell)) (\<lambda>buf.
        dbind (dlift (put_page xxh buf)) (\<lambda>pid.
        dbind (dlift (pool_commit xxh pid)) (\<lambda>_.
          dpure (Inr pid))))) p)"
  have "ends (length (row_bytes row) + Suc 0) ?m"
    by (rule ends_bind [OF tracks_build_row_cell],
        rule ends_page_size, intro ends_rules ends_put ends_commit) (auto dest!: keeps_length)
  from ends_le [OF this, of "length (row_bytes row) + 2 * h + 3"]
  show ?thesis using True same_root [OF assms(2)] unfolding ends_at_def
    by (intro exI [of _ ?m]) (simp add: btree_insert_def)
next
  case False
  let ?root = "pool_root_page_id p"
  let ?body = "\<lambda>path. dbind (dpure (path_leaf path)) (\<lambda>leaf_id.
        dbind (dlift (pool_get xxh leaf_id)) (\<lambda>leaf_buf.
        dbind (dpure (leaf_search leaf_buf key)) (\<lambda>found.
        dbind (dpure (case found of
                        Inr _ \<Rightarrow> Inl (Permanent (KeyAlreadyExists key))
                      | Inl idx \<Rightarrow> Inr idx)) (\<lambda>insert_idx.
        dbind (build_row_cell xxh key row) (\<lambda>cell.
        dbind (dlift (leaf_insert_or_split xxh leaf_buf insert_idx cell)) (\<lambda>result.
          write_tail xxh path leaf_id result))))))"
  let ?m = "dbind (descend_path xxh ?root key) (short_path h (\<lambda>path. path) ?body)"
  have cost: "ends (length (row_bytes row) + (2 + (2 * h + 1))) ?m"
    by (intro ends_read [OF tracks_descend_path] ends_short ends_rules ends_bind [OF tracks_build_row_cell]
        ends_bind [OF tracks_leaf_insert_or_split] ends_write_tail)
  have root: "pool_root_page_id q = ?root" by (rule same_root [OF assms(2)])
  have "\<forall>path q'. descend_path xxh ?root key q = Some (Inr path, q') \<longrightarrow> length path \<le> Suc h"
    using assms(1) False root by (simp add: short_paths_def)
  note eq = short_path_eq [OF tracks_descend_path assms(2) this, of ?body]
  have "btree_insert xxh key row p' = dbind (descend_path xxh ?root key) ?body p'" if "p' \<in> {p, q}" for p'
    using that False root by (auto simp: btree_insert_def write_tail_def)
  then show ?thesis
    using cost eq unfolding ends_at_def by (intro exI [of _ ?m]) (simp add: numeral_eq_Suc)
qed

lemma find_key_ends:
  assumes "short_paths xxh h q" "R n p q"
    and "\<And>path leaf_id buf idx. length path \<le> Suc h \<Longrightarrow> length buf = bytes_usize ps \<Longrightarrow>
      ends k (g path leaf_id buf idx)"
  shows "ends_at k (dbind (find_key xxh key) (\<lambda>(path, leaf_id, buf, idx). g path leaf_id buf idx)) p q"
proof -
  let ?f = "\<lambda>(path, leaf_id, buf, idx). g path leaf_id buf idx"
  let ?m = "dbind (find_key xxh key) (short_path h fst ?f)"
  have "ends (0 + k) ?m"
  proof (rule ends_then [OF tracks_find_key yields_find_key])
    fix x :: "u32 list \<times> u32 \<times> bytes \<times> nat"
    assume "case x of (path, leaf_id, buf, idx) \<Rightarrow> length buf = bytes_usize ps"
    then show "ends k (short_path h fst ?f x)"
      using assms(3) by (cases x) (rule ends_short, simp)
  qed
  then have "ends k ?m" by simp
  moreover have "\<forall>x q'. find_key xxh key q = Some (Inr x, q') \<longrightarrow> length (fst x) \<le> Suc h"
    using find_key_short [OF assms(1)] by blast
  ultimately show ?thesis
    using short_path_eq [OF tracks_find_key assms(2), where path = fst and f = ?f] unfolding ends_at_def by blast
qed

lemma update_ends:
  assumes "short_paths xxh h q" "R n p q"
  shows "ends_at (length (row_bytes row) + 2 * h + 3) (btree_update xxh key row) p q"
proof -
  have "ends (length (row_bytes row) + (2 + (2 * h + 1)))
     (dbind (build_row_cell xxh key row) (\<lambda>new_cell.
     dbind (dpure (remove_cell_at leaf_buf LEAF_HEADER_LEN idx)) (\<lambda>(_, buf).
     dbind (dlift (leaf_insert_or_split xxh buf idx new_cell)) (\<lambda>result. write_tail xxh path leaf_id result))))"
    if "length path \<le> Suc h" "length leaf_buf = bytes_usize ps" for path leaf_id leaf_buf idx
    by (intro ends_rules
          ends_bind [OF tracks_build_row_cell]
          ends_bind [OF tracks_leaf_insert_or_split]
          ends_write_tail that(1)) (auto simp: that(2) dest: keeps_length)
  from find_key_ends [OF assms this] show ?thesis
    by (simp add: btree_update_def write_tail_def [abs_def] numeral_eq_Suc)
qed

lemma delete_ends:
  assumes "short_paths xxh h q" "R n p q"
  shows "ends_at (2 * h + 3) (btree_delete xxh key) p q"
proof -
  let ?tail = "\<lambda>path leaf_id removed_row buf. dbind (dlift (put_page xxh buf)) (\<lambda>new_leaf_id.
      dbind (dlift (propagate xxh (path_ancestors path) leaf_id (Replaced new_leaf_id))) (\<lambda>result.
      dbind (dlift (finalize_root xxh result)) (\<lambda>new_root.
      dbind (dlift (collapse_root_if_needed xxh new_root)) (\<lambda>new_root.
      dbind (dlift (pool_commit xxh new_root)) (\<lambda>_.
        dpure (Inr (new_root, removed_row)))))))"
  let ?f = "\<lambda>max_loc path leaf_id leaf_buf idx.
      dbind (dpure (leaf_cell_at leaf_buf idx max_loc)) (\<lambda>removed_cell.
      dbind (reassemble xxh removed_cell) (\<lambda>removed_full.
      dbind (dpure (row_decode removed_full)) (\<lambda>removed_row.
      dbind (dpure (remove_cell_at leaf_buf LEAF_HEADER_LEN idx)) (\<lambda>(_, buf).
        ?tail path leaf_id removed_row buf))))"
  have "ends (Suc (2 * h + (1 + 0))) (?f (max_local (pool_page_size p)) path leaf_id buf idx)"
    if "length path \<le> Suc h" "length buf = bytes_usize ps" for path leaf_id buf idx
  proof -
    have "2 * length (path_ancestors path) \<le> 2 * h" using that(1) by (simp add: path_ancestors_def)
    note propagate = like_le [OF tracks_propagate this]
    show ?thesis
      by (intro ends_rules ends_read [OF tracks_reassemble] ends_put ends_bind [OF propagate]
          ends_bind [OF tracks_finalize_root] ends_read [OF tracks_collapse_root] ends_commit) (auto simp: that(2) dest: keeps_length)
  qed
  from find_key_ends [OF assms this, where key = key] have
    "ends_at (2 * h + 2) (dbind (find_key xxh key)
      (\<lambda>(path, leaf_id, buf, idx). ?f (max_local (pool_page_size p)) path leaf_id buf idx)) p q" by simp
  then obtain m where m: "ends (2 * h + 2) m" "btree_delete xxh key p = m p" "btree_delete xxh key q = m q"
    unfolding ends_at_def btree_delete_def Let_def same_size [OF assms(2)] by auto
  have "2 * h + 2 \<le> 2 * h + 3" by simp
  from ends_le [OF m(1) this] m(2,3) show ?thesis unfolding ends_at_def by blast
qed

lemma pool_call_ends:
  assumes "short_paths xxh h q" "R n p q" "op_writes op"
  shows "ends_at (op_ids op + 2 * h + 3) (pool_call xxh op) p q"
  using assms(3) insert_ends [OF assms(1,2)] update_ends [OF assms(1,2)] delete_ends [OF assms(1,2)]
  by (cases op) (auto simp: op_writes_def pool_call_def op_ids_def intro: ends_at_map)

text \<open>What a writing call does to two related pools.\<close>

lemma pool_call_work:
  assumes "short_paths xxh h q" "op_writes op" "R (op_ids op + 2 * h + 3) p q"
  obtains work where "tracks (op_ids op + 2 * h + 3) work"
    "pool_call xxh op p = committing xxh work p" "pool_call xxh op q = committing xxh work q"
  by (rule ends_at_work [OF pool_call_ends [OF assms(1,3,2)] assms(3)])

end

section \<open>Calls under faults\<close>

context tree_stable
begin

lemma tracks_calm:
  assumes "tracks k m" "stock k p" "m p = Some (r, p')" "\<not> failed io_failure r"
  shows "m (calm p) = Some (r, calm p')"
  using tracksE [OF assms(1) _ assms(3), of 0 "calm p"] assms(2,4) by auto

lemma tracks_returns:
  assumes "tracks k m" "stock k p" "m (calm p) = Some y"
  obtains r p' where "m p = Some (r, p')" "\<not> failed io_failure r \<longrightarrow> y = (r, calm p')"
proof -
  have "ret k m m" using assms(1) by (simp add: like_def)
  then show thesis using retE [of k m m 0 p "calm p" y] assms(2,3) that by auto
qed

lemma short_calm: "short_paths xxh h (calm p) \<Longrightarrow> sound p \<Longrightarrow> short_paths xxh h p"
  unfolding short_paths_def using tracks_calm [OF tracks_descend_path, of p] by fastforce

lemma committing_returns:
  assumes "tracks k work" "stock k p" "committing xxh work (calm p) = Some y"
  obtains r p' where "committing xxh work p = Some (r, p')" "\<not> failed io_failure r \<longrightarrow> y = (r, calm p')"
proof -
  obtain x where x: "work (calm p) = Some x" using assms(3) by (cases "work (calm p)") (simp_all add: committing_def dbind_def)
  obtain r1 p1 where 1: "work p = Some (r1, p1)" "\<not> failed io_failure r1 \<longrightarrow> x = (r1, calm p1)"
    by (rule tracks_returns [OF assms(1,2) x])
  show thesis
  proof (cases r1)
    case (Inl e)
    then have "committing xxh work p = Some (Inl e, p1)" "\<not> io_failure e \<longrightarrow> y = (Inl e, calm p1)"
      using 1 assms(3) x committing_Inl [of work p e p1 xxh] committing_Inl [of work "calm p" e "calm p1" xxh] by auto
    then show thesis using that by simp
  next
    case (Inr a)
    obtain root b where a: "a = (root, b)" by fastforce
    obtain rc pc where c: "pool_commit xxh root p1 = (rc, pc)" by fastforce
    let ?r = "case rc of Inl e \<Rightarrow> Inl e | Inr _ \<Rightarrow> Inr b"
    have "committing xxh work p = Some (?r, pc)" using committing_Inr [OF _ c] 1(1) by (simp add: Inr a)
    moreover have "y = (?r, calm pc)" if "\<not> failed io_failure ?r"
    proof -
      have "\<not> failed io_failure rc" using that by (cases rc) simp_all
      then have "pool_commit xxh root (calm p1) = (rc, calm pc)" using csimD [OF ssim_pool_commit c] by simp
      then show ?thesis using assms(3) x 1(2) committing_Inr [of work "calm p" root b "calm p1"] by (simp add: Inr a)
    qed
    ultimately show thesis using that by blast
  qed
qed

lemmas reading_costs = tracks_costs [OF tracks_reading]

lemma call_work:
  assumes "represents xxh (calm p) t M" "op_writes op" "stock (op_ids op + 2 * height_of t + 3) p"
  obtains work where "tracks (op_ids op + 2 * height_of t + 3) work"
    "pool_call xxh op p = committing xxh work p" "pool_call xxh op (calm p) = committing xxh work (calm p)"
  by (rule pool_call_work [OF represents_short [OF assms(1)] assms(2)]) (use assms(3) that in auto)

end

end
