(* ===== verification/Recovery.thy ===== *)
theory Recovery
  imports Crash Call_Work
begin

text \<open>
  The calls of the database under faults and crashes: \<open>Crash.commit_recovers\<close> is applied once, to
  the form of \<open>Call_Work\<close>, which covers every call that writes.
\<close>

section \<open>Calls from a settled database\<close>

lemma keeps_committed_calm: "keeps_committed xxh pg0 pg \<Longrightarrow> keeps_committed xxh pg0 (calm_pager pg)"
proof -
  assume K: "keeps_committed xxh pg0 pg"
  have "same_pager pg (calm_pager pg)" by (simp add: same_pager_def calm_pager_def)
  then have "same_pager pg0 (calm_pager pg)" using K same_pager_trans unfolding keeps_committed_def by blast
  moreover have "page_frozen pg0 (calm_pager pg) pid" if "page_frozen pg0 pg pid" for pid
    by (rule page_frozen_same_file [OF that]) simp_all
  ultimately show ?thesis using K by (simp add: keeps_committed_def)
qed

interpretation committed_tree: tree_stable xxh "keeps_committed xxh pg0" "{pid. p_page_count pg0 \<le> pid}"
  "p_page_size pg0" "p_page_count pg0" for xxh pg0
  using same_pager_sel(1) keeps_committed_calm
  by unfold_locales (auto simp: keeps_committed_def pager_inv_def)

text \<open>Every page id from the page count on is writable.\<close>

lemma ids_from:
  assumes "c \<le> n0" "unat (n0 :: u32) + n < 2 ^ 32" "i < n"
  shows "c \<le> n0 + of_nat i"
proof -
  have i: "unat (of_nat i :: u32) = i" using assms(2,3) by (simp add: unat_of_nat take_bit_nat_eq_self)
  then have "unat (n0 + of_nat i) = unat n0 + i"
    using assms(2,3) by (simp add: unat_word_ariths)
  then show ?thesis using assms(1) by (simp add: word_le_nat_alt)
qed

lemma sound_stock:
  assumes "committed_tree.sound xxh pg0 p" "unat (bp_next_page_id p) + n < 2 ^ 32"
  shows "committed_tree.stock xxh pg0 n p"
  using assms ids_from [of "p_page_count pg0" "bp_next_page_id p" n]
  by (auto simp: committed_tree.stock_def committed_tree.sound_def)

lemma sound_keeps: "committed_tree.sound xxh pg0 p \<Longrightarrow> keeps_committed xxh pg0 (bp_pager p)"
  using committed_tree.sound_safe [of xxh pg0 p] by (simp add: committed_stable.safe_def)

lemma settled_sound:
  assumes "settled xxh p t M"
  shows "committed_tree.sound xxh (bp_pager p) p"
proof -
  have "store_ok xxh (calm p)" "bp_dirty p = []" "p_page_count (bp_pager p) \<le> bp_next_page_id p"
    using assms by (simp_all add: settled_def represents_def store_inv_def)
  moreover have "store_ok xxh p" using calculation(1) by (simp add: store_ok_def)
  ultimately show ?thesis
    using committed_refl [OF assms] unfolding committed_tree.sound_def committed_stable.safe_def by simp
qed

lemma settled_stock:
  assumes "settled xxh p t M" "unat (bp_next_page_id p) + n < 2 ^ 32"
  shows "committed_tree.stock xxh (bp_pager p) n p"
  by (rule sound_stock [OF settled_sound [OF assms(1)] assms(2)])

lemma committing_survives:
  assumes st: "settled xxh p t M" and torn: "torn_safe xxh (bp_pager p)" and txn: "p_txn_id (bp_pager p) \<noteq> - 1"
    and ids: "unat (bp_next_page_id p) + k < 2 ^ 32"
    and work: "committed_tree.tracks xxh (bp_pager p) k work" and calm: "committing xxh work (calm p) = Some (r0, p0)"
    and new: "\<And>a. r0 = Inr a \<Longrightarrow> settled xxh p0 t' M'"
  obtains r p' where "committing xxh work p = Some (r, p')" "\<not> failed io_failure r \<longrightarrow> r0 = r \<and> p0 = calm p'"
    "\<forall>c. crash_image (pool_file p') c \<longrightarrow> recovers xxh path c M' \<or> (\<forall>a. r \<noteq> Inr a) \<and> recovers xxh path c M"
proof -
  have stock: "committed_tree.stock xxh (bp_pager p) (0 + k) p" using settled_stock [OF st ids] by simp
  then obtain r p' where r: "committing xxh work p = Some (r, p')" "\<not> failed io_failure r \<longrightarrow> r0 = r \<and> p0 = calm p'"
    using committed_tree.committing_returns [OF work _ calm] by auto
  note costs = committed_tree.tracks_costs [OF work]
  have "recovers xxh path c M' \<or> (\<forall>a. r \<noteq> Inr a) \<and> recovers xxh path c M" if crash: "crash_image (pool_file p') c" for c
    using r(1) unfolding committing_def
  proof (cases rule: dbind_cases)
    case (err e)
    then have "committed_tree.sound xxh (bp_pager p) p'" using committed_tree.costs_sound [OF costs] stock by simp
    then show ?thesis using recovers_committed [OF st sound_keeps crash] err(2) by simp
  next
    case (ok x p1)
    obtain root a where x: "x = (root, a)" by fastforce
    have safe: "committed_stable.safe xxh (bp_pager p) p1"
      using committed_tree.costsD [OF costs stock ok(1)] committed_tree.sound_safe by simp
    obtain rc pc where c: "pool_commit xxh root p1 = (rc, pc)" by fastforce
    then have rc: "p' = pc" "r = (case rc of Inl e \<Rightarrow> Inl e | Inr _ \<Rightarrow> Inr a)"
      using ok(2) x by (auto simp: dbind_def dlift_def dpure_def split: sum.splits)
    have "work (calm p) = Some (Inr x, calm p1)" using committed_tree.tracks_calm [OF work _ ok(1)] stock by simp
    then have "settled xxh q t' M'" if "pool_commit xxh root (calm p1) = (Inr (), q)" for q
      using calm that new [of a] by (simp add: committing_def dbind_ok x dbind_dlift_ok dpure_def)
    from commit_recovers [OF st torn txn safe c this] crash rc show ?thesis by (cases rc) auto
  qed
  with r that show thesis by blast
qed

section \<open>The reading operations\<close>

interpretation clean_tree: tree_stable xxh "\<lambda>pg. pager_inv xxh pg \<and> f_pending (p_file pg) = [] \<and> p_page_size pg = ps" "{}" ps 0
  for xxh ps
proof
  fix pg pg' pid buf and r'' :: "unit presult" and r' :: "bytes presult"
  assume K: "pager_inv xxh pg \<and> f_pending (p_file pg) = [] \<and> p_page_size pg = ps"
  show "read_data_page xxh pid pg = (r', pg') \<Longrightarrow> pager_inv xxh pg' \<and> f_pending (p_file pg') = [] \<and> p_page_size pg' = ps"
    using K read_data_page_keeps_inv [of xxh pid pg r' pg'] read_data_page_result(1,4) [of xxh pid pg r' pg']
      same_pager_sel(1) [of pg pg'] by simp
  show "sync_data pg = (r'', pg') \<Longrightarrow> pager_inv xxh pg' \<and> f_pending (p_file pg') = [] \<and> p_page_size pg' = ps"
    using K sync_data_keeps_inv [of xxh pg r'' pg'] sync_data_result(1,3,4) [of pg r'' pg'] same_pager_sel(1) [of pg pg']
    by (cases "r'' = Inr ()") auto
  show "p_page_size pg = ps \<and> valid_page_size (page_bytes ps)"
    "pager_inv xxh (calm_pager pg) \<and> f_pending (p_file (calm_pager pg)) = [] \<and> p_page_size (calm_pager pg) = ps"
    using K by (auto simp: pager_inv_def)
qed simp

lemma reading_survives:
  assumes st: "settled xxh p t M" and m: "committed_tree.tracks xxh (bp_pager p) 0 m"
      "clean_tree.costs xxh (p_page_size (bp_pager p)) 0 m"
    and calm: "m (calm p) = Some (r0, p0)" "looked_at xxh (calm p) p0"
  obtains r p' where "m p = Some (r, p')" "\<not> failed io_failure r \<longrightarrow> r0 = r" "\<forall>a. r = Inr a \<longrightarrow> settled xxh p' t M"
    "\<forall>c. crash_image (pool_file p') c \<longrightarrow> recovers xxh path c M"
proof -
  have sound: "committed_tree.stock xxh (bp_pager p) 0 p" using settled_sound [OF st] by simp
  from committed_tree.tracks_returns [OF m(1) sound calm(1)] obtain r p' where
    r: "m p = Some (r, p')" "\<not> failed io_failure r \<longrightarrow> r0 = r \<and> p0 = calm p'" by auto
  have clean: "clean_tree.sound xxh (p_page_size (bp_pager p)) p"
    using settled_inv [OF st] st settled_sound [OF st]
    unfolding clean_tree.sound_def clean_tree.safe_def committed_tree.sound_def by (simp add: settled_def)
  have safe: "committed_tree.sound xxh (bp_pager p) p'" "clean_tree.sound xxh (p_page_size (bp_pager p)) p'"
    using committed_tree.costs_sound [OF committed_tree.tracks_costs [OF m(1)] sound r(1)]
      clean_tree.costs_sound [OF m(2) _ r(1)] clean
    by simp_all
  have clean': "pager_inv xxh (bp_pager p')" "f_pending (pool_file p') = []" "bp_dirty p' = []"
    using clean_tree.sound_safe [OF safe(2)] by (simp_all add: clean_tree.safe_def)
  have "recovers xxh path c M" if "crash_image (pool_file p') c" for c
    using recovers_committed [OF st sound_keeps [OF safe(1)] that] .
  moreover have "settled xxh p' t M" if "r = Inr a" for a
  proof -
    have p0: "p0 = calm p'" using r(2) that by simp
    have rep: "represents xxh p0 t M"
      using represents_looked_at [OF _ calm(2)] st by (simp add: settled_def)
    have "same_pager (bp_pager (calm p)) (bp_pager p0)" "bp_next_page_id p0 = bp_next_page_id p"
      using calm(2) by (simp_all add: looked_at_def store.extends_def store_frame_def)
    then have "p_page_count (bp_pager p') = bp_next_page_id p'"
      using same_pager_sel(6) [of "bp_pager (calm p)" "bp_pager p0"] st p0 by (simp add: settled_def)
    then show ?thesis using rep clean' p0 by (simp add: settled_def)
  qed
  ultimately show thesis using that r by blast
qed

section \<open>Every call\<close>

lemma room_for_calm [simp]: "room_for xxh (calm p) t key row = room_for xxh p t key row"
  and ids_left_calm [simp]: "ids_left (calm p) t n = ids_left p t n"
proof -
  have "pool_view xxh (calm p) = pool_view xxh p" by (rule pool_view_cong) simp_all
  then have "store_view xxh (calm p) = store_view xxh p" by (simp add: store_view_def)
  then show "room_for xxh (calm p) t key row = room_for xxh p t key row" "ids_left (calm p) t n = ids_left p t n"
    by (simp_all add: room_for_def ids_left_def row_cell_len_def max_local_of_def split: option.split)
qed

lemma written_settled: "written xxh p p' t M k h C \<Longrightarrow> settled xxh p' (Some t) M"
  by (simp add: written_def settled_def represents_calm)

lemma db_accepts_ids:
  assumes "db_accepts xxh db t op" "op_writes op"
  shows "ids_left (db_pool db) t (op_ids op)"
  using assms by (cases op) (simp_all add: db_accepts_def op_writes_def op_ids_def room_for_def)

text \<open>A call returns whichever I/O calls fail.\<close>

lemma call_returns:
  assumes "settled xxh p t M" "db_accepts xxh \<lparr>db_pool = p\<rparr> t op"
  shows "\<exists>r p'. pool_call xxh op p = Some (r, p')"
proof -
  have rep: "represents xxh (calm p) t M" using assms(1) by (simp add: settled_def)
  have "db_accepts xxh \<lparr>db_pool = calm p\<rparr> t op" using assms(2) by (simp add: db_accepts_def split: kv_op.splits)
  with rep db_call_law [of xxh "\<lparr>db_pool = calm p\<rparr>" t M op] obtain y where
    calm: "pool_call xxh op (calm p) = Some y" by (auto simp: db_call_pool)
  show ?thesis
  proof (cases "op_writes op")
    case True
    let ?k = "op_ids op + 2 * height_of t + 3"
    have "unat (bp_next_page_id p) + ?k < 2 ^ 32"
      using db_accepts_ids [OF assms(2) True] by (simp add: ids_left_def)
    note stock = settled_stock [OF assms(1) this]
    from committed_tree.call_work [OF rep True stock] obtain work where
      w: "committed_tree.tracks xxh (bp_pager p) ?k work" "pool_call xxh op p = committing xxh work p"
        "pool_call xxh op (calm p) = committing xxh work (calm p)" .
    from committed_tree.committing_returns [OF w(1) stock calm [unfolded w(3)]] show ?thesis using w(2) by metis
  next
    case False
    have "committed_tree.stock xxh (bp_pager p) 0 p" using settled_sound [OF assms(1)] by simp
    from committed_tree.tracks_returns [OF committed_tree.tracks_reading [OF False] this calm] show ?thesis by metis
  qed
qed

lemma pool_call_survives:
  assumes st: "settled xxh p t M" and acc: "db_accepts xxh \<lparr>db_pool = p\<rparr> t op" and torn: "torn_safe xxh (bp_pager p)"
  shows "\<exists>r p' r0 M'. pool_call xxh op p = Some (r, p') \<and> kv_step op M r0 M' \<and>
    (\<not> failed io_failure r \<longrightarrow> r0 = r) \<and> (\<forall>a. r = Inr a \<longrightarrow> (\<exists>t'. settled xxh p' t' M')) \<and>
    (\<forall>c. crash_image (pool_file p') c \<longrightarrow> recovers xxh path c M' \<or> (\<forall>a. r \<noteq> Inr a) \<and> recovers xxh path c M)"
proof -
  have rep: "represents xxh (calm p) t M" using st by (simp add: settled_def)
  have "db_accepts xxh \<lparr>db_pool = calm p\<rparr> t op" using acc by (simp add: db_accepts_def split: kv_op.splits)
  with rep db_call_law [of xxh "\<lparr>db_pool = calm p\<rparr>" t M op] obtain r0 p0 t' M' where
    "db_call xxh op \<lparr>db_pool = calm p\<rparr> = Some (r0, \<lparr>db_pool = p0\<rparr>)" and step: "kv_step op M r0 M'"
    and eff: "call_effect xxh op (calm p) t r0 p0 t' M'" by auto
  then have calm: "pool_call xxh op (calm p) = Some (r0, p0)" by (auto simp: db_call_pool)
  show ?thesis
  proof (cases "op_writes op")
    case True
    have ids: "p_txn_id (bp_pager p) \<noteq> - 1" "unat (bp_next_page_id p) + (op_ids op + 2 * height_of t + 3) < 2 ^ 32"
      using db_accepts_ids [OF acc True] by (simp_all add: ids_left_def)
    have new: "settled xxh p0 t' M'" if "r0 = Inr a" for a
      using eff that True written_settled by (auto simp: call_effect_def)
    from committed_tree.call_work [OF rep True settled_stock [OF st ids(2)]] obtain work where
      w: "committed_tree.tracks xxh (bp_pager p) (op_ids op + 2 * height_of t + 3) work"
        "pool_call xxh op p = committing xxh work p" "pool_call xxh op (calm p) = committing xxh work (calm p)" .
    obtain r p' where "committing xxh work p = Some (r, p')" "\<not> failed io_failure r \<longrightarrow> r0 = r \<and> p0 = calm p'"
      "\<forall>c. crash_image (pool_file p') c \<longrightarrow> recovers xxh path c M' \<or> (\<forall>a. r \<noteq> Inr a) \<and> recovers xxh path c M"
      by (rule committing_survives [OF st torn ids w(1) calm [unfolded w(3)] new, where path = path])
    moreover have "settled xxh p' t' M'" if "r0 = Inr a" "p0 = calm p'" for a
      using new [OF that(1)] that(2) by simp
    ultimately show ?thesis using step w(2)
      by (intro exI [of _ r] exI [of _ p'] exI [of _ r0] exI [of _ M']) auto
  next
    case False
    have M': "M' = M" using step False by (cases op) (auto simp: op_writes_def elim: kv_getE kv_scanE)
    have look: "looked_at xxh (calm p) p0" using eff False by (simp add: call_effect_def)
    from reading_survives [OF st committed_tree.tracks_reading [OF False] clean_tree.reading_costs [OF False] calm look]
    obtain r p' where "pool_call xxh op p = Some (r, p')" "\<not> failed io_failure r \<longrightarrow> r0 = r" "\<forall>a. r = Inr a \<longrightarrow> settled xxh p' t M"
      "\<forall>c. crash_image (pool_file p') c \<longrightarrow> recovers xxh path c M"
      by blast
    with step show ?thesis unfolding M' by blast
  qed
qed

section \<open>A hash for which every torn slot of a new file is noticed\<close>

fun nonzeros :: "bytes \<Rightarrow> nat" where
  "nonzeros [] = 0"
| "nonzeros (x # xs) = (if x = 0 then nonzeros xs else Suc (nonzeros xs))"

definition nonzero_hash :: "bytes \<Rightarrow> u64" where
  "nonzero_hash b = of_nat (nonzeros b)"

lemma nonzeros_append: "nonzeros (xs @ ys) = nonzeros xs + nonzeros ys"
  by (induction xs) auto

lemma nonzeros_zeros: "nonzeros (replicate n 0) = 0"
  by (induction n) auto

lemma nonzeros_le: "nonzeros xs \<le> length xs"
  by (induction xs) auto

lemma nonzeros_mix:
  assumes "list_all2 (\<lambda>x y. x = 0 \<or> x = y) xs ys"
  shows "nonzeros xs \<le> nonzeros ys \<and> (nonzeros xs = nonzeros ys \<longrightarrow> xs = ys)"
  using assms by (induction rule: list_all2_induct) auto

lemma nonzeros_none: "nonzeros xs = 0 \<Longrightarrow> xs = replicate (length xs) 0"
  by (induction xs) (auto split: if_splits)

lemma meta_body_nonzeros: "nonzeros (meta_body c) \<le> 30"
proof -
  have "slice (meta_body c) 30 4058 = replicate 4058 0"
    unfolding meta_body_def Let_def
    by (simp add: slice_simps) (simp add: slice_def)
  then have z: "drop 30 (meta_body c) = replicate 4058 0" by (simp add: slice_def)
  have "nonzeros (take 30 (meta_body c) @ drop 30 (meta_body c)) \<le> 30"
    unfolding nonzeros_append z nonzeros_zeros using nonzeros_le [of "take 30 (meta_body c)"] by simp
  then show ?thesis by (simp only: append_take_drop_id)
qed

lemma be_bytes_zero: "be_bytes k 0 = replicate k 0"
  by (induction k) (simp_all add: replicate_append_same)

lemma unat_small: "n < 256 \<Longrightarrow> unat (of_nat n :: u8) = n"
  by (simp add: unat_of_nat take_bit_nat_eq_self)

lemma small_be_bytes: "n < 256 \<Longrightarrow> to_be_bytes 8 (of_nat n :: u64) = replicate 7 0 @ [of_nat n]"
proof -
  assume n: "n < 256"
  then have "unat (of_nat n :: u64) = n" by (simp add: unat_of_nat take_bit_nat_eq_self)
  moreover have "be_bytes (Suc 7) n = replicate 7 0 @ [of_nat n]" using n by (simp only: be_bytes.simps div_less be_bytes_zero)
  ultimately show ?thesis by (simp add: to_be_bytes_def)
qed

lemma torn_detected_nonzero: "torn_detected nonzero_hash (replicate 4096 0) (encoded_slot nonzero_hash m)"
  unfolding torn_detected_def
proof (intro allI impI)
  fix s
  assume mix: "torn_mix (replicate 4096 0) (encoded_slot nonzero_hash m) s" and v: "verify_checksum nonzero_hash s = Inr ()"
  let ?n = "nonzeros (meta_body m)"
  have len: "length s = 4096" using mix by (simp add: torn_mix_def)
  have b: "s ! i = 0 \<or> s ! i = encoded_slot nonzero_hash m ! i" if "i < 4096" for i
    using mix that by (auto simp: torn_mix_def list_all_iff)
  have new: "encoded_slot nonzero_hash m = meta_body m @ replicate 7 0 @ [of_nat ?n]"
    using meta_body_nonzeros [of m] by (simp add: encoded_slot_def nonzero_hash_def small_be_bytes)
  have "list_all2 (\<lambda>x y. x = 0 \<or> x = y) (page_body s) (meta_body m)"
  proof (rule list_all2_all_nthI)
    show "length (page_body s) = length (meta_body m)" using len by (simp add: page_body_def)
    fix i
    assume "i < length (page_body s)"
    then have i: "i < 4088" using len by (simp add: page_body_def)
    then show "page_body s ! i = 0 \<or> page_body s ! i = meta_body m ! i"
      using b [of i] len by (simp add: page_body_def new nth_append)
  qed
  then have body: "nonzeros (page_body s) \<le> ?n" "nonzeros (page_body s) = ?n \<longrightarrow> page_body s = meta_body m"
    using nonzeros_mix by blast+
  have k: "nonzeros (page_body s) < 256" using body(1) meta_body_nonzeros [of m] by simp
  have tr: "u64_at s 4088 = nonzero_hash (page_body s)" using v len by (simp add: verify_checksum_long split: if_splits)
  have "slice s 4088 8 = to_be_bytes 8 (u64_at s 4088)"
    using to_from_be_bytes [of "slice s 4088 8", where 'a = 64] len by (simp add: u64_at_def)
  then have bytes: "slice s 4088 8 = replicate 7 0 @ [of_nat (nonzeros (page_body s))]"
    unfolding tr nonzero_hash_def small_be_bytes [OF k] .
  have s: "s = page_body s @ slice s 4088 8" using len by (simp add: page_body_def slice_def)
  have "slice s 4088 8 ! 7 = s ! 4095" using len by (simp add: slice_def)
  then have "(of_nat (nonzeros (page_body s)) :: u8) = 0 \<or> (of_nat (nonzeros (page_body s)) :: u8) = of_nat ?n"
    using b [of 4095] bytes by (simp add: new nth_append)
  then have "nonzeros (page_body s) = 0 \<or> nonzeros (page_body s) = ?n"
    using k meta_body_nonzeros [of m] unat_small [of "nonzeros (page_body s)"] unat_small [of ?n] by auto
  then show "s = replicate 4096 0 \<or> s = encoded_slot nonzero_hash m"
  proof
    assume z: "nonzeros (page_body s) = 0"
    have "page_body s = replicate 4088 0" using nonzeros_none [OF z] len by (simp add: page_body_def)
    moreover have "slice s 4088 8 = replicate 7 0 @ replicate 1 0" using bytes z by simp
    ultimately have "s = replicate 4088 0 @ replicate 7 0 @ replicate 1 0" using s by simp
    also have "\<dots> = replicate (4088 + (7 + 1)) 0" unfolding replicate_add ..
    finally have "s = replicate 4096 0" by simp
    then show ?thesis ..
  next
    assume n: "nonzeros (page_body s) = ?n"
    then have "s = encoded_slot nonzero_hash m" using s bytes body(2) unfolding new by simp
    then show ?thesis ..
  qed
qed

definition with_faults :: "nat option list \<Rightarrow> pool \<Rightarrow> pool" where
  "with_faults fl p = p\<lparr>bp_pager := (bp_pager p)\<lparr>p_file := (pool_file p)\<lparr>f_faults := fl\<rparr>\<rparr>\<rparr>"

lemma with_faults_sel [simp]:
  "bp_next_page_id (with_faults fl p) = bp_next_page_id p" "bp_dirty (with_faults fl p) = bp_dirty p"
  "f_faults (pool_file (with_faults fl p)) = fl" "f_pending (pool_file (with_faults fl p)) = f_pending (pool_file p)"
  "f_durable (pool_file (with_faults fl p)) = f_durable (pool_file p)"
  "p_page_count (bp_pager (with_faults fl p)) = p_page_count (bp_pager p)"
  "p_active_slot (bp_pager (with_faults fl p)) = p_active_slot (bp_pager p)"
  "p_txn_id (bp_pager (with_faults fl p)) = p_txn_id (bp_pager p)"
  "calm (with_faults fl p) = calm p" "pager_inv xxh (bp_pager (with_faults fl p)) = pager_inv xxh (bp_pager p)"
  by (simp_all add: with_faults_def calm_def calm_pager_def calm_file_def pager_inv_def meta_of_def)

text \<open>A new database with a fault schedule of its own.\<close>

lemma new_settled:
  assumes "creatable fs path" "valid_page_size (page_bytes ps)" "1 \<le> capacity"
  obtains db fs' where "create_with_capacity xxh path ps capacity fs = (Inr db, fs')"
    "\<forall>fl. settled xxh (with_faults fl (db_pool db)) None Map.empty"
    "f_durable (pool_file (db_pool db)) = encoded_slot xxh (fresh_meta ps) @ replicate 4096 0"
    "p_active_slot (bp_pager (db_pool db)) = 0" "bp_next_page_id (db_pool db) = 2" "p_txn_id (bp_pager (db_pool db)) = 0"
proof -
  from assms(1,2) obtain pg fs' where
    c: "pager_create xxh path ps fs = (Inr pg, fs')" "pager_inv xxh pg" "meta_of pg = fresh_meta ps" "p_active_slot pg = 0"
      "f_pending (p_file pg) = []" "fault_free (p_file pg)" "f_durable (p_file pg) = encoded_slot xxh (fresh_meta ps) @ replicate 4096 0"
    unfolding creatable_def by (auto elim: pager_create_fault_free [where xxh = xxh])
  from c(2,6,3) assms(3) obtain p where
    p: "pool_new pg capacity = Inr p" "represents xxh p None Map.empty" "bp_pager p = pg" "bp_next_page_id p = 2" "bp_dirty p = []"
    by (rule new_pool_represents)
  have "create_with_capacity xxh path ps capacity fs = (Inr \<lparr>db_pool = p\<rparr>, fs')"
    using c(1) p(1) by (simp add: create_with_capacity_def sbind_def spure_def)
  moreover have "p_txn_id pg = 0" "p_page_count pg = 2" using c(3) by (simp_all add: meta_of_def fresh_meta_def page_consts)
  moreover have "settled xxh (with_faults fl p) None Map.empty" for fl
    using p c(2,5) represents_calm [OF p(2)] \<open>p_page_count pg = 2\<close> by (simp add: settled_def)
  ultimately show thesis by (intro that [of "\<lparr>db_pool = p\<rparr>" fs']) (simp_all add: p c)
qed

lemma faulty_sample:
  obtains p where "settled nonzero_hash p None Map.empty" "torn_safe nonzero_hash (bp_pager p)"
    "f_faults (pool_file p) = fl" "db_accepts nonzero_hash \<lparr>db_pool = p\<rparr> None (OpInsert 1 sample_row)"
proof -
  obtain db fs' where c: "create_with_capacity nonzero_hash ''db'' DEFAULT_PAGE_SIZE 256 empty_fs = (Inr db, fs')"
    "\<forall>fl. settled nonzero_hash (with_faults fl (db_pool db)) None Map.empty"
    "f_durable (pool_file (db_pool db)) = encoded_slot nonzero_hash (fresh_meta DEFAULT_PAGE_SIZE) @ replicate 4096 0"
    "p_active_slot (bp_pager (db_pool db)) = 0" "bp_next_page_id (db_pool db) = 2" "p_txn_id (bp_pager (db_pool db)) = 0"
    by (rule new_settled [OF creatable_empty default_page_size, where capacity = 256 and xxh = nonzero_hash and path = "''db''"])
      simp_all
  have "slice (f_durable (pool_file (db_pool db))) (slot_pos (1 - 0)) 4096 = replicate 4096 0"
    by (simp add: c(3) slot_pos_def slice_append_right slice_def)
  then have "torn_safe nonzero_hash (bp_pager (with_faults fl (db_pool db)))"
    using torn_detected_nonzero by (simp add: torn_safe_def c(4))
  moreover have "db_accepts nonzero_hash \<lparr>db_pool = with_faults fl (db_pool db)\<rparr> None (OpInsert 1 sample_row)"
    using sample_row_modest c(5,6)
    by (simp add: db_accepts_def room_for_def ids_left_def height_of_def small_consts)
  ultimately show thesis by (intro that [of "with_faults fl (db_pool db)"]) (simp_all add: c(2))
qed

section \<open>Claims\<close>

text \<open>
  C2: a call that has room is atomic under I/O faults and crashes. Take a settled database and a call
  it accepts: a lookup, a scan, or a write for which page ids and a transaction number are left and
  whose leaf, or both halves of its split, take the cell of the row. Let no mixture of the bytes of
  the inactive meta slot with those of the next one verify unless it is one of the two
  (\<open>torn_safe\<close>). Then, whichever I/O calls fail, the call returns; its answer is the map's, a
  refusal included, or an I/O error; if it succeeds the database is settled again with the new map;
  and whatever of the unsynced writes a crash leaves, the file opens again to the map after the call
  or, if the call failed, to the map before it.
\<close>
lemma database_crash_safe:
  assumes "settled xxh (db_pool db) t M" "db_accepts xxh db t op" "torn_safe xxh (bp_pager (db_pool db))"
  shows "\<exists>r db' r0 M'. db_call xxh op db = Some (r, db') \<and> kv_step op M r0 M' \<and>
    (\<not> failed io_failure r \<longrightarrow> r0 = r) \<and> (\<forall>a. r = Inr a \<longrightarrow> (\<exists>t'. settled xxh (db_pool db') t' M')) \<and>
    (\<forall>c. crash_image (pool_file (db_pool db')) c \<longrightarrow>
       recovers xxh path c M' \<or> (\<forall>a. r \<noteq> Inr a) \<and> recovers xxh path c M)"
proof -
  have acc: "db_accepts xxh \<lparr>db_pool = db_pool db\<rparr> t op" using assms(2) by (simp add: db_accepts_def split: kv_op.splits)
  from pool_call_survives [OF assms(1) acc assms(3), of path] obtain r p' r0 M' where
    r: "pool_call xxh op (db_pool db) = Some (r, p')" "kv_step op M r0 M'"
      "\<not> failed io_failure r \<longrightarrow> r0 = r" "\<forall>a. r = Inr a \<longrightarrow> (\<exists>t'. settled xxh p' t' M')"
      "\<forall>c. crash_image (pool_file p') c \<longrightarrow> recovers xxh path c M' \<or> (\<forall>a. r \<noteq> Inr a) \<and> recovers xxh path c M"
    by blast
  then have "db_call xxh op db = Some (r, db\<lparr>db_pool := p'\<rparr>)" by (simp add: db_call_pool)
  with r(2-5) show ?thesis
    by (intro exI [of _ r] exI [of _ "db\<lparr>db_pool := p'\<rparr>"] exI [of _ r0] exI [of _ M']) simp
qed

text \<open>The first write of the insert tears after 100 bytes; the crash loses it.\<close>

lemma database_crash_safe_witness:
  "\<exists>db r db'. f_faults (pool_file (db_pool db)) = [Some 100] \<and>
     db_call nonzero_hash (OpInsert 1 sample_row) db = Some (r, db') \<and>
     (recovers nonzero_hash ''db'' (f_durable (pool_file (db_pool db'))) [1 \<mapsto> sample_row] \<or>
      recovers nonzero_hash ''db'' (f_durable (pool_file (db_pool db'))) Map.empty)"
proof -
  let ?op = "OpInsert 1 sample_row"
  obtain p where p: "settled nonzero_hash p None Map.empty" "torn_safe nonzero_hash (bp_pager p)"
    "f_faults (pool_file p) = [Some 100]" "db_accepts nonzero_hash \<lparr>db_pool = p\<rparr> None ?op" by (rule faulty_sample)
  from database_crash_safe [of nonzero_hash "\<lparr>db_pool = p\<rparr>" None Map.empty ?op "''db''"] p obtain r db' r0 M' where
    r: "db_call nonzero_hash ?op \<lparr>db_pool = p\<rparr> = Some (r, db')" "kv_step ?op Map.empty r0 M'"
      "\<forall>c. crash_image (pool_file (db_pool db')) c \<longrightarrow>
         recovers nonzero_hash ''db'' c M' \<or> (\<forall>a. r \<noteq> Inr a) \<and> recovers nonzero_hash ''db'' c Map.empty" by auto
  have "M' = [1 \<mapsto> sample_row]" using r(2) sample_row_modest(3) by (auto elim: kv_insertE)
  then show ?thesis
    using p(3) r(1,3) crash_image_lost by (intro exI [of _ "\<lparr>db_pool = p\<rparr>"] exI [of _ r] exI [of _ db']) auto
qed

end
