(* ===== verification/Pool_Claims.thy ===== *)
theory Pool_Claims
  imports Recovery
begin

text \<open>
  The buffer pool as a state machine: whatever the I/O calls do, every pool reached from a new one
  is well formed, holds at most its capacity of pages, and its clean pages are those on disk. A
  commit that failed gets through when it is retried and the faults have stopped.
\<close>

section \<open>Steps of the pool\<close>

inductive pool_step :: "(bytes \<Rightarrow> u64) \<Rightarrow> pool \<Rightarrow> pool \<Rightarrow> bool" for xxh where
  get: "pool_get xxh pid p = (r, p') \<Longrightarrow> pool_step xxh p p'"
| put: "bp_next_page_id p \<noteq> - 1 \<Longrightarrow> length buf = bytes_usize (pool_page_size p) \<Longrightarrow> put_page xxh buf p = (r, p') \<Longrightarrow>
    pool_step xxh p p'"
| commit: "pool_commit xxh root p = (r, p') \<Longrightarrow> pool_step xxh p p'"

definition pool_ok :: "(bytes \<Rightarrow> u64) \<Rightarrow> nat \<Rightarrow> pool \<Rightarrow> bool" where
  "pool_ok xxh capacity p \<longleftrightarrow> store_ok xxh p \<and> bp_capacity p = capacity \<and> p_active_slot (bp_pager p) \<in> {0, 1}"

lemma pool_commit_slot:
  assumes "pool_inv xxh p" "p_active_slot (bp_pager p) \<in> {0, 1}" "pool_commit xxh root p = (r, p')"
  shows "p_active_slot (bp_pager p') \<in> {0, 1}"
proof -
  obtain rf pf where fl: "flush_all_dirty xxh p = (rf, pf)" by fastforce
  have "same_pager (bp_pager p) (bp_pager pf)" using flush_all_dirty_inv(2) [OF assms(1) fl] by (simp add: pool_frame_def)
  then have act: "p_active_slot (bp_pager pf) \<in> {0, 1}" using assms(2) same_pager_sel(3) by metis
  show ?thesis
  proof (cases rf)
    case (Inl e)
    then have "p' = pf" using assms(3) fl by (simp add: pool_commit_def sbind_def)
    then show ?thesis using act by simp
  next
    case (Inr u)
    obtain pg' where pc: "pager_commit xxh root (bp_next_page_id pf) (bp_pager pf) = (r, pg')" "p' = pf\<lparr>bp_pager := pg'\<rparr>"
      using assms(3) fl Inr by (cases "pager_commit xxh root (bp_next_page_id pf) (bp_pager pf)") (simp add: pool_commit_def sbind_def)
    have "p_active_slot pg' \<in> {p_active_slot (bp_pager pf), 1 - p_active_slot (bp_pager pf)}"
      using pc(1) act
    proof (cases rule: pager_commit_outcomes)
      case (unsynced e)
      then show ?thesis using same_pager_sel(3) [of "bp_pager pf" pg'] by (simp add: same_pager_def)
    next
      case (torn e k)
      then show ?thesis using same_pager_sel(3) [of "bp_pager pf" pg'] by (simp add: same_pager_def)
    qed simp
    then show ?thesis using act u8_slot_flip [OF act] pc(2) by auto
  qed
qed

lemma pool_step_ok:
  assumes "pool_step xxh p p'" "pool_ok xxh capacity p"
  shows "pool_ok xxh capacity p'"
  using assms(1)
proof cases
  case (get pid r)
  have ok: "store_ok xxh p" "pool_inv xxh p" using assms(2) by (simp_all add: pool_ok_def store_ok_def)
  have "pool_frame p p'" using pool_get_inv [OF ok(2) get] by blast
  then show ?thesis
    using assms(2) store_ok_get [OF ok(1) get] same_pager_sel(3) [of "bp_pager p" "bp_pager p'"]
    by (simp add: pool_ok_def pool_frame_def)
next
  case (put buf r)
  let ?p1 = "p\<lparr>bp_next_page_id := bp_next_page_id p + 1\<rparr>"
  have ok: "store_ok xxh p" using assms(2) by (simp add: pool_ok_def)
  obtain r1 p1 where w: "put_new xxh (bp_next_page_id p) buf ?p1 = (r1, p1)" by fastforce
  then have p': "p' = p1" using put(3)
    by (auto simp: put_page_def allocate_page_id_def spure_def sbind_def split: sum.splits)
  note P = store_ok_put [OF ok put(2,1) w]
  then show ?thesis
    using assms(2) same_pager_sel(3) [of "bp_pager ?p1" "bp_pager p1"] by (simp add: pool_ok_def pool_frame_def p')
next
  case (commit root r)
  have inv: "pool_inv xxh p" "p_active_slot (bp_pager p) \<in> {0, 1}" using assms(2) by (simp_all add: pool_ok_def store_ok_def)
  note C = pool_commit_inv [OF inv commit]
  have "set (bp_dirty p') \<subseteq> set (bp_dirty p)" by (rule pool_commit_dirty [OF commit])
  then show ?thesis
    using assms(2) C(1,3,4) pool_commit_slot [OF inv commit] by (auto simp: pool_ok_def store_ok_def)
qed

lemma new_pool_ok:
  assumes "pool_new pg capacity = Inr p0" "p_active_slot pg \<in> {0, 1}"
    and "valid_page_size (page_bytes (p_page_size pg))" "2 \<le> unat (p_page_count pg)"
  shows "pool_ok xxh capacity p0"
  using assms
  by (auto simp: pool_new_def pool_ok_def store_ok_def pool_inv_def pool_wf_def pool_coherent_def pool_page_size_def split: if_splits)

section \<open>Claims\<close>

text \<open>
  C16: the invariant of the buffer pool. In every state that lookups, new pages and commits lead to
  from a new pool, whichever of their I/O calls fail, the cache holds at most its capacity of
  pages and each once, the recency queue lists exactly the cached pages, dirty pages are cached
  data pages, and a clean cached data page is what a read of it from the file would give.
\<close>
lemma pool_reachable:
  assumes "(pool_step xxh)\<^sup>*\<^sup>* p0 p" "pool_new pg capacity = Inr p0" "p_active_slot pg \<in> {0, 1}"
    and "valid_page_size (page_bytes (p_page_size pg))" "2 \<le> unat (p_page_count pg)"
  shows "length (bp_entries p) \<le> capacity \<and> distinct (map fst (bp_entries p)) \<and> distinct (bp_recency p) \<and>
    set (bp_recency p) = fst ` set (bp_entries p) \<and> set (bp_dirty p) \<subseteq> fst ` set (bp_entries p) \<and>
    (\<forall>pid \<in> set (bp_dirty p). 2 \<le> unat pid) \<and>
    (\<forall>(pid, buf) \<in> set (bp_entries p). 2 \<le> unat pid \<and> pid \<notin> set (bp_dirty p) \<longrightarrow>
       disk_page xxh (bp_pager p) pid = Some (page_body buf))"
proof -
  have "pool_ok xxh capacity p0" by (rule new_pool_ok [OF assms(2-5)])
  with assms(1) have "pool_ok xxh capacity p"
    by (induction rule: rtranclp_induct) (auto intro: pool_step_ok)
  then show ?thesis by (auto simp: pool_ok_def store_ok_def pool_inv_def pool_wf_def pool_coherent_def)
qed

text \<open>A first page in a pool of capacity one.\<close>

lemma pool_reachable_witness:
  "\<exists>pg p0 p. pool_new pg 1 = Inr p0 \<and> (pool_step (\<lambda>_. 0))\<^sup>*\<^sup>* p0 p \<and> bp_next_page_id p = 3 \<and> length (bp_entries p) \<le> 1"
proof -
  obtain pg where pg: "pager_inv (\<lambda>_. 0) pg" "meta_of pg = fresh_meta DEFAULT_PAGE_SIZE" "p_active_slot pg = 0"
    by (rule created_pager [OF default_page_size])
  have m: "p_page_size pg = DEFAULT_PAGE_SIZE" "p_page_count pg = 2" using pg(2) by (simp_all add: meta_of_def fresh_meta_def page_consts)
  obtain p0 where p0: "pool_new pg 1 = Inr p0" "bp_next_page_id p0 = 2" "pool_page_size p0 = DEFAULT_PAGE_SIZE"
    using m by (simp add: pool_new_def pool_page_size_def)
  let ?buf = "replicate (bytes_usize DEFAULT_PAGE_SIZE) 0"
  obtain r p where p: "put_page (\<lambda>_. 0) ?buf p0 = (r, p)" by fastforce
  have step: "pool_step (\<lambda>_. 0) p0 p" by (rule pool_step.put [OF _ _ p]) (simp_all add: p0)
  obtain r1 p1 where w: "insert_cached (\<lambda>_. 0) 2 ?buf True (p0\<lparr>bp_next_page_id := 3\<rparr>) = (r1, p1)" by fastforce
  then have "p = p1" using p p0(2)
    by (auto simp: put_page_def put_new_def allocate_page_id_def spure_def sbind_def split: sum.splits)
  then have "bp_next_page_id p = 3" using insert_cached_next [OF w] by simp
  moreover have "(pool_step (\<lambda>_. 0))\<^sup>*\<^sup>* p0 p" using step by (rule r_into_rtranclp)
  moreover from pool_reachable [OF this p0(1)] pg(3) m have "length (bp_entries p) \<le> 1"
    using default_page_size by simp
  ultimately show ?thesis using p0(1) by blast
qed

text \<open>
  C17: a commit gets through in the end. After a commit that failed, at whichever I/O call, the same
  commit succeeds on the pool it left once no call fails any more: the new root is in place, every
  page that could be read still can, nothing is unsynced, and the file is consistent again.
\<close>
lemma commit_retry:
  assumes "pool_inv xxh p" "pager_inv xxh (bp_pager p)" "p_txn_id (bp_pager p) \<noteq> - 1"
    and "pool_commit xxh root p = (Inl e, p')"
  shows "\<exists>p''. pool_commit xxh root (calm p') = (Inr (), p'') \<and> pool_root_page_id p'' = root \<and>
    pool_view xxh p \<subseteq>\<^sub>m pool_view xxh p'' \<and> f_pending (pool_file p'') = [] \<and> bp_dirty p'' = [] \<and>
    pager_inv xxh (bp_pager p'')"
proof -
  note C = pool_commit_inv [OF assms(1) pager_inv_active(1) [OF assms(2)] assms(4)]
  have ready: "commit_ready xxh (bp_pager p')" "p_txn_id (bp_pager p') \<noteq> - 1"
    using failed_commit_ready [OF assms(1) pager_inv_ready [OF assms(2)] assms(4)] assms(3) same_pager_sel(4) by metis+
  have calm: "commit_ready xxh (bp_pager (calm p'))" "p_txn_id (bp_pager (calm p')) \<noteq> - 1" "pool_inv xxh (calm p')"
    "pool_view xxh (calm p') = pool_view xxh p'" "fault_free (pool_file (calm p'))"
    using ready C(1) pool_view_cong [of "calm p'" p' xxh]
    by (simp_all add: commit_ready_def meta_of_def pool_inv_def pool_wf_def pool_coherent_def)
  from calm(3,5) obtain p'' where c: "pool_commit xxh root (calm p') = (Inr (), p'')" by (rule pool_commit_fault_free)
  have "p_active_slot (bp_pager (calm p')) \<in> {0, 1}" using ready(1) by (simp add: commit_ready_def)
  note D = pool_commit_inv [OF calm(3) this c]
  have "pager_inv xxh (bp_pager p'')" by (rule pool_commit_pager [OF calm(3,1,2) c])
  moreover have "pool_view xxh p \<subseteq>\<^sub>m pool_view xxh p''" using map_le_trans [OF C(5)] D(5) calm(4) by simp
  ultimately show ?thesis using c D(6) by blast
qed

text \<open>The sync of the data fails, the next attempt succeeds.\<close>

lemma commit_retry_witness:
  "\<exists>p e p' p''. pool_commit nonzero_hash 2 p = (Inl e, p') \<and> f_faults (pool_file p) = [Some 0] \<and>
     pool_commit nonzero_hash 2 (calm p') = (Inr (), p'') \<and> pool_root_page_id p'' = 2"
proof -
  obtain p where p: "settled nonzero_hash p None Map.empty" "f_faults (pool_file p) = [Some 0]"
    "db_accepts nonzero_hash \<lparr>db_pool = p\<rparr> None (OpInsert 1 sample_row)" by (rule faulty_sample)
  have inv: "pool_inv nonzero_hash p"
    using p(1) by (simp add: settled_def represents_def store_inv_def store_ok_def)
  have d: "bp_dirty p = []" using p(1) by (simp add: settled_def)
  have "p_txn_id (bp_pager p) \<noteq> - 1" using p(3) by (simp add: db_accepts_def room_for_def ids_left_def)
  moreover obtain e p' where e: "pool_commit nonzero_hash 2 p = (Inl e, p')"
    using p(2) d
    by (simp add: pool_commit_def flush_all_dirty_def pool_sync_def sync_data_def pager_io_def io_at_def file_sync_def
        io_tick_def sbind_def)
  ultimately show ?thesis using commit_retry [OF inv settled_inv [OF p(1)] _ e] p(2) by blast
qed

end
