(* ===== verification/Lru.thy ===== *)
theory Lru
  imports Pool_Claims
begin

text \<open>
  The replacement policy of the buffer pool. The code keeps a recency queue and pops its head to
  evict; the reference is the list of all accesses, of which the cache holds the last distinct ones.
\<close>

section \<open>The reference\<close>

definition newest :: "nat \<Rightarrow> 'a list \<Rightarrow> 'a list" where
  "newest n xs = drop (length xs - n) xs"

text \<open>\<open>remdups\<close> keeps the last occurrence of each element.\<close>

definition lru_cache :: "nat \<Rightarrow> 'a list \<Rightarrow> 'a list" where
  "lru_cache capacity accessed = newest capacity (remdups accessed)"

lemma newest_append: "n \<le> length ys \<Longrightarrow> newest n (xs @ ys) = newest n ys"
  by (simp add: newest_def)

lemma newest_all: "length xs \<le> n \<Longrightarrow> newest n xs = xs"
  by (simp add: newest_def)

lemma length_newest: "length (newest n xs) = min n (length xs)"
  by (simp add: newest_def)

lemma remdups_snoc: "remdups (xs @ [x]) = removeAll x (remdups xs) @ [x]"
  by (induction xs) auto

lemma length_removeAll_distinct:
  "distinct xs \<Longrightarrow> length (removeAll x xs) = (if x \<in> set xs then length xs - 1 else length xs)"
  unfolding distinct_remove1_removeAll [symmetric] by (rule length_remove1)

lemma newest_removeAll:
  assumes "distinct xs"
  shows "newest n (removeAll x (newest n xs) @ [x]) = newest n (removeAll x xs @ [x])"
proof (cases "length xs \<le> n")
  case False
  let ?k = "length xs - n" and ?ys = "removeAll x (newest n xs) @ [x]"
  have "length (newest n xs) = n" using False by (simp add: length_newest)
  then have "n \<le> length ?ys"
    using length_removeAll_distinct [of "newest n xs" x] assms by (auto simp: newest_def)
  then have "newest n (removeAll x (take ?k xs) @ ?ys) = newest n ?ys" by (rule newest_append)
  moreover have "removeAll x (take ?k xs) @ ?ys = removeAll x xs @ [x]"
    unfolding newest_def append_assoc [symmetric] removeAll_append [symmetric] append_take_drop_id ..
  ultimately show ?thesis by simp
qed (simp add: newest_all)

lemma lru_cache_snoc: "lru_cache n (xs @ [x]) = newest n (removeAll x (lru_cache n xs) @ [x])"
  by (simp add: lru_cache_def remdups_snoc newest_removeAll)

section \<open>The recency queue\<close>

lemma queue_length:
  assumes "pool_wf p"
  shows "length (bp_recency p) = length (bp_entries p)"
  using assms distinct_card [of "bp_recency p"] distinct_card [of "map fst (bp_entries p)"] by (simp add: pool_wf_def)

lemma evict_one_queue: "evict_one xxh p = (Inr (), p') \<Longrightarrow> bp_recency p' = tl (bp_recency p)"
  by (auto simp: evict_one_def Let_def split: list.splits option.splits if_splits prod.splits)

lemma evict_to_fit_queue:
  assumes "pool_wf p" "pool_coherent xxh p" "evict_to_fit xxh p = (Inr (), p')"
  shows "bp_recency p' = newest (bp_capacity p - 1) (bp_recency p)"
  using assms
proof (induction "length (bp_entries p)" arbitrary: p rule: less_induct)
  case less
  have cap: "1 \<le> bp_capacity p" using less.prems(1) by (simp add: pool_wf_def)
  show ?case
  proof (cases "bp_capacity p \<le> length (bp_entries p)")
    case True
    then obtain p1 where ev: "evict_one xxh p = (Inr (), p1)" "evict_to_fit xxh p1 = (Inr (), p')"
      using less.prems(3) by (auto simp: evict_to_fit.simps [of xxh p] split: prod.splits sum.splits)
    note E = evict_one_inv [OF less.prems(1,2) ev(1)]
    have "bp_recency p' = newest (bp_capacity p1 - 1) (bp_recency p1)"
      using less.hyps [OF evict_one_shorter [OF ev(1)]] E ev(2) by blast
    moreover have "bp_capacity p1 = bp_capacity p" using E pool_frame_sel(3) by blast
    moreover have "newest (bp_capacity p - 1) (tl (bp_recency p)) = newest (bp_capacity p - 1) (bp_recency p)"
      using True cap queue_length [OF less.prems(1)] newest_append [of "bp_capacity p - 1" "tl (bp_recency p)" "[hd (bp_recency p)]"]
      by (cases "bp_recency p") auto
    ultimately show ?thesis using evict_one_queue [OF ev(1)] by simp
  next
    case False
    then show ?thesis using less.prems(3) queue_length [OF less.prems(1)] by (simp add: evict_to_fit.simps [of xxh p] newest_all)
  qed
qed

lemma drop_page_queue: "pool_wf p \<Longrightarrow> bp_recency (drop_page pid p) = removeAll pid (bp_recency p)"
  by (auto simp: drop_page_def pool_wf_def map_of_eq_None_iff)

lemma insert_cached_queue:
  assumes inv: "pool_inv xxh p" "pid \<notin> set (bp_dirty p)" and ic: "insert_cached xxh pid buf dirty p = (Inr (), p')"
  shows "bp_recency p' = newest (bp_capacity p) (removeAll pid (bp_recency p) @ [pid])"
proof -
  let ?q = "drop_page pid p"
  have wf: "pool_wf ?q" "pool_coherent xxh ?q" "pool_wf p" "1 \<le> bp_capacity p"
    using drop_page_inv(1) [OF inv] inv(1) by (simp_all add: pool_inv_def pool_wf_def)
  obtain p2 where ev: "evict_to_fit xxh ?q = (Inr (), p2)" "bp_recency p' = bp_recency p2 @ [pid]"
    using ic by (auto simp: insert_cached_drop Let_def elim!: sbind_cases)
  have "bp_recency p2 = newest (bp_capacity p - 1) (removeAll pid (bp_recency p))"
    using evict_to_fit_queue [OF wf(1,2) ev(1)] drop_page_queue [OF wf(3)] by simp
  then show ?thesis using ev(2) wf(4) by (simp add: newest_def Suc_diff_le [symmetric] diff_diff_eq)
qed

lemma pool_get_queue:
  assumes inv: "pool_inv xxh p" and get: "pool_get xxh pid p = (Inr buf, p')"
  shows "bp_recency p' = newest (bp_capacity p) (removeAll pid (bp_recency p) @ [pid])"
proof (cases "map_of (bp_entries p) pid")
  case (Some b)
  then have "pid \<in> set (bp_recency p)" using inv map_of_Some_ids by (fastforce simp: pool_inv_def pool_wf_def)
  then have "length (removeAll pid (bp_recency p) @ [pid]) = length (bp_recency p)"
    using inv length_removeAll_distinct [of "bp_recency p" pid] length_pos_if_in_set [of pid "bp_recency p"]
    by (simp add: pool_inv_def pool_wf_def)
  then have "length (removeAll pid (bp_recency p) @ [pid]) \<le> bp_capacity p"
    using inv queue_length by (simp add: pool_inv_def)
  then show ?thesis using get Some by (auto simp: pool_get_def touch_def newest_all)
next
  case None
  obtain b p1 where rd: "pool_read xxh pid p = (Inr b, p1)" "insert_cached xxh pid b False p1 = (Inr (), p')"
    using get None by (auto simp: pool_get_def spure_def elim!: sbind_cases)
  note R = pool_read_inv [OF inv rd(1)]
  have "bp_recency p1 = bp_recency p" "bp_dirty p1 = bp_dirty p" "bp_capacity p1 = bp_capacity p"
    using rd(1) by (auto simp: pool_read_def split: prod.splits)
  then show ?thesis using insert_cached_queue [OF _ _ rd(2)] R pool_wf_dirty [OF inv None] by simp
qed

lemma put_page_queue:
  assumes ok: "store_ok xxh p" and put: "put_page xxh buf p = (Inr pid, p')"
  shows "bp_recency p' = newest (bp_capacity p) (removeAll pid (bp_recency p) @ [pid])"
proof -
  let ?p1 = "p\<lparr>bp_next_page_id := bp_next_page_id p + 1\<rparr>"
  have w: "insert_cached xxh pid buf True ?p1 = (Inr (), p')" "pid = bp_next_page_id p"
    using put by (auto simp: put_page_def put_new_def allocate_page_id_def spure_def elim!: sbind_cases)
  have "pool_inv xxh ?p1" "pid \<notin> set (bp_dirty ?p1)"
    using ok w(2) by (auto simp: store_ok_def pool_inv_def pool_wf_def pool_coherent_def pool_page_size_def)
  from insert_cached_queue [OF this w(1)] show ?thesis by simp
qed

lemma flush_ids_queue: "flush_ids xxh ids p = (r, p') \<Longrightarrow> bp_recency p' = bp_recency p"
proof (induction ids arbitrary: p)
  case (Cons pid ids)
  then show ?case
    by (fastforce simp: Let_def split: option.splits prod.splits sum.splits)
qed simp

lemma pool_commit_queue: "pool_commit xxh root p = (r, p') \<Longrightarrow> bp_recency p' = bp_recency p"
  by (auto simp: pool_commit_def flush_all_dirty_def pool_sync_def dest!: flush_ids_queue elim!: sbind_cases
      split: prod.splits)

section \<open>Runs\<close>

text \<open>
  A run of the pool with the pages it accesses, oldest first. Commits, failed ones included, access
  no page; a lookup or a new page that fails ends the run.
\<close>

inductive accesses :: "(bytes \<Rightarrow> u64) \<Rightarrow> pool \<Rightarrow> u32 list \<Rightarrow> pool \<Rightarrow> bool" for xxh p0 where
  start: "accesses xxh p0 [] p0"
| get: "accesses xxh p0 pids p \<Longrightarrow> pool_get xxh pid p = (Inr buf, p') \<Longrightarrow> accesses xxh p0 (pids @ [pid]) p'"
| put: "accesses xxh p0 pids p \<Longrightarrow> bp_next_page_id p \<noteq> - 1 \<Longrightarrow> length buf = bytes_usize (pool_page_size p) \<Longrightarrow>
    put_page xxh buf p = (Inr pid, p') \<Longrightarrow> accesses xxh p0 (pids @ [pid]) p'"
| commit: "accesses xxh p0 pids p \<Longrightarrow> pool_commit xxh root p = (r, p') \<Longrightarrow> accesses xxh p0 pids p'"

lemma accesses_lru:
  assumes "accesses xxh p0 pids p" "pool_ok xxh capacity p0" "bp_recency p0 = []"
  shows "pool_ok xxh capacity p \<and> bp_recency p = lru_cache capacity pids"
  using assms
proof (induction rule: accesses.induct)
  case start
  then show ?case by (simp add: lru_cache_def newest_def)
next
  case (get pids p pid buf p')
  then have ok: "pool_ok xxh capacity p" "bp_recency p = lru_cache capacity pids" by simp_all
  have "pool_step xxh p p'" by (rule pool_step.get [OF get.hyps(2)])
  then show ?case
    using pool_step_ok [OF _ ok(1)] pool_get_queue [OF _ get.hyps(2)] ok
    by (simp add: pool_ok_def store_ok_def lru_cache_snoc)
next
  case (put pids p buf pid p')
  then have ok: "pool_ok xxh capacity p" "bp_recency p = lru_cache capacity pids" by simp_all
  have "pool_step xxh p p'" by (rule pool_step.put [OF put.hyps(2-4)])
  then show ?case
    using pool_step_ok [OF _ ok(1)] put_page_queue [OF _ put.hyps(4)] ok by (simp add: pool_ok_def lru_cache_snoc)
next
  case (commit pids p root r p')
  then have ok: "pool_ok xxh capacity p" "bp_recency p = lru_cache capacity pids" by simp_all
  have "pool_step xxh p p'" by (rule pool_step.commit [OF commit.hyps(2)])
  then show ?case using pool_step_ok [OF _ ok(1)] pool_commit_queue [OF commit.hyps(2)] ok(2) by simp
qed

section \<open>Claims\<close>

text \<open>
  C18: the pool replaces the least recently used page. After any run of successful lookups and new
  pages on a new pool, with commits between them, the cached pages are the last distinct ones
  accessed, as many as the capacity allows, and the queue holds them in the order of their last use.
\<close>
lemma pool_is_lru:
  assumes "pool_new pg capacity = Inr p0" "p_active_slot pg \<in> {0, 1}"
    and "valid_page_size (page_bytes (p_page_size pg))" "2 \<le> unat (p_page_count pg)" "accesses xxh p0 pids p"
  shows "bp_recency p = lru_cache capacity pids \<and> fst ` set (bp_entries p) = set (lru_cache capacity pids)"
proof -
  have "pool_ok xxh capacity p0" "bp_recency p0 = []"
    using new_pool_ok [OF assms(1-4)] assms(1) by (auto simp: pool_new_def split: if_splits)
  from accesses_lru [OF assms(5) this] have "pool_wf p" "bp_recency p = lru_cache capacity pids"
    by (simp_all add: pool_ok_def store_ok_def pool_inv_def)
  then show ?thesis by (simp add: pool_wf_def)
qed

text \<open>Two new pages in a pool of capacity one.\<close>

lemma put_page_accesses:
  assumes "accesses xxh p0 pids p" "store_inv xxh p" "bp_next_page_id p \<noteq> - 1"
  obtains p' where "accesses xxh p0 (pids @ [bp_next_page_id p]) p'" "store_inv xxh p'" "bp_next_page_id p' = bp_next_page_id p + 1"
proof -
  let ?buf = "replicate (pool_page_bytes p) 0"
  obtain s1 p' where put: "allocate_page_id p = (Inr (bp_next_page_id p), s1)" "put_new xxh (bp_next_page_id p) ?buf s1 = (Inr (), p')"
    "store_inv xxh p'" "bp_next_page_id p' = bp_next_page_id p + 1"
    using store.put_law [of xxh p ?buf] assms(2,3) by auto
  then have "put_page xxh ?buf p = (Inr (bp_next_page_id p), p')" by (simp add: put_page_def sbind_def spure_def)
  from accesses.put [OF assms(1,3) _ this] put(3,4) that show thesis by (simp add: pool_page_bytes_def)
qed

lemma pool_is_lru_witness:
  "\<exists>pg p0 p. pool_new pg 1 = Inr p0 \<and> accesses (\<lambda>_. 0) p0 [2, 3] p \<and> bp_recency p = [3]"
proof -
  obtain pg where pg: "pager_inv (\<lambda>_. 0) pg" "meta_of pg = fresh_meta DEFAULT_PAGE_SIZE" "p_active_slot pg = 0"
    "fault_free (p_file pg)"
    by (rule created_pager [OF default_page_size])
  have m: "p_page_size pg = DEFAULT_PAGE_SIZE" "p_page_count pg = 2" using pg(2) by (simp_all add: meta_of_def fresh_meta_def page_consts)
  obtain p0 where p0: "pool_new pg 1 = Inr p0" "represents (\<lambda>_. 0) p0 None Map.empty" "bp_next_page_id p0 = 2"
    by (rule new_pool_represents [OF pg(1,4,2), of 1]) auto
  obtain p1 where p1: "accesses (\<lambda>_. 0) p0 [2] p1" "store_inv (\<lambda>_. 0) p1" "bp_next_page_id p1 = 3"
    using put_page_accesses [OF accesses.start, of "\<lambda>_. 0" p0] p0(2,3) by (auto simp: represents_def)
  obtain p2 where p2: "accesses (\<lambda>_. 0) p0 [2, 3] p2"
    using put_page_accesses [OF p1(1,2)] p1(3) by auto
  from pool_is_lru [OF p0(1) _ _ _ this] pg(3) m default_page_size have "bp_recency p2 = lru_cache 1 [2, 3]" by simp
  with p0(1) p2 show ?thesis by (auto simp: lru_cache_def newest_def)
qed

end
