(* ===== verification/Durable.thy ===== *)
theory Durable
  imports Recovery
begin

text \<open>
  Durability. While no I/O call fails, every call leaves the database such that a crash at that
  moment loses nothing: the file opens again to the very map the calls have built. A refused call
  may leave the pool with pages it has written for nothing, so the invariant \<open>anchored\<close> ties
  the pool to the last settled one, whose pages are all still in place. The interpretation
  \<open>durable\<close> makes it an instance of the session contract.
\<close>

section \<open>Errors of a commit\<close>

definition fatal_only :: "('s, pinax_error, 'a) smethod \<Rightarrow> bool" where
  "fatal_only m \<longleftrightarrow> (\<forall>s e s'. m s = (Inl e, s') \<longrightarrow> (\<exists>f. e = Fatal f))"

lemma fatalI: "(\<And>s e s'. m s = (Inl e, s') \<Longrightarrow> \<exists>f. e = Fatal f) \<Longrightarrow> fatal_only m"
  and fatalD: "fatal_only m \<Longrightarrow> m s = (Inl e, s') \<Longrightarrow> \<exists>f. e = Fatal f"
  unfolding fatal_only_def by blast+

lemma fatal_sbind: "fatal_only m \<Longrightarrow> (\<And>a. fatal_only (f a)) \<Longrightarrow> fatal_only (sbind m f)"
  unfolding fatal_only_def by (force elim!: sbind_cases)

lemma fatal_pager_io: "fatal_only (pager_io m)"
  by (auto simp: fatal_only_def pager_io_def io_at_def split: prod.splits sum.splits)

lemma fatal_pager_commit: "fatal_only (pager_commit xxh root count)"
  unfolding pager_commit_def
proof (rule fatal_sbind)
  show "fatal_only sync_data" unfolding sync_data_def by (rule fatal_pager_io)
  show "fatal_only (\<lambda>pg. let target_slot = 1 - p_active_slot pg;
           content = \<lparr>mc_page_size = p_page_size pg, mc_txn_id = p_txn_id pg + 1,
                      mc_root_page_id = root, mc_page_count = count\<rparr>
       in sbind (spure (encode_meta_slot xxh content)) (\<lambda>slot_buf.
          let offset = ucast target_slot * META_SLOT_LEN :: u64
          in sbind (pager_io (write_all_at slot_buf (unat offset))) (\<lambda>_.
             sbind (pager_io file_sync) (\<lambda>_ pg.
               (Inr (), pg\<lparr>p_active_slot := target_slot, p_txn_id := p_txn_id pg + 1,
                           p_root_page_id := root, p_page_count := count\<rparr>)))) pg)"
    unfolding Let_def encode_meta_slot_Inr sbind_spure
    by (rule fatalI, erule fatalD [rotated], intro fatal_sbind fatal_pager_io) (simp add: fatal_only_def)
qed

lemma write_data_page_fatal: "write_data_page xxh pid buf pg = ((Inl e, b), pg') \<Longrightarrow> \<exists>f. e = Fatal f"
  using fatal_pager_io
  by (fastforce simp: write_data_page_def stamp_checksum_def Let_def write_u64_def write_bytes_def buffer_bounds_def
      fatal_only_def split: sum.splits prod.splits if_splits)

lemma flush_ids_fatal: "flush_ids xxh ids p = (Inl e, p') \<Longrightarrow> \<exists>f. e = Fatal f"
  by (induction ids arbitrary: p)
    (auto simp: Let_def dest: write_data_page_fatal split: option.splits prod.splits sum.splits)

lemma fatal_pool_commit: "fatal_only (pool_commit xxh root)"
proof -
  have "fatal_only pool_sync"
    using fatal_pager_io [of file_sync] by (auto simp: fatal_only_def pool_sync_def sync_data_def split: prod.splits)
  then have flush: "fatal_only (flush_all_dirty xxh)"
    using flush_ids_fatal unfolding flush_all_dirty_def fatal_only_def by (force elim!: sbind_cases)
  show ?thesis unfolding pool_commit_def
    by (rule fatal_sbind [OF flush]) (auto intro!: fatalI dest!: fatalD [OF fatal_pager_commit] split: prod.splits)
qed

section \<open>The anchor\<close>

definition anchored :: "(bytes \<Rightarrow> u64) \<Rightarrow> pool \<Rightarrow> tree option \<Rightarrow> (i64 \<rightharpoonup> row) \<Rightarrow> bool" where
  "anchored xxh p t M \<longleftrightarrow> represents xxh p t M \<and>
     (\<exists>q. settled xxh q t M \<and> committed_tree.sound xxh (bp_pager q) p)"

lemma settled_anchored: "represents xxh p t M \<Longrightarrow> settled xxh p t M \<Longrightarrow> anchored xxh p t M"
  using settled_sound by (auto simp: anchored_def)

lemma anchored_recovers: "anchored xxh p t M \<Longrightarrow> crash_image (pool_file p) c \<Longrightarrow> recovers xxh path c M"
  using recovers_committed sound_keeps unfolding anchored_def by blast

lemma refused_call:
  assumes "kv_step op M r M'" "op_writes op \<longrightarrow> (\<forall>a. r \<noteq> Inr a)"
  shows "M' = M" "r = Inl e \<Longrightarrow> \<exists>f. e = Permanent f"
  using assms by (auto elim: kv_step.cases simp: op_writes_def)

lemma committing_refused:
  assumes "committed_tree.costs xxh pg0 k work" "committed_tree.stock xxh pg0 k p"
    and "committing xxh work p = Some (Inl (Permanent e), p')"
  shows "committed_tree.sound xxh pg0 p'"
proof -
  have stock: "committed_tree.stock xxh pg0 (0 + k) p" using assms(2) by simp
  show ?thesis
    using assms(3) unfolding committing_def
  proof (cases rule: dbind_cases)
    case (err e)
    then show ?thesis using committed_tree.costs_sound [OF assms(1,2)] by blast
  next
    case (ok x p1)
    obtain rc pc where "pool_commit xxh (fst x) p1 = (rc, pc)" by fastforce
    then show ?thesis using ok(2) fatal_pool_commit [of xxh "fst x"]
      by (cases x; cases rc) (auto simp: fatal_only_def dbind_def dlift_def dpure_def)
  qed
qed

lemma anchored_call:
  assumes a: "anchored xxh p t M" and acc: "db_accepts xxh \<lparr>db_pool = p\<rparr> t op"
  shows "\<exists>r p' t' M'. pool_call xxh op p = Some (r, p') \<and> kv_step op M r M' \<and> anchored xxh p' t' M' \<and>
    call_effect xxh op p t r p' t' M'"
proof -
  have rep: "represents xxh p t M" using a by (simp add: anchored_def)
  from db_call_law [of xxh "\<lparr>db_pool = p\<rparr>" t M op] rep acc obtain r p' t' M' where
    c: "pool_call xxh op p = Some (r, p')" "kv_step op M r M'" "represents xxh p' t' M'" "call_effect xxh op p t r p' t' M'"
    by (auto simp: db_call_pool)
  have "anchored xxh p' t' M'"
    using c(4) unfolding call_effect_def
  proof (elim disjE conjE exE)
    fix u
    assume "t' = Some u"
      and "written xxh p p' u M' (op_ids op + 2 * height_of t + 3) (Suc (height_of t)) (cells_of t \<union> op_cells p op)"
    then show ?thesis using settled_anchored [OF c(3)] written_settled by blast
  next
    assume look: "looked_at xxh p p'" "t' = t" and no: "op_writes op \<longrightarrow> (\<forall>a. r \<noteq> Inr a)"
    from a obtain q where q: "settled xxh q t M" "committed_tree.sound xxh (bp_pager q) p" by (auto simp: anchored_def)
    have "committed_tree.sound xxh (bp_pager q) p'"
    proof (cases "op_writes op")
      case True
      let ?k = "op_ids op + 2 * height_of t + 3"
      have "unat (bp_next_page_id p) + ?k < 2 ^ 32"
        using db_accepts_ids [OF acc True] by (simp add: ids_left_def)
      note stock = sound_stock [OF q(2) this]
      from committed_tree.call_work [OF represents_calm [OF rep] True stock] obtain work where
        w: "committed_tree.tracks xxh (bp_pager q) ?k work" "pool_call xxh op p = committing xxh work p" .
      obtain f where "r = Inl (Permanent f)"
        using True no refused_call(2) [OF c(2) no] by (cases r) blast+
      then show ?thesis using committing_refused [OF committed_tree.tracks_costs [OF w(1)] stock] c(1) w(2) by simp
    next
      case False
      show ?thesis using committed_tree.costs_sound [OF committed_tree.reading_costs [OF False] _ c(1)] q(2) by simp
    qed
    moreover have "M' = M" using refused_call(1) [OF c(2) no] .
    ultimately show ?thesis using q(1) c(3) look(2) unfolding anchored_def by auto
  qed
  with c show ?thesis by blast
qed

section \<open>Durable sessions\<close>

definition durable_rep :: "(bytes \<Rightarrow> u64) \<Rightarrow> database \<Rightarrow> tree option \<Rightarrow> (i64 \<rightharpoonup> row) \<Rightarrow> bool" where
  "durable_rep xxh db t M \<longleftrightarrow> anchored xxh (db_pool db) t M"

lemma durable_db_rep: "durable_rep xxh db t M \<Longrightarrow> db_rep xxh db t M"
  by (simp add: durable_rep_def anchored_def db_rep_def)

lemma db_accepts_pool: "db_accepts xxh \<lparr>db_pool = db_pool db\<rparr> t op = db_accepts xxh db t op"
  by (simp add: db_accepts_def split: kv_op.splits)

lemma durable_call:
  assumes "durable_rep xxh db t M" "db_accepts xxh db t op"
  shows "\<exists>r p' t' M'. db_call xxh op db = Some (r, db\<lparr>db_pool := p'\<rparr>) \<and> kv_step op M r M' \<and>
    durable_rep xxh (db\<lparr>db_pool := p'\<rparr>) t' M' \<and> call_effect xxh op (db_pool db) t r p' t' M'"
  using anchored_call [of xxh "db_pool db" t M op] assms
  by (auto simp: durable_rep_def db_call_pool db_accepts_pool)

interpretation durable: kv_session "durable_rep xxh" "db_accepts xxh" "db_call xxh" db_affords modest_op for xxh
proof
  fix db t M op key n
  show "durable_rep xxh db t M \<Longrightarrow> db_accepts xxh db t op \<Longrightarrow>
      \<exists>r db' t' M'. db_call xxh op db = Some (r, db') \<and> kv_step op M r M' \<and> durable_rep xxh db' t' M'"
    using durable_call by blast
  show "db_accepts xxh db t (OpGet key)" "db_accepts xxh db t OpScan" by (simp_all add: db_accepts_def)
  assume d: "durable_rep xxh db t M" and a: "db_affords db t (Suc n)" and m: "modest_op op"
  have aff: "pool_affords (db_pool db) t (Suc n)" using a by (simp add: db_affords_def)
  from affords_accepts [OF durable_db_rep [OF d] a m] durable_call [OF d] obtain r p' t' M' where
    r: "db_call xxh op db = Some (r, db\<lparr>db_pool := p'\<rparr>)" "kv_step op M r M'" "durable_rep xxh (db\<lparr>db_pool := p'\<rparr>) t' M'"
      "call_effect xxh op (db_pool db) t r p' t' M'" by blast
  have "pool_affords p' t' n" by (rule affords_after [OF aff m r(4)])
  with r(1-3) show "\<exists>r db' t' M'. db_call xxh op db = Some (r, db') \<and> kv_step op M r M' \<and>
      durable_rep xxh db' t' M' \<and> db_affords db' t' n"
    by (force simp: db_affords_def)
qed

section \<open>Claims\<close>

lemma new_durable:
  assumes "creatable fs path" "valid_page_size (page_bytes ps)" "1 \<le> capacity"
    and "create_with_capacity xxh path ps capacity fs = (Inr db, fs')"
  shows "durable_rep xxh db None Map.empty" "n \<le> 46000 \<Longrightarrow> db_affords db None n"
proof -
  obtain db0 fs0 where c: "create_with_capacity xxh path ps capacity fs = (Inr db0, fs0)" "db_rep xxh db0 None Map.empty"
    "bp_next_page_id (db_pool db0) = 2" "p_txn_id (bp_pager (db_pool db0)) = 0"
    by (rule created_database [OF assms(1-3)])
  obtain db1 fs1 where s: "create_with_capacity xxh path ps capacity fs = (Inr db1, fs1)"
    "\<forall>fl. settled xxh (with_faults fl (db_pool db1)) None Map.empty"
    by (rule new_settled [OF assms(1-3)])
  have eq: "db0 = db" "db1 = db" using assms(4) c(1) s(1) by simp_all
  have "with_faults (f_faults (pool_file (db_pool db))) (db_pool db) = db_pool db" by (simp add: with_faults_def)
  then have "settled xxh (db_pool db) None Map.empty" using s(2) eq(2) by metis
  then show "durable_rep xxh db None Map.empty"
    using settled_anchored c(2) eq(1) by (simp add: durable_rep_def db_rep_def)
  show "n \<le> 46000 \<Longrightarrow> db_affords db None n" using fresh_affords c(3,4) eq(1) by (simp add: db_affords_def)
qed

text \<open>
  C3: durability of sessions. Create a database, run any list of up to 46000 calls with small rows
  on it, and lose the process and the machine: the file opens again, with any cache capacity, and
  a scan lists exactly the map the calls have built, although no call was told to flush anything.
\<close>
lemma database_durable:
  assumes "creatable fs path" "valid_page_size (page_bytes ps)" "1 \<le> capacity" "1 \<le> capacity'"
    and "create_with_capacity xxh path ps capacity fs = (Inr db, fs')"
    and "list_all modest_op ops" "length ops \<le> 46000" "calls (db_call xxh) ops db = Some (rs, db')"
    and "crash_image (pool_file (db_pool db')) c"
  shows "\<exists>M' reopened. kv_run ops Map.empty rs M' \<and>
    fst (open_with_capacity xxh path capacity' (disk path c)) = Inr reopened \<and>
    (\<exists>entries after. db_scan xxh reopened = Some (Inr entries, after) \<and> lists_map entries M')"
proof -
  note new = new_durable [OF assms(1-3,5)]
  have "db_affords db None (length ops + 0)" using new(2) assms(7) by simp
  from durable.session [OF new(1) this assms(6)] obtain t' M' where
    r: "kv_run ops Map.empty rs M'" "durable_rep xxh db' t' M'" using assms(8) by auto
  then have "recovers xxh path c M'" using anchored_recovers assms(9) by (simp add: durable_rep_def)
  then obtain reopened t'' where o: "fst (open_with_capacity xxh path capacity' (disk path c)) = Inr reopened"
    "represents xxh (db_pool reopened) t'' M'" using assms(4) unfolding recovers_def by blast
  from scan_represents [OF o(2)] obtain entries p' where
    "btree_scan xxh (db_pool reopened) = Some (Inr entries, p')" "lists_map entries M'" .
  then have "\<exists>entries after. db_scan xxh reopened = Some (Inr entries, after) \<and> lists_map entries M'"
    by (simp add: db_scan_def on_pool_def)
  with r(1) o(1) show ?thesis by blast
qed

text \<open>An insert that succeeds and one that is refused, then a crash.\<close>

lemma database_durable_witness:
  "\<exists>db fs' rs db'. create_with_capacity (\<lambda>_. 0) ''db'' DEFAULT_PAGE_SIZE 1 empty_fs = (Inr db, fs') \<and>
     calls (db_call (\<lambda>_. 0)) [OpInsert 1 sample_row, OpInsert 1 sample_row] db = Some (rs, db') \<and>
     (\<exists>reopened entries after.
       fst (open_with_capacity (\<lambda>_. 0) ''db'' 7 (disk ''db'' (f_durable (pool_file (db_pool db'))))) = Inr reopened \<and>
       db_scan (\<lambda>_. 0) reopened = Some (Inr entries, after) \<and> lists_map entries [1 \<mapsto> sample_row])"
proof -
  let ?ops = "[OpInsert 1 sample_row, OpInsert 1 sample_row]"
  obtain db fs' where c: "create_with_capacity (\<lambda>_. 0) ''db'' DEFAULT_PAGE_SIZE 1 empty_fs = (Inr db, fs')"
    by (rule created_database [OF creatable_empty default_page_size, of 1]) simp_all
  have m: "list_all modest_op ?ops" using sample_row_modest by (simp add: modest_op_def)
  note new = new_durable [OF creatable_empty default_page_size _ c]
  have d: "durable_rep (\<lambda>_. 0) db None Map.empty" "db_affords db None (length ?ops + 0)" using new by simp_all
  from durable.session [OF d m] obtain rs db' where
    r: "calls (db_call (\<lambda>_. 0)) ?ops db = Some (rs, db')" by blast
  have crash: "crash_image (pool_file (db_pool db')) (f_durable (pool_file (db_pool db')))" by (rule crash_image_lost)
  from database_durable [OF creatable_empty default_page_size _ _ c m _ r crash, of 7] obtain M' reopened where
    o: "kv_run ?ops Map.empty rs M'"
      "fst (open_with_capacity (\<lambda>_. 0) ''db'' 7 (disk ''db'' (f_durable (pool_file (db_pool db'))))) = Inr reopened"
      "\<exists>entries after. db_scan (\<lambda>_. 0) reopened = Some (Inr entries, after) \<and> lists_map entries M'" by auto
  have "M' = [1 \<mapsto> sample_row]"
    using o(1) sample_row_modest(3) by (fastforce elim!: kv_run_ConsE kv_run_NilE kv_insertE)
  with c r o(2,3) show ?thesis by blast
qed

end
