(* ===== verification/Facade_Claims.thy ===== *)
theory Facade_Claims
  imports Durable
begin

text \<open>
  What every call of the facade keeps: the pages of the committed transaction stay as they are in the
  file under all faults and crashes, and the tree on the pages stays sorted and balanced.
\<close>

section \<open>Copy on write\<close>

lemma pool_commit_frozen:
  assumes st: "settled xxh p t M" and safe: "committed_stable.safe xxh (bp_pager p) p1"
    and c: "pool_commit xxh root p1 = (r, p')" and pid: "2 \<le> unat pid" "pid < p_page_count (bp_pager p)"
  shows "page_frozen (bp_pager p) (bp_pager p') pid"
proof -
  let ?base = "bp_pager p"
  obtain rf pf where fl: "flush_all_dirty xxh p1 = (rf, pf)" by fastforce
  have keep: "keeps_committed xxh ?base (bp_pager pf)"
    using committed_stable.flush_all_dirty_safe [OF safe fl] by (simp add: committed_stable.safe_def)
  then have fr: "page_frozen ?base (bp_pager pf) pid" using pid by (simp add: keeps_committed_def)
  show ?thesis
  proof (cases rf)
    case (Inl e)
    then have "p' = pf" using c fl by (simp add: pool_commit_def sbind_def)
    with fr show ?thesis by simp
  next
    case (Inr u)
    let ?pg = "bp_pager pf" and ?slot = "encoded_slot xxh (next_meta (bp_pager pf) root (bp_next_page_id pf))"
    obtain pg' where pc: "pager_commit xxh root (bp_next_page_id pf) ?pg = (r, pg')" "p' = pf\<lparr>bp_pager := pg'\<rparr>"
      using c fl Inr by (cases "pager_commit xxh root (bp_next_page_id pf) ?pg") (simp add: pool_commit_def sbind_def)
    have act: "p_active_slot ?pg \<in> {0, 1}" using keep pager_inv_active(1) [of xxh "bp_pager pf"] by (auto simp: keeps_committed_def)
    note pos = slot_regions(2) [OF conjunct1 [OF u8_slot_flip [OF act]]]
    have v: "valid_page_size (page_bytes (p_page_size ?base))" using pager_inv_active(2) [OF settled_inv [OF st]] .
    show ?thesis unfolding pc(2) using pc(1) act
    proof (cases rule: pager_commit_outcomes)
      case (unsynced e)
      then show "page_frozen ?base (bp_pager (pf\<lparr>bp_pager := pg'\<rparr>)) pid" using page_frozen_same_file [OF fr] by simp
    next
      case (torn e k)
      then show "page_frozen ?base (bp_pager (pf\<lparr>bp_pager := pg'\<rparr>)) pid"
        using page_frozen_contents [OF fr torn(3,4) _ v] pos by simp
    next
      case committed
      let ?pos = "slot_pos (1 - p_active_slot ?pg)" and ?off = "unat (file_offset ?base pid)"
      let ?mid = "?pg\<lparr>p_file := \<lparr>f_durable = contents (p_file ?pg), f_pending = [(?pos, ?slot)], f_faults = []\<rparr>\<rparr>"
      have "page_frozen ?base ?mid pid" using page_frozen_contents [OF fr _ _ _ v, of ?mid ?pos ?slot] pos by simp
      moreover have "contents (p_file ?mid) = f_durable (p_file pg')" by (simp add: committed contents_def apply_writes_def)
      ultimately show "page_frozen ?base (bp_pager (pf\<lparr>bp_pager := pg'\<rparr>)) pid"
        using page_frozen_sync [of ?base ?mid pid pg'] committed(5) by simp
    qed
  qed
qed

lemma pool_call_frozen:
  assumes st: "settled xxh p t M" and ids: "unat (bp_next_page_id p) + op_ids op + 2 * height_of t + 3 < 2 ^ 32"
    and c: "pool_call xxh op p = Some (r, p')"
    and pid: "2 \<le> unat pid" "pid < p_page_count (bp_pager p)"
  shows "page_frozen (bp_pager p) (bp_pager p') pid"
proof -
  have rep: "represents xxh (calm p) t M" using st by (simp add: settled_def)
  have keep: "page_frozen (bp_pager p) (bp_pager q) pid" if "committed_tree.sound xxh (bp_pager p) q" for q
    using sound_keeps [OF that] pid by (simp add: keeps_committed_def)
  show ?thesis
  proof (cases "op_writes op")
    case True
    let ?k = "op_ids op + 2 * height_of t + 3"
    have "unat (bp_next_page_id p) + ?k < 2 ^ 32" using ids by simp
    note stock = settled_stock [OF st this]
    from committed_tree.call_work [OF rep True stock] obtain work where
      work: "committed_tree.tracks xxh (bp_pager p) ?k work" and w: "pool_call xxh op p = committing xxh work p" .
    note costs = committed_tree.tracks_costs [OF work]
    show ?thesis
      using c unfolding w committing_def
    proof (cases rule: dbind_cases)
      case (err e)
      then show ?thesis using committed_tree.costs_sound [OF costs] stock keep by simp
    next
      case (ok x p1)
      have safe: "committed_stable.safe xxh (bp_pager p) p1"
        using committed_tree.costs_sound [OF costs stock ok(1)] committed_tree.sound_safe by simp
      obtain rc pc where "pool_commit xxh (fst x) p1 = (rc, pc)" by fastforce
      then show ?thesis
        using ok(2) pool_commit_frozen [OF st safe _ pid] by (cases x; cases rc) (auto simp: dbind_def dlift_def dpure_def)
    qed
  next
    case False
    show ?thesis
      using keep committed_tree.costs_sound [OF committed_tree.reading_costs [OF False] _ c] settled_sound [OF st] by simp
  qed
qed

section \<open>Claims\<close>

text \<open>
  C8: copy on write. Whatever a call on a settled database does as long as there are page ids left
  for it, with any row, whether it succeeds, is refused or fails midway (in a split that has no room,
  for instance), whichever of its I/O calls fail, and whatever of its unsynced writes a crash leaves:
  every page of the last transaction keeps its bytes in the file. Nothing the new transaction writes
  overwrites the old one.
\<close>
lemma committed_pages_kept:
  assumes "settled xxh (db_pool db) t M" "unat (bp_next_page_id (db_pool db)) + op_ids op + 2 * height_of t + 3 < 2 ^ 32"
    and "db_call xxh op db = Some (r, db')" "crash_image (pool_file (db_pool db')) c" "2 \<le> unat pid" "pid < p_page_count (bp_pager (db_pool db))"
    and "off = unat (file_offset (bp_pager (db_pool db)) pid)" "n = bytes_usize (p_page_size (bp_pager (db_pool db)))"
    and "off + n \<le> length (contents (pool_file (db_pool db)))"
  shows "off + n \<le> length c \<and> slice c off n = slice (contents (pool_file (db_pool db))) off n"
proof -
  let ?p = "db_pool db"
  obtain p' where p': "pool_call xxh op ?p = Some (r, p')" "db_pool db' = p'"
    using assms(3) by (auto simp: db_call_pool)
  have dur: "contents (pool_file ?p) = f_durable (pool_file ?p)"
    using assms(1) by (simp add: settled_def contents_synced)
  have "page_frozen (bp_pager ?p) (bp_pager p') pid" by (rule pool_call_frozen [OF assms(1,2) p'(1) assms(5,6)])
  then have f: "off + n \<le> length (f_durable (pool_file p'))" "untouched (f_pending (pool_file p')) off n"
    "slice (f_durable (pool_file p')) off n = slice (f_durable (pool_file ?p)) off n"
    using assms(7-9) dur by (simp_all add: page_frozen_def Let_def)
  have crash: "crash_image (pool_file p') c" using assms(4) p'(2) by simp
  then have "length (f_durable (pool_file p')) \<le> length c" by (simp add: crash_image_def)
  with f crash_image_untouched [OF crash f(2,1)] dur show ?thesis by simp
qed

text \<open>Deleting the only row of a database; the second I/O call fails after nine bytes.\<close>

lemma committed_pages_kept_witness:
  "\<exists>db r db' pid off n. f_faults (pool_file (db_pool db)) = [None, Some 9] \<and>
     db_call nonzero_hash (OpDelete 1) db = Some (r, db') \<and> pid < p_page_count (bp_pager (db_pool db)) \<and>
     off = unat (file_offset (bp_pager (db_pool db)) pid) \<and> n = bytes_usize (p_page_size (bp_pager (db_pool db))) \<and>
     off + n \<le> length (contents (pool_file (db_pool db))) \<and>
     slice (f_durable (pool_file (db_pool db'))) off n = slice (contents (pool_file (db_pool db))) off n"
proof -
  obtain db0 t where s: "db_rep nonzero_hash db0 (Some t) [1 \<mapsto> sample_row]" "db_affords db0 (Some t) (Suc 99)"
    "bp_dirty (db_pool db0) = []" "f_pending (pool_file (db_pool db0)) = []"
    "p_page_count (bp_pager (db_pool db0)) = bp_next_page_id (db_pool db0)" "2 \<le> unat (root_id t)"
    "pager_inv nonzero_hash (bp_pager (db_pool db0))" by (rule sample_database) simp
  let ?pool = "db_pool db0" and ?pid = "root_id t"
  let ?p = "with_faults [None, Some 9] ?pool"
  have rep: "represents nonzero_hash ?pool (Some t) [1 \<mapsto> sample_row]" using s(1) by (simp add: db_rep_def)
  have st: "settled nonzero_hash ?p (Some t) [1 \<mapsto> sample_row]"
    using represents_calm [OF rep] s(3-5,7) unfolding settled_def with_faults_sel by blast
  have inv: "store_inv nonzero_hash ?pool" and "stored (store_view nonzero_hash ?pool) t"
    using rep by (simp_all add: represents_def tree_ok_def)
  then obtain b where b: "store_view nonzero_hash ?pool ?pid = Some b" by (cases t) auto
  then have pid: "?pid < bp_next_page_id ?pool" and v: "pool_view nonzero_hash ?pool ?pid = Some b"
    by (simp_all add: store_view_Some)
  have "pool_inv nonzero_hash ?pool" using inv by (simp add: store_inv_def store_ok_def)
  from clean_view [OF this s(3) v] have "page_in_file (bp_pager ?pool) ?pid" by (auto simp: disk_page_def split: if_splits)
  moreover have "page_in_file (bp_pager ?p) ?pid = page_in_file (bp_pager ?pool) ?pid"
    by (simp add: page_in_file_def with_faults_def contents_def file_offset_def)
  ultimately have len: "unat (file_offset (bp_pager ?p) ?pid) + bytes_usize (p_page_size (bp_pager ?p)) \<le> length (contents (pool_file ?p))"
    by (simp add: page_in_file_def)
  have left: "ids_left ?p (Some t) 0" using affords_ids [of ?pool "Some t" 99 0] s(2) by (simp add: db_affords_def ids_left_def)
  then have acc: "db_accepts nonzero_hash \<lparr>db_pool = ?p\<rparr> (Some t) (OpDelete 1)" by (simp add: db_accepts_def)
  have ids: "unat (bp_next_page_id ?p) + op_ids (OpDelete 1) + 2 * height_of (Some t) + 3 < 2 ^ 32"
    using left by (simp add: ids_left_def op_ids_def)
  obtain r db' where c: "db_call nonzero_hash (OpDelete 1) \<lparr>db_pool = ?p\<rparr> = Some (r, db')"
    using call_returns [OF st acc] by (auto simp: db_call_pool)
  have crash: "crash_image (pool_file (db_pool db')) (f_durable (pool_file (db_pool db')))" by (rule crash_image_lost)
  have "2 \<le> unat ?pid" "?pid < p_page_count (bp_pager ?p)" using s(5,6) pid by simp_all
  with committed_pages_kept [where db = "\<lparr>db_pool = ?p\<rparr>", OF _ _ c crash _ _ refl refl, of "Some t" "[1 \<mapsto> sample_row]" ?pid] st len ids
  show ?thesis using c
    by (intro exI [of _ "\<lparr>db_pool = ?p\<rparr>"] exI [of _ r] exI [of _ db'] exI [of _ ?pid]) simp
qed

text \<open>
  C9: the invariant of the tree. After every call the database accepts (a write has room for its
  row: the leaf or both halves of its split take the cell, and page ids and a transaction number are
  left), while no I/O call fails, the pages form a search tree again: every key is where the
  separators above it route a lookup, all leaves are at the same depth, the keys of the leaves are
  those of the map, and the tree is at most one level higher than before.
\<close>
lemma tree_stays_balanced:
  assumes "db_rep xxh db t M" "db_accepts xxh db t op" "db_call xxh op db = Some (r, db')"
  shows "\<exists>t' M'. kv_step op M r M' \<and> db_rep xxh db' t' M' \<and> height_of t' \<le> Suc (height_of t) \<and>
    (case t' of
       None \<Rightarrow> pool_root_page_id (db_pool db') = EMPTY_TREE_ROOT \<and> M' = Map.empty
     | Some u \<Rightarrow> pool_root_page_id (db_pool db') = root_id u \<and> stored (store_view xxh (db_pool db')) u \<and>
         bst KEY_MIN KEY_END u \<and> level (height u) u \<and> cell_key ` set (tree_cells u) = dom M')"
proof -
  have rep: "represents xxh (db_pool db) t M" using assms(1) by (simp add: db_rep_def)
  from db_call_law [OF rep assms(2)] obtain r0 p' t' M' where
    "db_call xxh op db = Some (r0, db\<lparr>db_pool := p'\<rparr>)" "kv_step op M r0 M'" "represents xxh p' t' M'"
    "call_effect xxh op (db_pool db) t r0 p' t' M'" by blast
  then have c: "kv_step op M r M'" "represents xxh p' t' M'" "call_effect xxh op (db_pool db) t r p' t' M'" "db_pool db' = p'"
    using assms(3) by simp_all
  have "height_of t' \<le> Suc (height_of t)"
    using c(3) by (auto simp: call_effect_def written_def height_of_def)
  moreover have "case t' of
       None \<Rightarrow> pool_root_page_id p' = EMPTY_TREE_ROOT \<and> M' = Map.empty
     | Some u \<Rightarrow> pool_root_page_id p' = root_id u \<and> stored (store_view xxh p') u \<and>
         bst KEY_MIN KEY_END u \<and> level (height u) u \<and> cell_key ` set (tree_cells u) = dom M'"
    using c(2)
  proof (cases rule: represents_cases)
    case (tree u)
    have "cell_key ` set (tree_cells u) = dom M'" using represents_key [OF tree(5,6)] by (simp add: set_eq_iff domIff)
    with tree c(2) show ?thesis by (simp add: tree_ok_def represents_def)
  qed simp
  ultimately show ?thesis
    using c(1,2) unfolding c(4) db_rep_def by (intro exI [of _ t'] exI [of _ M'] conjI)
qed

lemma tree_stays_balanced_witness:
  "\<exists>db r db' u. db_call (\<lambda>_. 0) (OpInsert 2 sample_row) db = Some (r, db') \<and>
     pool_root_page_id (db_pool db') = root_id u \<and> bst KEY_MIN KEY_END u \<and> level (height u) u \<and>
     cell_key ` set (tree_cells u) = {1, 2}"
proof -
  obtain db t where s: "db_rep (\<lambda>_. 0) db (Some t) [1 \<mapsto> sample_row]"
    "\<forall>key. room_for (\<lambda>_. 0) (db_pool db) (Some t) key sample_row" by (rule sample_room)
  have acc: "db_accepts (\<lambda>_. 0) db (Some t) (OpInsert 2 sample_row)"
    using s(2) sample_row_modest(1) by (simp add: db_accepts_def)
  obtain r db' where c: "db_call (\<lambda>_. 0) (OpInsert 2 sample_row) db = Some (r, db')"
    using db.call_law [OF s(1) acc] by blast
  from tree_stays_balanced [OF s(1) acc c] obtain t' M' where
    r: "kv_step (OpInsert 2 sample_row) [1 \<mapsto> sample_row] r M'"
      "case t' of
       None \<Rightarrow> pool_root_page_id (db_pool db') = EMPTY_TREE_ROOT \<and> M' = Map.empty
     | Some u \<Rightarrow> pool_root_page_id (db_pool db') = root_id u \<and> stored (store_view (\<lambda>_. 0) (db_pool db')) u \<and>
         bst KEY_MIN KEY_END u \<and> level (height u) u \<and> cell_key ` set (tree_cells u) = dom M'"
    by blast
  have "M' = [1 \<mapsto> sample_row, 2 \<mapsto> sample_row]" using r(1) sample_row_modest(3) by (auto elim: kv_insertE)
  with r(2) have "\<exists>u. pool_root_page_id (db_pool db') = root_id u \<and> bst KEY_MIN KEY_END u \<and> level (height u) u \<and>
     cell_key ` set (tree_cells u) = {1, 2}" by (cases t') auto
  with c show ?thesis by blast
qed

end
