(* ===== verification/Error_Claims.thy ===== *)
theory Error_Claims
  imports Crash
begin

text \<open>
  The error paths outside the tree: what creating and opening report on which file, and what a page
  read does with a page that does not verify.
\<close>

section \<open>Creating and opening\<close>

lemma meta_region_len: "unat META_REGION_LEN = 8192"
  by (simp add: page_consts)

lemma disk_open: "open_existing path (disk path c) = (Inr (after_crash c []), disk path c)"
  by (simp add: open_existing_def open_tick_def disk_def)

lemma short_file_read_meta:
  assumes "length c < 8192"
  shows "fst (read_meta xxh path (after_crash c [])) = Inl (Fatal (FileTooSmall path (length c) 8192))"
proof -
  have "fault_free (after_crash c [])" by (simp add: fault_free_def after_crash_def)
  then obtain f' where "file_len (after_crash c []) = (Inr (length (contents (after_crash c []))), f')"
    by (rule file_len_fault_free)
  then show ?thesis using assms by (simp add: read_meta_def sbind_def spure_def io_at_def meta_region_len)
qed

section \<open>Claims\<close>

text \<open>
  C27: opening any file. A file shorter than the meta region is reported as such, one without a
  verifying slot as having no valid meta page, and a capacity of zero is refused; every other file
  opens, with an empty cache, at its newest verifying transaction.
\<close>
lemma open_outcomes:
  "let r = fst (open_with_capacity xxh path capacity (disk path c));
       usable = set_option (usable_slot xxh (slice c 0 4096)) \<union> set_option (usable_slot xxh (slice c 4096 4096))
   in if length c < 8192 then r = Inl (Fatal (FileTooSmall path (length c) 8192))
      else if usable = {} then r = Inl (Fatal (NoValidMetaPage path))
      else if capacity = 0 then r = Inl (Permanent InvalidBufferPoolCapacity)
      else \<exists>db. r = Inr db \<and> bp_entries (db_pool db) = [] \<and> bp_capacity (db_pool db) = capacity \<and>
             contents (pool_file (db_pool db)) = c \<and> meta_of (bp_pager (db_pool db)) \<in> usable \<and>
             p_txn_id (bp_pager (db_pool db)) = Max (mc_txn_id ` usable)"
proof (cases "length c < 8192")
  case True
  then show ?thesis
    using short_file_read_meta [OF True, of xxh path]
    by (auto simp: open_with_capacity_def pager_open_def disk_open sbind_def Let_def split: prod.splits sum.splits)
next
  case False
  let ?a = "usable_slot xxh (slice c 0 4096)" and ?b = "usable_slot xxh (slice c 4096 4096)"
  have "fault_free (after_crash c [])" "8192 \<le> length (contents (after_crash c []))"
    using False by (simp_all add: fault_free_def after_crash_def contents_def)
  then obtain f' where f': "read_meta xxh path (after_crash c []) = (select_meta path ?a ?b, f')" "contents f' = c"
    by (rule read_meta_fault_free [where xxh = xxh and path = path]) simp
  have open_r: "fst (open_with_capacity xxh path capacity (disk path c)) =
      (case select_meta path ?a ?b of
         Inl e \<Rightarrow> Inl e
       | Inr (slot, m) \<Rightarrow>
           if capacity = 0 then Inl (Permanent InvalidBufferPoolCapacity)
           else Inr \<lparr>db_pool = \<lparr>bp_pager = \<lparr>p_file = f', p_path = path, p_page_size = mc_page_size m, p_active_slot = slot,
             p_txn_id = mc_txn_id m, p_root_page_id = mc_root_page_id m, p_page_count = mc_page_count m\<rparr>,
             bp_capacity = capacity, bp_entries = [], bp_dirty = [], bp_recency = [], bp_next_page_id = mc_page_count m\<rparr>\<rparr>)"
    using f'(1) by (auto simp: open_with_capacity_def pager_open_def disk_open sbind_def spure_def pool_new_def
        split: sum.split prod.split)
  show ?thesis
    using False f'(2) unfolding open_r Let_def
    by (cases ?a; cases ?b) (auto simp: select_meta_def meta_of_def max_def not_less)
qed

text \<open>
  C38: creating over a file. Where there is a file the call reports \<open>AlreadyExists\<close> and changes
  nothing; but with a capacity of zero the file is made before the capacity is refused, so that
  the corrected call that follows finds the path taken.
\<close>
lemma create_on_existing:
  assumes "fs_open_faults fs = []"
  shows "case fs_files fs path of
      Some f \<Rightarrow> create_with_capacity xxh path ps capacity fs = (Inl (Permanent (AlreadyExists path)), fs)
    | None \<Rightarrow> list_all (\<lambda>x. x = None) (fs_new_faults fs) \<longrightarrow> valid_page_size (page_bytes ps) \<longrightarrow>
        (\<exists>f fs'. create_with_capacity xxh path ps 0 fs = (Inl (Permanent InvalidBufferPoolCapacity), fs') \<and>
           fs_files fs' path = Some f \<and>
           create_with_capacity xxh path ps capacity fs' = (Inl (Permanent (AlreadyExists path)), fs'))"
proof -
  have exists: "create_with_capacity xxh path ps capacity fs = (Inl (Permanent (AlreadyExists path)), fs)"
    if "fs_open_faults fs = []" "fs_files fs path = Some f" for fs :: filesystem and f
    using that by (simp add: create_with_capacity_def pager_create_def open_create_new_def open_tick_def sbind_def)
  show ?thesis
  proof (cases "fs_files fs path")
    case (Some f)
    then show ?thesis using exists [OF assms] by simp
  next
    case None
    have "\<exists>f fs'. create_with_capacity xxh path ps 0 fs = (Inl (Permanent InvalidBufferPoolCapacity), fs') \<and>
        fs_files fs' path = Some f \<and> create_with_capacity xxh path ps capacity fs' = (Inl (Permanent (AlreadyExists path)), fs')"
      if new: "list_all (\<lambda>x. x = None) (fs_new_faults fs)" "valid_page_size (page_bytes ps)"
    proof -
      from assms None new obtain pg fs' where
        c: "pager_create xxh path ps fs = (Inr pg, fs')" "fs_files fs' path = Some (p_file pg)"
        by (rule pager_create_fault_free [where xxh = xxh])
      have "fs_open_faults fs' = []"
        using c(1) assms None
        by (auto simp: pager_create_def open_create_new_def open_tick_def put_file_def Let_def split: sum.splits prod.splits)
      moreover have "create_with_capacity xxh path ps 0 fs = (Inl (Permanent InvalidBufferPoolCapacity), fs')"
        using c(1) by (simp add: create_with_capacity_def sbind_def spure_def pool_new_def)
      ultimately show ?thesis using exists [of fs'] c(2) by blast
    qed
    then show ?thesis using None by simp
  qed
qed

lemma create_on_existing_witness:
  "\<exists>fs'. create_with_capacity (\<lambda>_. 0) ''db'' DEFAULT_PAGE_SIZE 0 empty_fs = (Inl (Permanent InvalidBufferPoolCapacity), fs') \<and>
     create_with_capacity (\<lambda>_. 0) ''db'' DEFAULT_PAGE_SIZE 8 fs' = (Inl (Permanent (AlreadyExists ''db'')), fs')"
  using create_on_existing [where fs = empty_fs and path = "''db''" and xxh = "\<lambda>_. 0" and ps = DEFAULT_PAGE_SIZE and capacity = 8]
    default_page_size by auto

section \<open>Pages that do not verify\<close>

text \<open>
  C28: a page whose bytes do not hash to its trailer never reaches the tree. Reading it reports
  \<open>Corruption\<close> with the page's id, the hash in the trailer and that of the bytes, and leaves
  the cache and the file as they are.
\<close>
lemma corrupt_page_detected:
  assumes "map_of (bp_entries p) pid = None" "fault_free (pool_file p)" "8 \<le> n"
    and "off = unat (file_offset (bp_pager p) pid)" "n = bytes_usize (pool_page_size p)"
    and "off + n \<le> length (contents (pool_file p))" "buf = slice (contents (pool_file p)) off n"
    and "xxh (take (n - 8) buf) \<noteq> from_be_bytes (drop (n - 8) buf)"
  shows "\<exists>f. pool_get xxh pid p =
      (Inl (Fatal (Corruption pid (from_be_bytes (drop (n - 8) buf)) (xxh (take (n - 8) buf)))),
       p\<lparr>bp_pager := (bp_pager p)\<lparr>p_file := f\<rparr>\<rparr>) \<and> contents f = contents (pool_file p)"
proof -
  have buf: "page_at (bp_pager p) pid = buf" "length buf = n" and inf: "page_in_file (bp_pager p) pid"
    using assms(4-7) by (simp_all add: page_at_def page_in_file_def pool_page_size_def)
  have "slice buf (n - 8) 8 = drop (n - 8) buf" using buf(2) assms(3) by (simp add: slice_def)
  then have "u64_at buf (n - 8) = from_be_bytes (drop (n - 8) buf)" "page_body buf = take (n - 8) buf"
    using buf(2) by (simp_all add: u64_at_def page_body_def)
  then have v: "verify_checksum xxh buf = Inl (from_be_bytes (drop (n - 8) buf), xxh (take (n - 8) buf))"
    using assms(3,8) buf(2) by (simp add: verify_checksum_long)
  from assms(2) inf obtain f where f: "read_data_page xxh pid (bp_pager p) =
    (case verify_checksum xxh (page_at (bp_pager p) pid) of
       Inr _ \<Rightarrow> Inr (page_at (bp_pager p) pid)
     | Inl (expected, actual) \<Rightarrow> Inl (Fatal (Corruption pid expected actual)), (bp_pager p)\<lparr>p_file := f\<rparr>)"
    by (rule read_data_page_fault_free)
  have "contents f = contents (pool_file p)" using read_data_page_result(2) [OF f] by simp
  with f assms(1) show ?thesis by (intro exI [of _ f]) (simp add: buf v pool_get_def pool_read_def sbind_def)
qed

text \<open>A page of zeros under a hash that is never zero.\<close>

lemma corrupt_page_detected_witness:
  "\<exists>p p'. pool_get (\<lambda>_. 1) 2 p = (Inl (Fatal (Corruption 2 0 1)), p') \<and> bp_entries p' = []"
proof -
  let ?f = "\<lparr>f_durable = replicate 12288 0, f_pending = [], f_faults = []\<rparr>"
  let ?p = "\<lparr>bp_pager = \<lparr>p_file = ?f, p_path = ''db'', p_page_size = PageSize 4096, p_active_slot = 0, p_txn_id = 0,
      p_root_page_id = 2, p_page_count = 3\<rparr>, bp_capacity = 1, bp_entries = [], bp_dirty = [], bp_recency = [], bp_next_page_id = 3\<rparr>"
  let ?buf = "replicate 4096 (0 :: u8)"
  have off: "unat (file_offset (bp_pager ?p) 2) = 8192"
    by (simp add: file_offset_def page_consts saturating_sub_def)
  have n: "bytes_usize (pool_page_size ?p) = 4096" by (simp add: pool_page_size_def bytes_usize_def)
  have tr: "from_be_bytes (drop 4088 ?buf) = (0 :: u64)" by (simp add: from_be_bytes_def) code_simp
  have "\<exists>f. pool_get (\<lambda>_. 1) 2 ?p =
      (Inl (Fatal (Corruption 2 (from_be_bytes (drop (4096 - 8) ?buf)) 1)),
       ?p\<lparr>bp_pager := (bp_pager ?p)\<lparr>p_file := f\<rparr>\<rparr>) \<and> contents f = contents (pool_file ?p)"
    by (rule corrupt_page_detected [where off = 8192])
      (use off n tr in \<open>simp_all add: fault_free_def contents_def slice_def\<close>)
  then obtain f where "pool_get (\<lambda>_. 1) 2 ?p = (Inl (Fatal (Corruption 2 0 1)), ?p\<lparr>bp_pager := (bp_pager ?p)\<lparr>p_file := f\<rparr>\<rparr>)"
    using tr by auto
  then show ?thesis by (intro exI [of _ ?p] exI [of _ "?p\<lparr>bp_pager := (bp_pager ?p)\<lparr>p_file := f\<rparr>\<rparr>"]) simp
qed

section \<open>Cycles\<close>

text \<open>The page is cached, and it routes the key to itself.\<close>

definition self_routing :: "i64 \<Rightarrow> u32 \<Rightarrow> pool \<Rightarrow> bool" where
  "self_routing key pid p \<longleftrightarrow> (\<exists>buf. map_of (bp_entries p) pid = Some buf \<and>
     read_u8 buf 0 = Inr PAGE_TYPE_INTERIOR \<and> interior_find_child_for_key buf key = Inr pid)"

lemma self_routing_get:
  assumes "self_routing key pid p"
  obtains buf where "pool_get xxh pid p = (Inr buf, touch pid p)" "read_u8 buf 0 = Inr PAGE_TYPE_INTERIOR"
    "interior_find_child_for_key buf key = Inr pid" "self_routing key pid (touch pid p)"
  using assms by (auto simp: self_routing_def pool_get_def touch_def)

lemma descend_cycle: "descend_loop xxh key path pid p = Some y \<Longrightarrow> \<not> self_routing key pid p"
proof (induction rule: descend_loop.raw_induct [rotated, consumes 1, case_names step])
  case (step f xxh key path pid p y)
  show ?case
  proof
    assume "self_routing key pid p"
    then obtain buf where b: "pool_get xxh pid p = (Inr buf, touch pid p)" "read_u8 buf 0 = Inr PAGE_TYPE_INTERIOR"
      "interior_find_child_for_key buf key = Inr pid" "self_routing key pid (touch pid p)" by (rule self_routing_get)
    from step(2) b(1-3) have "f xxh key (path @ [pid]) pid (touch pid p) = Some y"
      by (simp add: dbind_def dlift_def dpure_def expect_page_type_def page_consts)
    with step(1) b(4) show False by blast
  qed
qed

lemma get_cycle: "get_loop xxh key max_loc pid p = Some y \<Longrightarrow> \<not> self_routing key pid p"
proof (induction rule: get_loop.raw_induct [rotated, consumes 1, case_names step])
  case (step f xxh key max_loc pid p y)
  show ?case
  proof
    assume "self_routing key pid p"
    then obtain buf where b: "pool_get xxh pid p = (Inr buf, touch pid p)" "read_u8 buf 0 = Inr PAGE_TYPE_INTERIOR"
      "interior_find_child_for_key buf key = Inr pid" "self_routing key pid (touch pid p)" by (rule self_routing_get)
    from step(2) b(1-3) have "f xxh key max_loc pid (touch pid p) = Some y"
      by (simp add: dbind_def dlift_def dpure_def expect_page_type_def page_consts)
    with step(1) b(4) show False by blast
  qed
qed

text \<open>
  The counter of page ids is not checked either: after the last id a release build goes on with the
  id of no page, whose place in the file is that of the first data page.
\<close>

lemma page_ids_wrap:
  assumes "bp_next_page_id p = - 1"
  shows "\<exists>p'. allocate_page_id p = (Inr (- 1), p') \<and> fst (allocate_page_id p') = Inr EMPTY_TREE_ROOT \<and>
    file_offset pg EMPTY_TREE_ROOT = file_offset pg FIRST_DATA_PAGE_ID"
  using assms by (simp add: allocate_page_id_def file_offset_def saturating_sub_def page_consts)

text \<open>The first read of a verified page brings it into the cache, and from then on it is served from there.\<close>

lemma verified_page_cached:
  assumes "pool_inv xxh p" "fault_free (pool_file p)" "page_in_file (bp_pager p) pid"
    and "verify_checksum xxh (page_at (bp_pager p) pid) = Inr ()"
    and "map_of (bp_entries p) pid \<in> {None, Some (page_at (bp_pager p) pid)}"
  obtains p' where "pool_get xxh pid p = (Inr (page_at (bp_pager p) pid), p')"
    "map_of (bp_entries p') pid = Some (page_at (bp_pager p) pid)"
proof (cases "map_of (bp_entries p) pid")
  case (Some buf)
  then show thesis using assms(5) that [of "touch pid p"] by (simp add: pool_get_def touch_def)
next
  case None
  let ?buf = "page_at (bp_pager p) pid"
  obtain f where f: "fault_free f" "read_data_page xxh pid (bp_pager p) = (Inr ?buf, (bp_pager p)\<lparr>p_file := f\<rparr>)"
    by (rule read_data_page_fault_free [OF assms(2,3), of xxh]) (simp add: assms(4))
  let ?p1 = "p\<lparr>bp_pager := (bp_pager p)\<lparr>p_file := f\<rparr>\<rparr>"
  have rd: "pool_read xxh pid p = (Inr ?buf, ?p1)" using f(2) by (simp add: pool_read_def)
  have "pid \<notin> set (bp_dirty ?p1)" "fault_free (pool_file ?p1)" using pool_wf_dirty [OF assms(1) None] f(1) by simp_all
  then obtain p2 where "insert_cached xxh pid ?buf False ?p1 = (Inr (), p2)"
    by (rule insert_cached_fault_free [OF pool_read_inv(1) [OF assms(1) rd]])
  then have get: "pool_get xxh pid p = (Inr ?buf, p2)" using rd None by (simp add: pool_get_def sbind_def spure_def)
  then show thesis using that pool_get_inv [OF assms(1) get] by blast
qed

lemma descend_from:
  assumes "pool_get xxh pid p = (Inr buf, p')" "map_of (bp_entries p') pid = Some buf"
    and "read_u8 buf 0 = Inr PAGE_TYPE_INTERIOR" "interior_find_child_for_key buf key = Inr pid"
  shows "descend_loop xxh key path pid p = None" "get_loop xxh key max_loc pid p = None"
proof -
  have c: "self_routing key pid p'" using assms(2-4) by (simp add: self_routing_def)
  have "descend_loop xxh key (path @ [pid]) pid p' = None" using descend_cycle c by (metis not_Some_eq)
  then show "descend_loop xxh key path pid p = None"
    using assms(1,3,4) by (subst descend_loop.simps) (simp add: dbind_def dlift_def dpure_def expect_page_type_def page_consts)
  have "get_loop xxh key max_loc pid p' = None" using get_cycle c by (metis not_Some_eq)
  then show "get_loop xxh key max_loc pid p = None"
    using assms(1,3,4) by (subst get_loop.simps) (simp add: dbind_def dlift_def dpure_def expect_page_type_def page_consts)
qed

text \<open>
  C40: no descent checks for cycles. Take a database whose root is an interior page in the file that
  verifies, read before or not, and routes a key to itself, while no I/O call fails. Then a lookup,
  an insert, an update and a delete of that key never return: the page is not even reported as
  corrupt.
\<close>
lemma cyclic_root_diverges:
  assumes "pool_inv xxh (db_pool db)" "fault_free (pool_file (db_pool db))"
    and "pool_root_page_id (db_pool db) = pid" "pid \<noteq> EMPTY_TREE_ROOT" "buf = page_at (bp_pager (db_pool db)) pid"
    and "page_in_file (bp_pager (db_pool db)) pid" "verify_checksum xxh buf = Inr ()"
    and "map_of (bp_entries (db_pool db)) pid \<in> {None, Some buf}"
    and "read_u8 buf 0 = Inr PAGE_TYPE_INTERIOR" "interior_find_child_for_key buf key = Inr pid"
  shows "db_get xxh key db = None \<and> db_insert xxh key row db = None \<and> db_update xxh key row db = None \<and>
    db_delete xxh key db = None"
proof -
  let ?p = "db_pool db"
  obtain p' where get: "pool_get xxh pid ?p = (Inr buf, p')" "map_of (bp_entries p') pid = Some buf"
    using verified_page_cached [OF assms(1,2,6)] assms(5,7,8) by metis
  note loops = descend_from [OF get assms(9,10)]
  have d: "descend_path xxh pid key ?p = None" using loops(1) by (simp add: descend_path_def)
  have "btree_get xxh key ?p = None" using loops(2) assms(3,4) by (simp add: btree_get_def)
  moreover have f: "find_key xxh key ?p = None" using d assms(3,4) by (simp add: find_key_def dbind_def)
  then have "btree_update xxh key row ?p = None" "btree_delete xxh key ?p = None"
    by (simp_all add: btree_update_def btree_delete_def dbind_def)
  moreover have "btree_insert xxh key row ?p = None" using d assms(3,4) by (simp add: btree_insert_def dbind_def)
  ultimately show ?thesis
    by (simp add: db_get_def db_insert_def db_update_def db_delete_def on_pool_def dbind_def)
qed

text \<open>A file with one interior page of no keys, whose rightmost child is the page itself, freshly opened.\<close>

lemma init_interior_slice:
  assumes "init_interior buf right = Inr buf'" "17 \<le> length buf" "length buf \<le> 65536" "9 \<le> at"
  shows "slice buf' at m = slice buf at m"
proof -
  have "8 + 9 \<le> length buf" "(5::nat) \<le> 9" "(9::nat) \<le> 9" using assms(2) by simp_all
  then obtain b where b: "init_slotted buf PAGE_TYPE_INTERIOR = Inr b" "length b = length buf"
    "\<forall>at m. 5 \<le> at \<longrightarrow> slice b at m = slice buf at m"
    using assms(3) by (rule init_slotted_cells [where ty = PAGE_TYPE_INTERIOR]) blast
  have "buf' = put_at b 5 (to_be_bytes 4 right)" using assms(1,2) b(1,2) by (simp add: init_interior_def write_oks)
  moreover have "slice (put_at b 5 (to_be_bytes 4 right)) at m = slice b at m" using assms(2,4) b(2) by (simp add: slice_simps)
  ultimately show ?thesis using b(3) assms(4) by simp
qed

lemma cyclic_root_diverges_witness:
  "\<exists>c db fs'. open_with_capacity (\<lambda>_. 0) ''db'' 1 (disk ''db'' c) = (Inr db, fs') \<and>
     db_get (\<lambda>_. 0) 7 db = None \<and> db_delete (\<lambda>_. 0) 7 db = None"
proof -
  obtain buf where b: "init_interior (replicate 4096 0) 2 = Inr buf" "length buf = 4096" "interior_cells buf []"
    "rightmost_child buf = 2" "u8_at buf 0 = PAGE_TYPE_INTERIOR"
    by (rule init_interior_cells [of "replicate 4096 0" 2]) auto
  have "slice buf 4088 8 = slice (replicate 4096 0) 4088 8" by (rule init_interior_slice [OF b(1)]) simp_all
  then have "u64_at buf 4088 = from_be_bytes (replicate 8 0)" by (simp add: u64_at_def slice_def)
  moreover have "from_be_bytes (replicate 8 0) = (0 :: u64)" by code_simp
  ultimately have v: "verify_checksum (\<lambda>_. 0) buf = Inr ()" using b(2) by (simp add: verify_checksum_long)
  let ?m = "\<lparr>mc_page_size = DEFAULT_PAGE_SIZE, mc_txn_id = 0, mc_root_page_id = 2, mc_page_count = 3\<rparr>"
  let ?c = "encoded_slot (\<lambda>_. 0) ?m @ replicate 4096 0 @ buf"
  have "slice ?c 0 4096 = encoded_slot (\<lambda>_. 0) ?m" "slice ?c 4096 4096 = replicate 4096 0" by (simp_all add: slice_def)
  then have o: "opens_to (\<lambda>_. 0) ''db'' (contents (after_crash ?c [])) 0 ?m"
    using default_page_size by (simp add: opens_to_def b(2) usable_encoded_slot zero_slot_unusable select_meta_def)
  have fs: "fs_open_faults (disk ''db'' ?c) = []" "fs_files (disk ''db'' ?c) ''db'' = Some (after_crash ?c [])"
    "fault_free (after_crash ?c [])" by (simp_all add: disk_def after_crash_def fault_free_def)
  obtain pg fs' where pg: "pager_open (\<lambda>_. 0) ''db'' (disk ''db'' ?c) = (Inr pg, fs')" "meta_of pg = ?m"
    "contents (p_file pg) = ?c" "fault_free (p_file pg)"
    by (rule pager_open_opens_to [OF fs o]) simp
  have m: "p_page_size pg = DEFAULT_PAGE_SIZE" "p_root_page_id pg = 2" "p_page_count pg = 3"
    using pg(2) by (simp_all add: meta_of_def)
  let ?p = "\<lparr>bp_pager = pg, bp_capacity = 1, bp_entries = [], bp_dirty = [], bp_recency = [], bp_next_page_id = 3\<rparr>"
  have open_db: "open_with_capacity (\<lambda>_. 0) ''db'' 1 (disk ''db'' ?c) = (Inr \<lparr>db_pool = ?p\<rparr>, fs')"
    using pg(1) m(3) by (simp add: open_with_capacity_def sbind_def spure_def pool_new_def)
  have inv: "pool_inv (\<lambda>_. 0) ?p"
    using default_page_size m(1) by (simp add: pool_inv_def pool_wf_def pool_coherent_def pool_page_size_def)
  have off: "unat (file_offset pg 2) = 8192" "bytes_usize (p_page_size pg) = 4096"
    using m(1) unat_file_offset [of pg 2] default_page_size by (simp_all add: DEFAULT_PAGE_SIZE_def bytes_usize_def)
  have page: "page_at pg 2 = buf" "page_in_file pg 2"
    using b(2) by (simp_all add: page_at_def page_in_file_def off pg(3) slice_def)
  have r: "read_u8 buf 0 = Inr PAGE_TYPE_INTERIOR" using b(2,5) by (simp add: read_oks)
  have i: "interior_find_child_for_key buf 7 = Inr 2"
    using interior_find_child_for_key_cells [OF b(3), of 7] b(4) by (simp add: route_def)
  have "db_get (\<lambda>_. 0) 7 \<lparr>db_pool = ?p\<rparr> = None \<and> db_insert (\<lambda>_. 0) 7 sample_row \<lparr>db_pool = ?p\<rparr> = None \<and>
      db_update (\<lambda>_. 0) 7 sample_row \<lparr>db_pool = ?p\<rparr> = None \<and> db_delete (\<lambda>_. 0) 7 \<lparr>db_pool = ?p\<rparr> = None"
    by (rule cyclic_root_diverges [where pid = 2 and buf = buf])
      (use inv pg(4) m(2) page v r i in \<open>simp_all add: pool_root_page_id_def page_consts\<close>)
  then show ?thesis using open_db by blast
qed

end
