(* ===== verification/Guard.thy ===== *)
theory Guard
  imports Recovery
begin

text \<open>
  What I/O errors may do to the file. A commit that fails may have written its meta slot, whole or
  torn, and that slot may be found after a crash, so the map of the failed call stays in doubt until
  the next commit succeeds. The invariant \<open>guard\<close> of the pager says what is known meanwhile:
  the pages of the last transaction and of every transaction in doubt are frozen, the active slot is
  in place, and every byte of the other slot is one of a slot that was written there.
\<close>

section \<open>The bytes a crash may leave\<close>

definition may_hold :: "dbfile \<Rightarrow> nat \<Rightarrow> u8 set" where
  "may_hold f i = insert (byte_at (f_durable f) i) (set (writes_at (f_pending f) i))"

lemma crash_may_hold: "crash_image f c \<Longrightarrow> i < length c \<Longrightarrow> c ! i \<in> may_hold f i"
  by (auto simp: crash_image_def list_all_iff may_hold_def)

lemma may_hold_same:
  "f_durable f' = f_durable f \<Longrightarrow> f_pending f' = f_pending f \<Longrightarrow> may_hold f' = may_hold f"
  by (simp add: fun_eq_iff may_hold_def)

lemma writes_at_snoc:
  "writes_at (ws @ [(off, bs)]) i = writes_at ws i @ (if off \<le> i \<and> i < off + length bs then [bs ! (i - off)] else [])"
  by (simp add: writes_at_def)

lemma may_hold_write:
  assumes "f_durable f' = f_durable f" "f_pending f' = f_pending f @ [(off, bs)]"
  shows "may_hold f' i = may_hold f i \<union> (if off \<le> i \<and> i < off + length bs then {bs ! (i - off)} else {})"
  by (auto simp: may_hold_def assms writes_at_snoc)

lemma byte_at_overwrite:
  "byte_at (overwrite c off bs) i = (if off \<le> i \<and> i < off + length bs then bs ! (i - off) else byte_at c i)"
  by (auto simp: byte_at_def overwrite_def put_at_def nth_append min_def)

text \<open>What a read sees is one of the possible outcomes.\<close>

lemma contents_may_hold: "byte_at (contents f) i \<in> may_hold f i"
proof -
  have "byte_at (apply_writes c ws) i \<in> insert (byte_at c i) (set (writes_at ws i))" for c ws
  proof (induction ws rule: rev_induct)
    case (snoc w ws)
    then show ?case by (cases w) (auto simp: byte_at_overwrite writes_at_snoc)
  qed simp
  then show ?thesis by (simp add: contents_def may_hold_def)
qed

lemma may_hold_sync:
  assumes "f_durable f' = contents f" "f_pending f' = []"
  shows "may_hold f' i \<subseteq> may_hold f i"
  using contents_may_hold [of f i] by (simp add: may_hold_def [of f'] assms writes_at_def)

section \<open>The meta slots\<close>

text \<open>The bytes at position \<open>i\<close> of the slots \<open>S\<close>.\<close>

definition slot_bytes :: "bytes set \<Rightarrow> nat \<Rightarrow> u8 set" where
  "slot_bytes S i = (\<lambda>s. s ! i) ` S"

lemma slot_bytes_mono: "S \<subseteq> T \<Longrightarrow> slot_bytes S i \<subseteq> slot_bytes T i"
  by (auto simp: slot_bytes_def)

definition slots_hold :: "(bytes \<Rightarrow> u64) \<Rightarrow> bytes set \<Rightarrow> pager \<Rightarrow> bool" where
  "slots_hold xxh S pg \<longleftrightarrow> 8192 \<le> length (f_durable (p_file pg)) \<and>
     untouched (f_pending (p_file pg)) (slot_pos (p_active_slot pg)) 4096 \<and>
     slice (f_durable (p_file pg)) (slot_pos (p_active_slot pg)) 4096 = encoded_slot xxh (meta_of pg) \<and>
     (\<forall>i < 4096. may_hold (p_file pg) (slot_pos (1 - p_active_slot pg) + i) \<subseteq> slot_bytes S i)"

lemma slots_hold_same:
  assumes "slots_hold xxh S pg" "same_pager pg pg'"
    and "f_durable (p_file pg') = f_durable (p_file pg)" "f_pending (p_file pg') = f_pending (p_file pg)"
  shows "slots_hold xxh S pg'"
  using assms(1) may_hold_same [OF assms(3,4)] by (simp add: slots_hold_def same_pager_sel [OF assms(2)] assms(3,4))

lemma slots_hold_sync:
  assumes "slots_hold xxh S pg" "same_pager pg pg'" "p_active_slot pg \<in> {0, 1}"
    and "f_durable (p_file pg') = contents (p_file pg)" "f_pending (p_file pg') = []"
  shows "slots_hold xxh S pg'"
proof -
  have s: "8192 \<le> length (f_durable (p_file pg))" "untouched (f_pending (p_file pg)) (slot_pos (p_active_slot pg)) 4096"
    using assms(1) by (simp_all add: slots_hold_def)
  have "slice (contents (p_file pg)) (slot_pos (p_active_slot pg)) 4096 =
      slice (f_durable (p_file pg)) (slot_pos (p_active_slot pg)) 4096"
    using contents_untouched [OF s(2), of "f_durable (p_file pg)"] slot_regions(2) [OF assms(3)] s(1)
    by (simp add: contents_def)
  moreover have "8192 \<le> length (contents (p_file pg))"
    using s(1) length_apply_writes [of "f_durable (p_file pg)" "f_pending (p_file pg)"] by (simp add: contents_def)
  ultimately show ?thesis
    using assms(1) may_hold_sync [OF assms(4,5)]
    by (auto simp: slots_hold_def same_pager_sel [OF assms(2)] assms(4,5))
qed

lemma slots_hold_write:
  assumes "slots_hold xxh S pg" "same_pager pg pg'" "p_active_slot pg \<in> {0, 1}"
    and "f_durable (p_file pg') = f_durable (p_file pg)" "f_pending (p_file pg') = f_pending (p_file pg) @ [(off, bs)]"
    and "8192 \<le> off"
  shows "slots_hold xxh S pg'"
proof -
  have pos: "slot_pos (p_active_slot pg) + 4096 \<le> off" "slot_pos (1 - p_active_slot pg) + 4096 \<le> off"
    using slot_regions(2) [OF assms(3)] slot_regions(2) [OF conjunct1 [OF u8_slot_flip [OF assms(3)]]] assms(6) by simp_all
  then show ?thesis
    using assms(1) may_hold_write [OF assms(4,5)]
    by (auto simp: slots_hold_def same_pager_sel [OF assms(2)] assms(4,5))
qed

text \<open>Pages of the transaction of \<open>pgc\<close>.\<close>

definition pages_frozen :: "pager \<Rightarrow> pager \<Rightarrow> bool" where
  "pages_frozen pgc pg \<longleftrightarrow> (\<forall>pid. 2 \<le> unat pid \<and> pid < p_page_count pgc \<longrightarrow> page_frozen pgc pg pid)"

text \<open>
  \<open>pg0\<close> is the pager of the last transaction, \<open>C\<close> the pagers of the transactions that may
  be found after a crash, \<open>n1\<close> a bound on their page counts, \<open>S\<close> the slots written over
  the inactive one.
\<close>

definition guard :: "(bytes \<Rightarrow> u64) \<Rightarrow> pager \<Rightarrow> u32 \<Rightarrow> bytes set \<Rightarrow> pager set \<Rightarrow> pager \<Rightarrow> bool" where
  "guard xxh pg0 n1 S C pg \<longleftrightarrow> commit_ready xxh pg \<and> same_pager pg0 pg \<and> slots_hold xxh S pg \<and>
     (\<forall>pgc \<in> C. p_page_size pgc = p_page_size pg0 \<and> p_page_count pgc \<le> n1 \<and> pages_frozen pgc pg)"

lemma guardI:
  assumes "guard xxh pg0 n1 S C pg" "commit_ready xxh pg'" "same_pager pg pg'" "slots_hold xxh S pg'"
    and "\<And>pgc. pgc \<in> C \<Longrightarrow> pages_frozen pgc pg \<Longrightarrow> pages_frozen pgc pg'"
  shows "guard xxh pg0 n1 S C pg'"
  using assms same_pager_trans unfolding guard_def by blast

lemma guard_active: "guard xxh pg0 n1 S C pg \<Longrightarrow> p_active_slot pg \<in> {0, 1}"
  by (simp add: guard_def commit_ready_def)

lemma guard_same_file:
  assumes "guard xxh pg0 n1 S C pg" "same_pager pg pg'"
    and "f_durable (p_file pg') = f_durable (p_file pg)" "f_pending (p_file pg') = f_pending (p_file pg)"
  shows "guard xxh pg0 n1 S C pg'"
proof (rule guardI [OF assms(1) _ assms(2)])
  show "commit_ready xxh pg'"
    using commit_ready_same [OF _ assms(2)] assms(1) by (simp add: guard_def contents_def assms(3,4))
  show "slots_hold xxh S pg'" using slots_hold_same [OF _ assms(2-4)] assms(1) by (simp add: guard_def)
  show "pages_frozen pgc pg'" if "pages_frozen pgc pg" for pgc
    using that page_frozen_same_file [OF _ assms(3,4)] unfolding pages_frozen_def by blast
qed

interpretation guarded: tree_stable xxh "guard xxh pg0 n1 S C" "{pid. n1 \<le> pid}" "p_page_size pg0" n1
  for xxh pg0 n1 S C
proof
  fix pg pg' :: pager and pid buf buf' and r r'' :: "unit presult" and r' :: "bytes presult"
  assume K: "guard xxh pg0 n1 S C pg"
  then have ready: "commit_ready xxh pg" and same: "same_pager pg0 pg" and hold: "slots_hold xxh S pg"
    by (simp_all add: guard_def)
  note act = guard_active [OF K]
  show "read_data_page xxh pid pg = (r', pg') \<Longrightarrow> guard xxh pg0 n1 S C pg'"
    using guard_same_file [OF K] read_data_page_result(1,3,4) by metis
  show "sync_data pg = (r'', pg') \<Longrightarrow> guard xxh pg0 n1 S C pg'"
  proof -
    assume s: "sync_data pg = (r'', pg')"
    note R = sync_data_result [OF s]
    show ?thesis
    proof (cases "r'' = Inr ()")
      case True
      then have d: "f_durable (p_file pg') = contents (p_file pg)" "f_pending (p_file pg') = []" using R(3) by simp_all
      show ?thesis
      proof (rule guardI [OF K ready_stable.sync_keeps [OF ready s] R(1) slots_hold_sync [OF hold R(1) act d]])
        show "pages_frozen pgc pg'" if "pages_frozen pgc pg" for pgc
          using that page_frozen_sync [OF _ d] unfolding pages_frozen_def by blast
      qed
    next
      case False
      then show ?thesis using guard_same_file [OF K R(1)] R(4) by simp
    qed
  qed
  show ps: "p_page_size pg = p_page_size pg0 \<and> valid_page_size (page_bytes (p_page_size pg0))"
    using ready same_pager_sel(1) [OF same] by (simp add: commit_ready_def)
  show "guard xxh pg0 n1 S C (calm_pager pg)"
    by (rule guard_same_file [OF K]) (simp_all add: same_pager_def calm_pager_def calm_file_def)
  assume pid: "pid \<in> {pid. n1 \<le> pid}" and w: "write_data_page xxh pid buf pg = ((r, buf'), pg')"
  from w show "guard xxh pg0 n1 S C pg'"
  proof (cases rule: write_data_page_pending)
    case (2 bs)
    have valid: "valid_page_size (page_bytes (p_page_size pg))" using ps by simp
    show ?thesis
    proof (rule guardI [OF K ready_stable.write_keeps [OF ready _ w] 2(1)])
      show "slots_hold xxh S pg'"
        using slots_hold_write [OF hold 2(1) act 2(2,3)] unat_file_offset [OF valid] by simp
      fix pgc
      assume c: "pgc \<in> C" and fr: "pages_frozen pgc pg"
      have C: "p_page_size pgc = p_page_size pg" "p_page_count pgc \<le> n1" using K c ps by (auto simp: guard_def)
      have off: "file_offset pgc = file_offset pg" by (simp add: fun_eq_iff file_offset_def C(1))
      have "page_frozen pgc pg' q" if q: "2 \<le> unat q" "q < p_page_count pgc" for q
      proof (rule page_frozen_write [OF _ 2(2)])
        show "page_frozen pgc pg q" using fr q by (simp add: pages_frozen_def)
        show "f_pending (p_file pg') = f_pending (p_file pg) @ [(unat (file_offset pgc pid), bs)]" by (simp add: 2(3) off)
        show "q < pid" using q(2) C(2) pid by simp
        show "valid_page_size (page_bytes (p_page_size pgc))" using valid C(1) by simp
      qed (fact q)
      then show "pages_frozen pgc pg'" by (simp add: pages_frozen_def)
    qed simp
  qed (use K in simp)
qed

lemma guarded_sound:
  "guarded.sound xxh pg0 n1 S C p \<longleftrightarrow> store_ok xxh p \<and> guard xxh pg0 n1 S C (bp_pager p) \<and>
     (\<forall>pid \<in> set (bp_dirty p). n1 \<le> pid) \<and> n1 \<le> bp_next_page_id p"
  by (auto simp: guarded.sound_def guarded.safe_def)

lemma guarded_stock:
  assumes "guarded.sound xxh pg0 n1 S C p" "unat (bp_next_page_id p) + n < 2 ^ 32"
  shows "guarded.stock xxh pg0 n1 S C n p"
  using assms ids_from [of n1 "bp_next_page_id p" n]
  by (auto simp: guarded.stock_def guarded.sound_def)

text \<open>A settled pool starts a guard of its own.\<close>

lemma settled_ok:
  assumes "settled xxh p t M"
  shows "store_ok xxh p"
  using settled_sound [OF assms] unfolding committed_tree.sound_def by blast

lemma settled_guarded:
  assumes st: "settled xxh p t M"
    and old: "slice (f_durable (pool_file p)) (slot_pos (1 - p_active_slot (bp_pager p))) 4096 = old"
  shows "guarded.sound xxh (bp_pager p) (p_page_count (bp_pager p)) {old} {bp_pager p} p"
proof -
  let ?pg = "bp_pager p"
  have inv: "pager_inv xxh ?pg" and clean: "f_pending (p_file ?pg) = []" using st by (simp_all add: settled_def)
  have act: "p_active_slot ?pg \<in> {0, 1}" "8192 \<le> length (f_durable (p_file ?pg))" using inv by (simp_all add: pager_inv_def)
  have "byte_at (f_durable (p_file ?pg)) (slot_pos (1 - p_active_slot ?pg) + i) = old ! i" if "i < 4096" for i
    using that slot_regions(2) [OF conjunct1 [OF u8_slot_flip [OF act(1)]]] act(2) unfolding old [symmetric]
    by (simp add: byte_at_def slice_def)
  then have "slots_hold xxh {old} ?pg"
    using inv by (simp add: slots_hold_def pager_inv_def may_hold_def clean writes_at_def slot_bytes_def)
  moreover have "pages_frozen ?pg ?pg" using clean by (simp add: pages_frozen_def page_frozen_def Let_def)
  ultimately have "guard xxh ?pg (p_page_count ?pg) {old} {?pg} ?pg"
    using pager_inv_ready [OF inv] by (simp add: guard_def same_pager_def)
  moreover have "bp_dirty p = []" "p_page_count ?pg \<le> bp_next_page_id p" using st by (simp_all add: settled_def)
  ultimately show ?thesis using settled_ok [OF st] unfolding guarded_sound by simp
qed

section \<open>A commit under the guard\<close>

lemma slots_hold_torn:
  assumes hold: "slots_hold xxh S pg" and same: "same_pager pg pg'" and act: "p_active_slot pg \<in> {0, 1}"
    and len: "8192 \<le> length (contents (p_file pg))"
    and d: "f_durable (p_file pg') = contents (p_file pg)" "f_pending (p_file pg') = [(slot_pos (1 - p_active_slot pg), take k slot)]"
    and slot: "slice (contents (p_file pg)) (slot_pos (p_active_slot pg)) 4096 = encoded_slot xxh (meta_of pg)" "length slot = 4096"
  shows "slots_hold xxh (insert slot S) pg'"
proof -
  let ?lo = "slot_pos (1 - p_active_slot pg)"
  have "may_hold (p_file pg') (?lo + i) \<subseteq> slot_bytes (insert slot S) i" if i: "i < 4096" for i
  proof -
    have "byte_at (contents (p_file pg)) (?lo + i) \<in> slot_bytes S i"
      using contents_may_hold hold i by (fastforce simp: slots_hold_def)
    then show ?thesis using i by (auto simp: may_hold_def d writes_at_def slot_bytes_def)
  qed
  then show ?thesis
    using slot_regions(1) [OF act] len slot
    by (simp add: slots_hold_def same_pager_sel [OF same] d untouched_def) auto
qed

lemma pages_frozen_commit:
  assumes "f_durable (p_file pg') = contents f" "f_pending (p_file pg') = [(off, bs)]" "off + length bs \<le> 8192"
    and "f_durable (p_file pgc) = overwrite (contents f) off' bs'" "f_pending (p_file pgc) = []"
    and "off' + length bs' \<le> 8192" "8192 \<le> length (contents f)" "valid_page_size (page_bytes (p_page_size pgc))"
  shows "pages_frozen pgc pg'"
  unfolding pages_frozen_def
proof (intro allI impI)
  fix pid :: u32
  let ?off = "unat (file_offset pgc pid)" and ?n = "bytes_usize (p_page_size pgc)"
  have off: "8192 \<le> ?off" using unat_file_offset [OF assms(8)] by simp
  have len: "length (f_durable (p_file pgc)) = length (contents f)" using assms(6,7) by (simp add: assms(4) length_overwrite)
  have "slice (f_durable (p_file pgc)) ?off ?n = slice (contents f) ?off ?n" if "?off + ?n \<le> length (contents f)"
    unfolding assms(4) using that off assms(6) by (intro slice_overwrite_other) simp_all
  then show "page_frozen pgc pg' pid"
    using off assms(3) by (simp add: page_frozen_def Let_def len assms(1,2) untouched_def)
qed

text \<open>
  A commit that fails leaves the guard as it is or, once its meta slot may be in the file, one
  transaction more in doubt: the one it would have made without faults.
\<close>

lemma commit_guarded:
  assumes sound: "guarded.sound xxh pg0 n1 S C p" and c: "pool_commit xxh root p = (Inl e, p')"
  shows "guarded.sound xxh pg0 n1 S C p' \<or>
    (\<exists>q. pool_commit xxh root (calm p) = (Inr (), q) \<and> p_txn_id (bp_pager q) = p_txn_id pg0 + 1 \<and>
       guarded.sound xxh pg0 (bp_next_page_id p) (insert (encoded_slot xxh (meta_of (bp_pager q))) S) (insert (bp_pager q) C) p')"
proof -
  have p: "store_ok xxh p" "pool_inv xxh p" "guard xxh pg0 n1 S C (bp_pager p)" "n1 \<le> bp_next_page_id p"
    using sound unfolding guarded_sound store_ok_def by blast+
  note I = pool_commit_inv [OF p(2) guard_active [OF p(3)] c]
  have ok: "store_ok xxh p'" using p(1) I(1,3) pool_commit_dirty [OF c] by (auto simp: store_ok_def)
  obtain rf pf where fl: "flush_all_dirty xxh p = (rf, pf)" by fastforce
  have sf: "guard xxh pg0 n1 S C (bp_pager pf)"
    using guarded.flush_all_dirty_safe [OF guarded.sound_safe [OF sound] fl] by (simp add: guarded.safe_def)
  note F = flush_all_dirty_inv [OF p(2) fl]
  have same: "guarded.sound xxh pg0 n1 S C p'" if "guard xxh pg0 n1 S C (bp_pager p')"
    using that ok sound pool_commit_dirty [OF c] I(3) unfolding guarded_sound by auto
  show ?thesis
  proof (cases rf)
    case (Inl e')
    then have "p' = pf" using c fl by (simp add: pool_commit_def sbind_def)
    with sf same show ?thesis by blast
  next
    case (Inr u)
    let ?pg = "bp_pager pf" and ?n = "bp_next_page_id pf"
    let ?pos = "slot_pos (1 - p_active_slot (bp_pager pf))"
    let ?slot = "encoded_slot xxh (next_meta (bp_pager pf) root (bp_next_page_id pf))"
    have act: "p_active_slot ?pg \<in> {0, 1}" by (rule guard_active [OF sf])
    have ready: "commit_ready xxh ?pg" and fr: "same_pager pg0 ?pg" and hold: "slots_hold xxh S ?pg"
      using sf by (simp_all add: guard_def)
    have n: "?n = bp_next_page_id p" and clean: "bp_dirty pf = []" using pool_frame_sel [OF F(2)] F(4) Inr by simp_all
    obtain pg' where pc: "pager_commit xxh root ?n ?pg = (Inl e, pg')" "p' = pf\<lparr>bp_pager := pg'\<rparr>"
      using c fl Inr by (cases "pager_commit xxh root ?n ?pg") (simp add: pool_commit_def sbind_def)
    show ?thesis
      using pc(1) act
    proof (cases rule: pager_commit_outcomes)
      case (unsynced e')
      have "same_pager ?pg pg'" using unsynced(2) by (simp add: same_pager_def)
      from guard_same_file [OF sf this unsynced(3,4)] same show ?thesis by (simp add: pc(2))
    next
      case (torn e' k)
      have sp: "same_pager ?pg pg'" using torn(2) by (simp add: same_pager_def)
      obtain pgc where cc: "pager_commit xxh root ?n (calm_pager ?pg) = (Inr (), pgc)" "meta_of pgc = next_meta ?pg root ?n"
        "f_durable (p_file pgc) = overwrite (contents (p_file ?pg)) ?pos ?slot" "f_pending (p_file pgc) = []"
        by (rule pager_commit_calm [OF act])
      have "flush_all_dirty xxh (calm p) = (Inr u, calm pf)" using csim_okD [OF ssim_flush_all_dirty] fl Inr by blast
      then have calm: "pool_commit xxh root (calm p) = (Inr (), pf\<lparr>bp_pager := pgc\<rparr>)"
        using cc(1) by (simp add: pool_commit_def sbind_def calm_def)
      have m: "p_page_size pgc = p_page_size pg0" "p_txn_id pgc = p_txn_id pg0 + 1" "p_page_count pgc = ?n"
        using arg_cong [OF cc(2), of mc_page_size] arg_cong [OF cc(2), of mc_txn_id] arg_cong [OF cc(2), of mc_page_count]
        by (simp_all add: same_pager_sel [OF fr])
      have valid: "valid_page_size (page_bytes (p_page_size pg0))"
        using ready same_pager_sel(1) [OF fr] by (simp add: commit_ready_def)
      have len: "8192 \<le> length (contents (p_file ?pg))" using ready by (simp add: commit_ready_def)
      have pos: "?pos + length (take j ?slot) \<le> 8192" for j
        using slot_regions(2) [OF conjunct1 [OF u8_slot_flip [OF act]]] by simp
      have "commit_ready xxh pg'" using failed_commit_ready [OF p(2) _ c] p(3) pc(2) by (simp add: guard_def)
      moreover have "slots_hold xxh (insert ?slot S) pg'"
        using slots_hold_torn [OF hold sp act len torn(3,4)] ready by (simp add: commit_ready_def)
      moreover have "pages_frozen pgc pg'"
        by (rule pages_frozen_commit [OF torn(3,4) pos cc(3,4)]) (use m valid pos [of 4096] len in simp_all)
      moreover have "pages_frozen pgd pg'" if "pgd \<in> C" for pgd
      proof -
        have d: "p_page_size pgd = p_page_size pg0" "pages_frozen pgd ?pg" using sf that by (auto simp: guard_def)
        then show ?thesis
          using page_frozen_contents [OF _ torn(3,4) pos] valid unfolding pages_frozen_def by simp
      qed
      moreover have "p_page_count pgd \<le> ?n" if "pgd \<in> C" for pgd
        using sf that p(4) n by (auto simp: guard_def)
      moreover have "p_page_size pgd = p_page_size pg0" if "pgd \<in> C" for pgd using sf that by (simp add: guard_def)
      ultimately have "guard xxh pg0 ?n (insert ?slot S) (insert pgc C) pg'"
        using same_pager_trans [OF fr sp] m by (simp add: guard_def)
      then have "guarded.sound xxh pg0 ?n (insert ?slot S) (insert pgc C) p'"
        using ok pc(2) clean unfolding guarded_sound by simp
      then show ?thesis using calm m(2) n cc(2) by (intro disjI2 exI [of _ "pf\<lparr>bp_pager := pgc\<rparr>"]) simp
    qed simp
  qed
qed

text \<open>A commit that succeeds leaves the slot of the transaction before it in the other place.\<close>

lemma committed_slot:
  assumes "commit_ready xxh (bp_pager p)" "pool_inv xxh p" "pool_commit xxh root p = (Inr (), p')"
  shows "slice (f_durable (pool_file p')) (slot_pos (1 - p_active_slot (bp_pager p'))) 4096 = encoded_slot xxh (meta_of (bp_pager p))"
proof -
  obtain pf where fl: "flush_all_dirty xxh p = (Inr (), pf)"
    using assms(3) by (auto simp: pool_commit_def elim!: sbind_cases)
  have same: "same_pager (bp_pager p) (bp_pager pf)"
    using flush_all_dirty_inv(2) [OF assms(2) fl] by (simp add: pool_frame_def)
  have ready: "commit_ready xxh (bp_pager pf)" using ready_stable.flush_all_dirty_safe [OF _ fl] assms(1) by simp
  let ?pg = "bp_pager pf"
  obtain pg' where pc: "pager_commit xxh root (bp_next_page_id pf) ?pg = (Inr (), pg')" "p' = pf\<lparr>bp_pager := pg'\<rparr>"
    using assms(3) fl by (cases "pager_commit xxh root (bp_next_page_id pf) ?pg") (simp add: pool_commit_def sbind_def)
  have act: "p_active_slot ?pg \<in> {0, 1}" and len: "8192 \<le> length (contents (p_file ?pg))"
    and slot: "slice (contents (p_file ?pg)) (slot_pos (p_active_slot ?pg)) 4096 = encoded_slot xxh (meta_of ?pg)"
    using ready by (simp_all add: commit_ready_def)
  from pc(1) act have fin: "p_active_slot pg' = 1 - p_active_slot ?pg" "f_durable (p_file pg') =
      overwrite (contents (p_file ?pg)) (slot_pos (1 - p_active_slot ?pg)) (encoded_slot xxh (next_meta ?pg root (bp_next_page_id pf)))"
    by (auto elim: pager_commit_outcomes)
  have "slice (f_durable (p_file pg')) (slot_pos (p_active_slot ?pg)) 4096 = slice (contents (p_file ?pg)) (slot_pos (p_active_slot ?pg)) 4096"
    unfolding fin using slot_regions [OF act] len by (intro slice_overwrite_other) auto
  then show ?thesis using slot act fin(1) pc(2) same_pager_sel(7) [OF same] by auto
qed

section \<open>After a crash\<close>

text \<open>
  What is asked of the checksum: a block each of whose bytes is one of some of the slots at its
  position, and which verifies, is one of these slots.
\<close>

definition slot_mix :: "bytes set \<Rightarrow> bytes \<Rightarrow> bool" where
  "slot_mix S s \<longleftrightarrow> length s = 4096 \<and> (\<forall>i < 4096. s ! i \<in> slot_bytes S i)"

definition torn_proof :: "(bytes \<Rightarrow> u64) \<Rightarrow> bytes set \<Rightarrow> bool" where
  "torn_proof xxh S \<longleftrightarrow> (\<forall>T s. T \<subseteq> S \<longrightarrow> slot_mix T s \<longrightarrow> verify_checksum xxh s = Inr () \<longrightarrow> s \<in> T)"

lemma torn_proof_subset: "torn_proof xxh S \<Longrightarrow> S' \<subseteq> S \<Longrightarrow> torn_proof xxh S'"
  unfolding torn_proof_def by blast

lemma slot_mix_single: "slot_mix {a} s \<Longrightarrow> length a = 4096 \<Longrightarrow> s = a"
  by (intro nth_equalityI) (auto simp: slot_mix_def slot_bytes_def)

text \<open>For two slots this is \<open>torn_detected\<close>.\<close>

lemma torn_proof_pair:
  assumes "torn_detected xxh old new" "length old = 4096" "length new = 4096"
  shows "torn_proof xxh {old, new}"
  unfolding torn_proof_def
proof (intro allI impI)
  fix T s
  assume T: "T \<subseteq> {old, new}" and mix: "slot_mix T s" and v: "verify_checksum xxh s = Inr ()"
  have "torn_mix old new s" using T mix assms(3) by (force simp: torn_mix_def slot_mix_def slot_bytes_def list_all_iff)
  then have s: "s = old \<or> s = new" using assms(1) v by (simp add: torn_detected_def)
  have "s ! 0 \<in> slot_bytes T 0" using mix by (simp add: slot_mix_def)
  then have "T \<noteq> {}" by (auto simp: slot_bytes_def)
  with T have "T = {old} \<or> T = {new} \<or> T = {old, new}" by blast
  then show "s \<in> T" using s slot_mix_single [of _ s] mix assms(2,3) by blast
qed

text \<open>A slot of a transaction that may have been made after that of \<open>pg0\<close>, with its map.\<close>

definition in_doubt :: "(bytes \<Rightarrow> u64) \<Rightarrow> pager \<Rightarrow> pager set \<Rightarrow> (i64 \<rightharpoonup> row) set \<Rightarrow> bytes \<Rightarrow> bool" where
  "in_doubt xxh pg0 C D s \<longleftrightarrow> p_txn_id pg0 \<noteq> - 1 \<and>
     (\<exists>q t M. settled xxh q t M \<and> M \<in> D \<and> bp_pager q \<in> C \<and> s = encoded_slot xxh (meta_of (bp_pager q)) \<and>
        p_txn_id (bp_pager q) = p_txn_id pg0 + 1)"

lemma in_doubt_mono: "in_doubt xxh pg0 C D s \<Longrightarrow> C \<subseteq> C' \<Longrightarrow> D \<subseteq> D' \<Longrightarrow> in_doubt xxh pg0 C' D' s"
  unfolding in_doubt_def by blast

lemma guard_crash:
  assumes g: "guard xxh pg0 n1 S C pg" and crash: "crash_image (p_file pg) c"
  shows "8192 \<le> length c" "slice c (slot_pos (p_active_slot pg0)) 4096 = encoded_slot xxh (meta_of pg0)"
    "slot_mix S (slice c (slot_pos (1 - p_active_slot pg0)) 4096)"
proof -
  have h: "slots_hold xxh S pg" and same: "same_pager pg0 pg" using g by (simp_all add: guard_def)
  have act: "p_active_slot pg0 \<in> {0, 1}" using guard_active [OF g] same_pager_sel(3) [OF same] by simp
  note reg = slot_regions(2) [OF act] slot_regions(2) [OF conjunct1 [OF u8_slot_flip [OF act]]]
  show len: "8192 \<le> length c" using h crash by (simp add: slots_hold_def crash_image_def)
  show "slice c (slot_pos (p_active_slot pg0)) 4096 = encoded_slot xxh (meta_of pg0)"
    using h crash_image_untouched [OF crash, of "slot_pos (p_active_slot pg0)" 4096] reg(1)
    by (simp add: slots_hold_def same_pager_sel [OF same])
  have "slice c (slot_pos (1 - p_active_slot pg0)) 4096 ! i \<in> slot_bytes S i" if i: "i < 4096" for i
  proof -
    have "c ! (slot_pos (1 - p_active_slot pg0) + i) \<in> may_hold (p_file pg) (slot_pos (1 - p_active_slot pg0) + i)"
      using i reg(2) len by (intro crash_may_hold [OF crash]) simp
    then show ?thesis using h i reg(2) len by (force simp: slots_hold_def same_pager_sel [OF same] slice_def)
  qed
  then show "slot_mix S (slice c (slot_pos (1 - p_active_slot pg0)) 4096)"
    using reg(2) len by (simp add: slot_mix_def)
qed

lemma guard_recovers:
  assumes st: "settled xxh q t M" and g: "guard xxh (bp_pager q) n1 T C pg" and base: "bp_pager q \<in> C"
    and crash: "crash_image (p_file pg) c" and detects: "torn_proof xxh S" "T \<subseteq> S"
    and slots: "\<forall>s \<in> T. older_slot xxh s (p_txn_id (bp_pager q)) \<or> in_doubt xxh (bp_pager q) C D s"
  shows "\<exists>M' \<in> insert M D. recovers xxh path c M'"
proof -
  let ?a = "p_active_slot (bp_pager q)"
  let ?s = "slice c (slot_pos (1 - p_active_slot (bp_pager q))) 4096"
  note R = guard_crash [OF g crash]
  have act: "?a \<in> {0, 1}" and valid: "valid_page_size (page_bytes (p_page_size (bp_pager q)))"
    using pager_inv_active [OF settled_inv [OF st]] by blast+
  have frozen: "\<forall>pid. 2 \<le> unat pid \<and> pid < p_page_count pgc \<longrightarrow> page_frozen pgc pg pid" if "pgc \<in> C" for pgc
    using g that by (simp add: guard_def pages_frozen_def)
  have old: "recovers xxh path c M" if "older_slot xxh ?s (p_txn_id (bp_pager q))"
    using recovers_frozen [OF st _ frozen [OF base] crash, of ?a] R(1,2) act valid that by (simp add: slots_ok_def)
  show ?thesis
  proof (cases "verify_checksum xxh ?s")
    case Inl
    then show ?thesis using old by (simp add: older_slot_def usable_slot_def)
  next
    case (Inr u)
    then have "?s \<in> T" using detects R(3) by (simp add: torn_proof_def)
    with slots consider "older_slot xxh ?s (p_txn_id (bp_pager q))" | "in_doubt xxh (bp_pager q) C D ?s" by blast
    then show ?thesis
    proof cases
      case 1
      with old show ?thesis by blast
    next
      case 2
      then obtain q1 t1 M1 where q1: "settled xxh q1 t1 M1" "M1 \<in> D" "bp_pager q1 \<in> C" "?s = encoded_slot xxh (meta_of (bp_pager q1))"
        "p_txn_id (bp_pager q1) = p_txn_id (bp_pager q) + 1" "p_txn_id (bp_pager q) \<noteq> - 1" unfolding in_doubt_def by blast
      have ps: "p_page_size (bp_pager q1) = p_page_size (bp_pager q)" using g q1(3) by (simp add: guard_def)
      have "older_slot xxh (slice c (slot_pos ?a) 4096) (p_txn_id (bp_pager q) + 1)"
        using usable_encoded_slot [of "meta_of (bp_pager q)" xxh] valid txn_less_next [OF q1(6)] by (simp add: R(2) older_slot_def)
      then have "slots_ok xxh c (1 - ?a) (meta_of (bp_pager q1))"
        using R(1) q1(4,5) act valid u8_slot_flip [OF act] by (simp add: slots_ok_def ps)
      from recovers_frozen [OF q1(1) this frozen [OF q1(3)] crash] q1(2) show ?thesis by blast
    qed
  qed
qed

end
