(* ===== verification/Robust.thy ===== *)
theory Robust
  imports Durable Guard
begin

text \<open>
  Sessions under I/O faults. A call that fails may leave new pages behind, in the cache or in the
  file, and a commit that fails may leave a torn meta slot; yet the pages of the last transaction and
  the root in use are untouched, so the pool still stands for its map and the next call works on it.
  The invariant \<open>robust\<close> ties the pool to the last settled one by the \<open>guard\<close> of its
  pager, and says which maps are in doubt; the interpretation \<open>resilient\<close> of
  \<open>stepwise_store\<close> makes whole sessions of it.
\<close>

section \<open>The invariant\<close>

text \<open>
  The pool \<open>p\<close> goes back to the settled pool \<open>q\<close>: \<open>C\<close> and \<open>T\<close> are the
  transactions a crash may find and the slots it may mix.
\<close>

definition tied ::
    "(bytes \<Rightarrow> u64) \<Rightarrow> pool \<Rightarrow> u32 \<Rightarrow> bytes set \<Rightarrow> pager set \<Rightarrow> pool \<Rightarrow> tree option \<Rightarrow> (i64 \<rightharpoonup> row) \<Rightarrow> (i64 \<rightharpoonup> row) set \<Rightarrow> bool" where
  "tied xxh q n1 T C p t M D \<longleftrightarrow> settled xxh q t M \<and> bp_pager q \<in> C \<and> guarded.sound xxh (bp_pager q) n1 T C p \<and>
     (\<forall>s \<in> T. older_slot xxh s (p_txn_id (bp_pager q)) \<or> in_doubt xxh (bp_pager q) C D s)"

definition robust :: "(bytes \<Rightarrow> u64) \<Rightarrow> pool \<Rightarrow> tree option \<Rightarrow> (i64 \<rightharpoonup> row) \<Rightarrow> (i64 \<rightharpoonup> row) set \<Rightarrow> bytes set \<Rightarrow> bool" where
  "robust xxh p t M D S \<longleftrightarrow> (\<exists>q n1 T C. tied xxh q n1 T C p t M D \<and> T \<subseteq> S)"

lemma robustI: "tied xxh q n1 T C p t M D \<Longrightarrow> T \<subseteq> S \<Longrightarrow> robust xxh p t M D S"
  unfolding robust_def by blast

lemma tied_pager:
  assumes "tied xxh q n1 T C p t M D"
  shows "guard xxh (bp_pager q) n1 T C (bp_pager p)" "same_pager (bp_pager q) (bp_pager p)"
proof -
  show "guard xxh (bp_pager q) n1 T C (bp_pager p)" using assms unfolding tied_def guarded_sound by blast
  then show "same_pager (bp_pager q) (bp_pager p)" unfolding guard_def by blast
qed

text \<open>A call may put more in doubt.\<close>

lemma tied_grows:
  assumes "tied xxh q n1 T C p t M D" "guarded.sound xxh (bp_pager q) n2 T' C' p'" "C \<subseteq> C'" "D \<subseteq> D'"
    and "\<And>s. s \<in> T' \<Longrightarrow> s \<notin> T \<Longrightarrow> in_doubt xxh (bp_pager q) C' D' s"
  shows "tied xxh q n2 T' C' p' t M D'"
proof -
  have "older_slot xxh s (p_txn_id (bp_pager q)) \<or> in_doubt xxh (bp_pager q) C' D' s" if "s \<in> T'" for s
    using assms(1,5) that in_doubt_mono [OF _ assms(3,4), of xxh "bp_pager q" s] by (cases "s \<in> T") (auto simp: tied_def)
  moreover have "settled xxh q t M" "bp_pager q \<in> C'" using assms(1,3) by (auto simp: tied_def)
  ultimately show ?thesis using assms(2) by (simp add: tied_def)
qed

lemma settled_robust:
  assumes "settled xxh p t M"
    and "slice (f_durable (pool_file p)) (slot_pos (1 - p_active_slot (bp_pager p))) 4096 = old"
  shows "robust xxh p t M {} {old}"
proof -
  have "older_slot xxh old (p_txn_id (bp_pager p))" using settled_inv [OF assms(1)] assms(2) by (simp add: pager_inv_def)
  then have "tied xxh p (p_page_count (bp_pager p)) {old} {bp_pager p} p t M {}"
    using settled_guarded [OF assms] assms(1) by (simp add: tied_def)
  then show ?thesis by (rule robustI) simp
qed

lemma robust_recovers:
  assumes "robust xxh p t M D S" "torn_proof xxh S" "crash_image (pool_file p) c"
  shows "\<exists>M' \<in> insert M D. recovers xxh path c M'"
proof -
  obtain q n1 T C where q: "tied xxh q n1 T C p t M D" "T \<subseteq> S" using assms(1) unfolding robust_def by blast
  then show ?thesis
    using guard_recovers [OF _ tied_pager(1) [OF q(1)] _ assms(3,2) q(2)] unfolding tied_def by blast
qed

text \<open>The pages of the last transaction read as they did.\<close>

lemma disk_page_frozen:
  assumes "page_frozen pg0 pg pid" "f_pending (p_file pg0) = []" "same_pager pg0 pg" "disk_page xxh pg0 pid = Some b"
  shows "disk_page xxh pg pid = Some b"
proof -
  have c: "contents (p_file pg0) = f_durable (p_file pg0)" using assms(2) by (rule contents_synced)
  have inf: "page_in_file pg0 pid" using assms(4) by (auto simp: disk_page_def split: if_splits)
  then have "page_in_file pg pid" "page_at pg pid = page_at pg0 pid"
    using assms(1) contents_untouched [of "f_pending (p_file pg)" _ _ "f_durable (p_file pg)"]
    by (auto simp: page_frozen_def Let_def page_in_file_def page_at_def same_pager_sel [OF assms(3)] c contents_def [of "p_file pg"])
  then show ?thesis using assms(4) inf by (simp add: disk_page_def split: if_splits)
qed

lemma guarded_represents:
  assumes st: "settled xxh q t M" and sound: "guarded.sound xxh (bp_pager q) n1 T C p" and base: "bp_pager q \<in> C"
  shows "represents xxh (calm p) t M"
proof -
  have q: "represents xxh (calm q) t M" "bp_dirty q = []" "p_page_count (bp_pager q) = bp_next_page_id q" "pool_inv xxh q"
    "f_pending (pool_file q) = []"
    using st settled_ok [OF st] by (simp_all add: settled_def store_ok_def)
  have g: "guard xxh (bp_pager q) n1 T C (bp_pager p)" using sound by (simp add: guarded_sound)
  have p: "store_ok xxh p" "pool_inv xxh p" "commit_ready xxh (bp_pager p)" "same_pager (bp_pager q) (bp_pager p)"
    "\<forall>pid \<in> set (bp_dirty p). n1 \<le> pid" "n1 \<le> bp_next_page_id p" "p_page_count (bp_pager q) \<le> n1"
    "pages_frozen (bp_pager q) (bp_pager p)"
    using sound g base unfolding guarded_sound guard_def store_ok_def by blast+
  have "pool_view xxh p pid = Some b" "pid < bp_next_page_id p" if "store_view xxh q pid = Some b" for pid b
  proof -
    have v: "pid < p_page_count (bp_pager q)" "pool_view xxh q pid = Some b" using that q(3) by (simp_all add: store_view_Some)
    then show "pid < bp_next_page_id p" using p(6,7) by simp
    have pid: "2 \<le> unat pid" using v(2) by (simp add: pool_view_def split: if_splits)
    have "disk_page xxh (bp_pager p) pid = Some b"
      using disk_page_frozen [OF _ q(5) p(4) clean_view [OF q(4,2) v(2)]] p(8) pid v(1) by (simp add: pages_frozen_def)
    moreover have "pid \<notin> set (bp_dirty p)" using p(5,7) v(1) by auto
    ultimately show "pool_view xxh p pid = Some b"
      using pool_coherent_entry(4) [of xxh p pid] p(2) pid by (auto simp: pool_view_def pool_inv_def split: option.split)
  qed
  then have "store_view xxh p pid = Some b" if "store_view xxh q pid = Some b" for pid b
    using that by (simp add: store_view_Some)
  then have "store_view xxh q \<subseteq>\<^sub>m store_view xxh p" by (force simp: map_le_def dom_def)
  moreover have "store_view xxh (calm q) = store_view xxh q" "store_view xxh (calm p) = store_view xxh p"
    using pool_view_cong [of "calm q" q xxh] pool_view_cong [of "calm p" p xxh] by (simp_all add: store_view_def)
  ultimately have "store_view xxh (calm q) \<subseteq>\<^sub>m store_view xxh (calm p)" by simp
  moreover have "store_inv xxh (calm p)" using p(1,3) by (simp add: store_inv_def store_ok_def)
  ultimately have "grows xxh (calm q) (calm p)"
    using same_pager_sel(1) [OF p(4)] by (simp add: grows_def pool_page_size_def)
  then show ?thesis
    using represents_grows [OF q(1)] same_pager_sel(5) [OF p(4)] by (simp add: pool_root_page_id_def)
qed

lemma robust_represents: "robust xxh p t M D S \<Longrightarrow> represents xxh (calm p) t M"
  using guarded_represents unfolding robust_def tied_def by blast

section \<open>What a call answers\<close>

text \<open>
  A call as the client sees it: the map's answer, or an error of the kind \<open>bad\<close> and no change.
  After an I/O error the map the call would have led to is in doubt, until a write succeeds.
\<close>

inductive kv_try :: "(pinax_error \<Rightarrow> bool) \<Rightarrow> kv_op \<Rightarrow> (i64 \<rightharpoonup> row) \<Rightarrow> kv_result \<Rightarrow> (i64 \<rightharpoonup> row) \<Rightarrow> bool"
  for bad where
  answer: "kv_step op M r M' \<Longrightarrow> kv_try bad op M r M'"
| error: "bad e \<Longrightarrow> kv_try bad op M (Inl e) M"

inductive_cases kv_tryE: "kv_try bad op M r M'"

definition succeeds :: "kv_op \<Rightarrow> kv_result \<Rightarrow> bool" where
  "succeeds op r \<longleftrightarrow> op_writes op \<and> (\<exists>a. r = Inr a)"

definition would_be :: "kv_op \<Rightarrow> (i64 \<rightharpoonup> row) \<Rightarrow> (i64 \<rightharpoonup> row) set" where
  "would_be op M = {M'. \<exists>r. succeeds op r \<and> kv_step op M r M'}"

type_synonym doubt = "(i64 \<rightharpoonup> row) \<times> (i64 \<rightharpoonup> row) set"

inductive kv_doubt :: "kv_op \<Rightarrow> doubt \<Rightarrow> kv_result \<Rightarrow> doubt \<Rightarrow> bool" where
  answer: "kv_step op M r M' \<Longrightarrow> kv_doubt op (M, D) r (M', if succeeds op r then {} else D)"
| io_error: "io_failure e \<Longrightarrow> kv_doubt op (M, D) (Inl e) (M, D \<union> would_be op M)"

inductive_cases kv_doubtE: "kv_doubt op MD r MD'"

lemma kv_doubt_try: "kv_doubt op MD r MD' \<Longrightarrow> kv_try io_failure op (fst MD) r (fst MD')"
  by (induction rule: kv_doubt.induct) (auto intro: kv_try.intros)

lemma kv_step_keeps: "kv_step op M r M' \<Longrightarrow> \<not> succeeds op r \<Longrightarrow> M' = M"
  by (induction rule: kv_step.induct) (auto simp: op_writes_def succeeds_def)

text \<open>
  The slots that may lie over the inactive one: after a successful write that of the transaction
  before, and for each I/O error since then the one the call was to write.
\<close>

definition slot_tried :: "(bytes \<Rightarrow> u64) \<Rightarrow> kv_op \<Rightarrow> database \<Rightarrow> bytes set" where
  "slot_tried xxh op db =
     (case db_call xxh op \<lparr>db_pool = calm (db_pool db)\<rparr> of
        Some (Inr _, db') \<Rightarrow> (if op_writes op then {encoded_slot xxh (meta_of (bp_pager (db_pool db')))} else {})
      | _ \<Rightarrow> {})"

definition slots_after :: "(bytes \<Rightarrow> u64) \<Rightarrow> kv_op \<Rightarrow> database \<Rightarrow> kv_result \<Rightarrow> bytes set \<Rightarrow> bytes set" where
  "slots_after xxh op db r S =
     (if succeeds op r then {encoded_slot xxh (meta_of (bp_pager (db_pool db)))}
      else if failed io_failure r then S \<union> slot_tried xxh op db else S)"

section \<open>Calls\<close>

lemma affords_spent:
  assumes "pool_affords p t (Suc n)" "modest_op op" "p_txn_id (bp_pager p') = p_txn_id (bp_pager p)"
    and "unat (bp_next_page_id p') \<le> unat (bp_next_page_id p) + (op_ids op + 2 * height_of t + 3)"
  shows "pool_affords p' t n"
proof -
  have "op_ids op \<le> 252" using assms(2) by (auto simp: modest_op_def op_ids_def small_consts split: kv_op.splits)
  then have "unat (bp_next_page_id p') \<le> unat (bp_next_page_id p) + (255 + 2 * height_of t)" using assms(4) by simp
  then show ?thesis
    using assms(1,3) budget_step [of "height_of t" "height_of t" n] unfolding pool_affords_def by simp
qed

lemma pool_affords_calm [simp]: "pool_affords (calm p) t n = pool_affords p t n"
  by (simp add: pool_affords_def)

text \<open>
  What a writing call leaves under the guard when it does not succeed: the guard as it was or, if
  the same call would have succeeded without faults, one transaction more in doubt.
\<close>

lemma committing_guarded:
  assumes work: "guarded.tracks xxh pg0 n1 S C k work" and sound: "guarded.sound xxh pg0 n1 S C p"
    and ids: "unat (bp_next_page_id p) + k < 2 ^ 32" and m: "committing xxh work p = Some (Inl e, p')"
  shows "unat (bp_next_page_id p') \<le> unat (bp_next_page_id p) + k"
    and "guarded.sound xxh pg0 n1 S C p' \<or>
      (\<exists>a q n2. committing xxh work (calm p) = Some (Inr a, q) \<and> p_txn_id (bp_pager q) = p_txn_id pg0 + 1 \<and>
         guarded.sound xxh pg0 n2 (insert (encoded_slot xxh (meta_of (bp_pager q))) S) (insert (bp_pager q) C) p')"
proof -
  note stock = guarded_stock [OF sound] and costs = guarded.tracks_costs [OF work]
  have w: "guarded.sound xxh pg0 n1 S C p1 \<and> unat (bp_next_page_id p1) \<le> unat (bp_next_page_id p) + k"
    if "work p = Some (r, p1)" for r p1
    using guarded.costs_sound [OF costs stock that] guarded.costs_ids [OF costs stock stock that] ids by blast
  have "unat (bp_next_page_id p') \<le> unat (bp_next_page_id p) + k \<and> (guarded.sound xxh pg0 n1 S C p' \<or>
      (\<exists>a q n2. committing xxh work (calm p) = Some (Inr a, q) \<and> p_txn_id (bp_pager q) = p_txn_id pg0 + 1 \<and>
         guarded.sound xxh pg0 n2 (insert (encoded_slot xxh (meta_of (bp_pager q))) S) (insert (bp_pager q) C) p'))"
    using m [unfolded committing_def]
  proof (cases rule: dbind_cases)
    case (err e')
    then show ?thesis using w by blast
  next
    case (ok x p1)
    obtain root a where x: "x = (root, a)" by fastforce
    obtain rc pc where "pool_commit xxh root p1 = (rc, pc)" by fastforce
    then obtain e' where c: "pool_commit xxh root p1 = (Inl e', p')"
      using ok(2) by (cases rc) (auto simp: x dbind_def dlift_def dpure_def)
    have p1: "guarded.sound xxh pg0 n1 S C p1" using w [OF ok(1)] by simp
    then have inv: "pool_inv xxh p1" "p_active_slot (bp_pager p1) \<in> {0, 1}"
      using guard_active [of xxh pg0 n1 S C "bp_pager p1"] unfolding guarded_sound store_ok_def by blast+
    have calm: "work (calm p) = Some (Inr (root, a), calm p1)"
      using guarded.tracks_calm [OF work stock [OF ids] ok(1)] by (simp add: x)
    have "committing xxh work (calm p) = Some (Inr a, q)" if "pool_commit xxh root (calm p1) = (Inr (), q)" for q
      using calm that by (simp add: committing_def dbind_ok dbind_dlift_ok dpure_def)
    then show ?thesis
      using commit_guarded [OF p1 c] pool_commit_inv(3) [OF inv c] w [OF ok(1)] by auto
  qed
  then show "unat (bp_next_page_id p') \<le> unat (bp_next_page_id p) + k"
    "guarded.sound xxh pg0 n1 S C p' \<or>
      (\<exists>a q n2. committing xxh work (calm p) = Some (Inr a, q) \<and> p_txn_id (bp_pager q) = p_txn_id pg0 + 1 \<and>
         guarded.sound xxh pg0 n2 (insert (encoded_slot xxh (meta_of (bp_pager q))) S) (insert (bp_pager q) C) p')"
    by blast+
qed

text \<open>And when it succeeds, the slot of the transaction before is the inactive one.\<close>

lemma committing_slot:
  assumes "guarded.costs xxh pg0 n1 S C k work" "guarded.sound xxh pg0 n1 S C p"
    and "unat (bp_next_page_id p) + k < 2 ^ 32" "committing xxh work p = Some (Inr a, p')"
  shows "slice (f_durable (pool_file p')) (slot_pos (1 - p_active_slot (bp_pager p'))) 4096 = encoded_slot xxh (meta_of pg0)"
  using assms(4) unfolding committing_def
proof (cases rule: dbind_cases)
  case (ok x p1)
  obtain rc pc where "pool_commit xxh (fst x) p1 = (rc, pc)" by fastforce
  then have c: "pool_commit xxh (fst x) p1 = (Inr (), p')"
    using ok(2) by (cases x; cases rc) (auto simp: dbind_def dlift_def dpure_def)
  have "guarded.sound xxh pg0 n1 S C p1" using guarded.costs_sound [OF assms(1) guarded_stock [OF assms(2,3)] ok(1)] .
  then have "commit_ready xxh (bp_pager p1)" "pool_inv xxh p1" "meta_of (bp_pager p1) = meta_of pg0"
    using same_pager_sel(7) by (auto simp: guarded_sound guard_def store_ok_def)
  then show ?thesis using committed_slot [OF _ _ c] by simp
qed simp

lemma robust_failed:
  assumes tied: "tied xxh q n1 T C p t M D" "T \<subseteq> S" and last: "p_txn_id (bp_pager q) \<noteq> - 1" and writes: "op_writes op"
    and work: "guarded.tracks xxh (bp_pager q) n1 T C k work" and ids: "unat (bp_next_page_id p) + k < 2 ^ 32"
    and r: "committing xxh work p = Some (Inl e, p')" and calm: "committing xxh work (calm p) = pool_call xxh op (calm p)"
      "pool_call xxh op (calm p) = Some (r0, p0)" "\<not> io_failure e \<longrightarrow> r0 = Inl e"
    and step: "kv_step op M r0 M0" and new: "\<forall>a. r0 = Inr a \<longrightarrow> settled xxh p0 t0 M0"
  shows "\<exists>D'. kv_doubt op (M, D) (Inl e) (M, D') \<and> robust xxh p' t M D' (slots_after xxh op \<lparr>db_pool = p\<rparr> (Inl e) S)"
    and "p_txn_id (bp_pager p') = p_txn_id (bp_pager p)" "unat (bp_next_page_id p') \<le> unat (bp_next_page_id p) + k"
proof -
  have sound: "guarded.sound xxh (bp_pager q) n1 T C p" using tied(1) by (simp add: tied_def)
  note G = committing_guarded [OF work sound ids r]
  let ?S = "slots_after xxh op \<lparr>db_pool = p\<rparr> (Inl e) S"
  let ?slot = "encoded_slot xxh (meta_of (bp_pager p0))"
  have S: "T \<subseteq> ?S" using tied(2) by (auto simp: slots_after_def succeeds_def)
  consider (same) "guarded.sound xxh (bp_pager q) n1 T C p'" | (grown) a n2 where "r0 = Inr a"
      "p_txn_id (bp_pager p0) = p_txn_id (bp_pager q) + 1" "guarded.sound xxh (bp_pager q) n2 (insert ?slot T) (insert (bp_pager p0) C) p'"
    using G(2) calm(1,2) by auto
  then have F: "(\<exists>D'. kv_doubt op (M, D) (Inl e) (M, D') \<and> robust xxh p' t M D' ?S) \<and> same_pager (bp_pager q) (bp_pager p')"
  proof cases
    case same
    have tied': "tied xxh q n1 T C p' t M D'" if "D \<subseteq> D'" for D' using tied_grows [OF tied(1) same _ that] by simp
    have "kv_doubt op (M, D) (Inl e) (M, if io_failure e then D \<union> would_be op M else D)"
    proof (cases "io_failure e")
      case False
      then have "kv_step op M (Inl e) M" using calm(3) step kv_step_keeps [OF step] by (simp add: succeeds_def)
      then show ?thesis using kv_doubt.answer [of op M "Inl e" M D] False by (simp add: succeeds_def)
    qed (simp add: kv_doubt.io_error)
    moreover have "robust xxh p' t M (if io_failure e then D \<union> would_be op M else D) ?S" by (rule robustI [OF tied' S]) simp
    ultimately show ?thesis using tied_pager(2) [OF tied' [OF subset_refl]] by blast
  next
    case grown
    then have io: "io_failure e" using calm(3) by auto
    have "M0 \<in> would_be op M" using step grown(1) writes by (auto simp: would_be_def succeeds_def)
    then have "in_doubt xxh (bp_pager q) (insert (bp_pager p0) C) (D \<union> would_be op M) ?slot"
      unfolding in_doubt_def using new grown(1) last grown(2) by blast
    then have tied': "tied xxh q n2 (insert ?slot T) (insert (bp_pager p0) C) p' t M (D \<union> would_be op M)"
      by (intro tied_grows [OF tied(1) grown(3)]) auto
    have "?slot \<in> slot_tried xxh op \<lparr>db_pool = p\<rparr>" using calm(2) grown(1) writes by (simp add: slot_tried_def db_call_pool)
    then have "insert ?slot T \<subseteq> ?S" using S io by (simp add: slots_after_def succeeds_def)
    then show ?thesis using robustI [OF tied'] kv_doubt.io_error [OF io] tied_pager(2) [OF tied'] by blast
  qed
  then show "\<exists>D'. kv_doubt op (M, D) (Inl e) (M, D') \<and> robust xxh p' t M D' ?S" by (rule conjunct1)
  show "p_txn_id (bp_pager p') = p_txn_id (bp_pager p)"
    unfolding same_pager_sel(4) [OF conjunct2 [OF F]] same_pager_sel(4) [OF tied_pager(2) [OF tied(1)]] ..
  show "unat (bp_next_page_id p') \<le> unat (bp_next_page_id p) + k" by (rule G(1))
qed

text \<open>Every writing call: it succeeds and settles, is refused, or fails.\<close>

lemma robust_write:
  assumes rob: "robust xxh p t M D S" and acc: "db_accepts xxh \<lparr>db_pool = calm p\<rparr> t op" and writes: "op_writes op"
    and calm: "pool_call xxh op (calm p) = Some (r0, p0)" "kv_step op M r0 M0" "call_effect xxh op (calm p) t r0 p0 t0 M0"
  shows "\<exists>r p' t' M' D'. pool_call xxh op p = Some (r, p') \<and> kv_doubt op (M, D) r (M', D') \<and>
    robust xxh p' t' M' D' (slots_after xxh op \<lparr>db_pool = p\<rparr> r S) \<and>
    (call_effect xxh op (calm p) t r (calm p') t' M' \<or> t' = t \<and> p_txn_id (bp_pager p') = p_txn_id (bp_pager p) \<and>
       unat (bp_next_page_id p') \<le> unat (bp_next_page_id p) + (op_ids op + 2 * height_of t + 3))"
proof -
  obtain q n1 T C where tied: "tied xxh q n1 T C p t M D" "T \<subseteq> S" using rob unfolding robust_def by blast
  let ?k = "op_ids op + 2 * height_of t + 3"
  have sound: "guarded.sound xxh (bp_pager q) n1 T C p" using tied(1) by (simp add: tied_def)
  have k: "unat (bp_next_page_id p) + ?k < 2 ^ 32" and last: "p_txn_id (bp_pager q) \<noteq> - 1"
    using db_accepts_ids [OF acc writes] same_pager_sel(4) [OF tied_pager(2) [OF tied(1)]] by (simp_all add: ids_left_def)
  obtain work where w: "guarded.tracks xxh (bp_pager q) n1 T C ?k work"
    "pool_call xxh op p = committing xxh work p" "pool_call xxh op (calm p) = committing xxh work (calm p)"
    by (rule guarded.call_work [OF robust_represents [OF rob] writes guarded_stock [OF sound k]])
  from guarded.committing_returns [OF w(1) guarded_stock [OF sound k] calm(1) [unfolded w(3)]] obtain r p' where
    r: "pool_call xxh op p = Some (r, p')" "\<not> failed io_failure r \<longrightarrow> r0 = r \<and> p0 = calm p'"
    using w(2) by auto
  have new: "\<forall>a. r0 = Inr a \<longrightarrow> settled xxh p0 t0 M0"
    using calm(3) writes written_settled by (auto simp: call_effect_def)
  show ?thesis
  proof (cases r)
    case (Inl e)
    have m: "committing xxh work p = Some (Inl e, p')" using r(1) w(2) Inl by simp
    have "\<not> io_failure e \<longrightarrow> r0 = Inl e" using r(2) Inl by simp
    note F = robust_failed [OF tied last writes w(1) k m w(3) [symmetric] calm(1) this calm(2) new]
    from F show ?thesis using r(1) Inl by blast
  next
    case (Inr a)
    then have r0: "r0 = r" "p0 = calm p'" using r(2) by simp_all
    have st: "settled xxh p' t0 M0" using new r0 Inr by simp
    have "slice (f_durable (pool_file p')) (slot_pos (1 - p_active_slot (bp_pager p'))) 4096 = encoded_slot xxh (meta_of (bp_pager q))"
      using committing_slot [OF guarded.tracks_costs [OF w(1)] sound k] r(1) w(2) Inr by simp
    then have "robust xxh p' t0 M0 {} {encoded_slot xxh (meta_of (bp_pager p))}"
      using settled_robust [OF st] same_pager_sel(7) [OF tied_pager(2) [OF tied(1)]] by simp
    moreover have "succeeds op r" using writes Inr by (simp add: succeeds_def)
    moreover have "kv_doubt op (M, D) r (M0, if succeeds op r then {} else D)" using calm(2) r0(1) kv_doubt.answer by blast
    ultimately show ?thesis using r(1) calm(3) r0
      by (intro exI [of _ r] exI [of _ p'] exI [of _ t0] exI [of _ M0] exI [of _ "{}"]) (simp add: slots_after_def)
  qed
qed

lemma robust_read:
  assumes rob: "robust xxh p t M D S" and reads: "\<not> op_writes op"
    and calm: "pool_call xxh op (calm p) = Some (r0, p0)" "kv_step op M r0 M0"
  shows "\<exists>r p'. pool_call xxh op p = Some (r, p') \<and> kv_doubt op (M, D) r (M, D) \<and> robust xxh p' t M D (slots_after xxh op db r S) \<and>
    p_txn_id (bp_pager p') = p_txn_id (bp_pager p) \<and> unat (bp_next_page_id p') \<le> unat (bp_next_page_id p)"
proof -
  obtain q n1 T C where tied: "tied xxh q n1 T C p t M D" "T \<subseteq> S" using rob unfolding robust_def by blast
  have sound: "guarded.sound xxh (bp_pager q) n1 T C p" using tied(1) by (simp add: tied_def)
  obtain r p' where r: "pool_call xxh op p = Some (r, p')" "\<not> failed io_failure r \<longrightarrow> r0 = r \<and> p0 = calm p'"
    using guarded.tracks_returns [OF guarded.tracks_reading [OF reads] _ calm(1), of "bp_pager q" n1 T C] sound by auto
  note costs = guarded.reading_costs [OF reads] and stock = guarded_stock [OF sound]
  have same: "guarded.sound xxh (bp_pager q) n1 T C p'" using guarded.costs_sound [OF costs _ r(1)] sound by simp
  have tied': "tied xxh q n1 T C p' t M D" using tied_grows [OF tied(1) same subset_refl subset_refl] by simp
  have ids: "unat (bp_next_page_id p') \<le> unat (bp_next_page_id p) + 0"
    by (rule guarded.costs_ids [OF costs _ stock r(1)]) (use sound in simp)
  have no: "\<not> succeeds op r'" "would_be op M = {}" for r' using reads by (simp_all add: succeeds_def would_be_def)
  have "kv_doubt op (M, D) r (M, D)"
  proof (cases "failed io_failure r")
    case True
    then show ?thesis using kv_doubt.io_error [of _ op M D] no(2) by (cases r) auto
  next
    case False
    then have "kv_step op M r M" using r(2) calm(2) kv_step_keeps [OF calm(2)] no(1) by auto
    then show ?thesis using kv_doubt.answer [of op M r M D] no(1) by simp
  qed
  moreover have "T \<subseteq> slots_after xxh op db r S" using tied(2) no(1) by (auto simp: slots_after_def)
  moreover have "p_txn_id (bp_pager p') = p_txn_id (bp_pager p)"
    using same_pager_sel(4) tied_pager(2) [OF tied(1)] tied_pager(2) [OF tied'] by metis
  ultimately show ?thesis using r(1) robustI [OF tied'] ids by auto
qed

lemma robust_call:
  assumes rob: "robust xxh p t M D S" and aff: "pool_affords p t (Suc n)" and modest: "modest_op op"
  shows "\<exists>r p' t' M' D'. pool_call xxh op p = Some (r, p') \<and> kv_doubt op (M, D) r (M', D') \<and>
    robust xxh p' t' M' D' (slots_after xxh op \<lparr>db_pool = p\<rparr> r S) \<and> pool_affords p' t' n"
proof -
  let ?calm = "\<lparr>db_pool = calm p\<rparr>"
  note rep = robust_represents [OF rob]
  have acc: "db_accepts xxh ?calm t op"
    using affords_accepts [of xxh ?calm t M n op] rep aff modest by (simp add: db_rep_def db_affords_def)
  from db_call_law [of xxh ?calm t M op] rep acc obtain r0 p0 t0 M0 where
    calm: "pool_call xxh op (calm p) = Some (r0, p0)" "kv_step op M r0 M0" "call_effect xxh op (calm p) t r0 p0 t0 M0"
    by (auto simp: db_call_pool)
  have after: "pool_affords p' t' n" if "call_effect xxh op (calm p) t r (calm p') t' M'" for r p' t' M'
    using affords_after [OF _ modest that] aff by simp
  show ?thesis
  proof (cases "op_writes op")
    case True
    from robust_write [OF rob acc True calm] obtain r p' t' M' D' where
      r: "pool_call xxh op p = Some (r, p')" "kv_doubt op (M, D) r (M', D')"
        "robust xxh p' t' M' D' (slots_after xxh op \<lparr>db_pool = p\<rparr> r S)"
      and left: "call_effect xxh op (calm p) t r (calm p') t' M' \<or> t' = t \<and> p_txn_id (bp_pager p') = p_txn_id (bp_pager p) \<and>
         unat (bp_next_page_id p') \<le> unat (bp_next_page_id p) + (op_ids op + 2 * height_of t + 3)" by blast
    from left have "pool_affords p' t' n" using after affords_spent [OF aff modest] by blast
    with r show ?thesis by blast
  next
    case False
    from robust_read [OF rob False calm(1,2)] obtain r p' where
      r: "pool_call xxh op p = Some (r, p')" "kv_doubt op (M, D) r (M, D)"
        "robust xxh p' t M D (slots_after xxh op \<lparr>db_pool = p\<rparr> r S)"
        "p_txn_id (bp_pager p') = p_txn_id (bp_pager p)" "unat (bp_next_page_id p') \<le> unat (bp_next_page_id p)" by blast
    have "pool_affords p' t n" by (rule affords_spent [OF aff modest r(4)]) (use r(5) in simp)
    with r(1-3) show ?thesis by blast
  qed
qed

section \<open>Sessions\<close>

inductive kv_tries :: "(pinax_error \<Rightarrow> bool) \<Rightarrow> kv_op list \<Rightarrow> (i64 \<rightharpoonup> row) \<Rightarrow> kv_result list \<Rightarrow> (i64 \<rightharpoonup> row) \<Rightarrow> bool"
  for bad where
  Nil: "kv_tries bad [] M [] M"
| Cons: "kv_try bad op M r M' \<Longrightarrow> kv_tries bad ops M' rs M'' \<Longrightarrow> kv_tries bad (op # ops) M (r # rs) M''"

inductive_cases kv_tries_NilE: "kv_tries bad [] M rs M'"
inductive_cases kv_tries_ConsE: "kv_tries bad (op # ops) M rs M'"

inductive kv_doubts :: "kv_op list \<Rightarrow> doubt \<Rightarrow> kv_result list \<Rightarrow> doubt \<Rightarrow> bool" where
  Nil: "kv_doubts [] m [] m"
| Cons: "kv_doubt op m r m' \<Longrightarrow> kv_doubts ops m' rs m'' \<Longrightarrow> kv_doubts (op # ops) m (r # rs) m''"

inductive_cases kv_doubts_NilE: "kv_doubts [] m rs m'"
inductive_cases kv_doubts_ConsE: "kv_doubts (op # ops) m rs m'"

lemma kv_doubts_tries: "kv_doubts ops m rs m' \<Longrightarrow> kv_tries io_failure ops (fst m) rs (fst m')"
  by (induction rule: kv_doubts.induct) (auto intro: kv_tries.intros kv_doubt_try)

text \<open>
  The slots that may lie over the inactive one at the end of a session: a history of the run, which
  the code does not see. The tracked call carries it along.
\<close>

fun slots_at_risk :: "(bytes \<Rightarrow> u64) \<Rightarrow> kv_op list \<Rightarrow> database \<Rightarrow> bytes set \<Rightarrow> bytes set" where
  "slots_at_risk xxh [] db S = S"
| "slots_at_risk xxh (op # ops) db S =
     (case db_call xxh op db of
        None \<Rightarrow> S
      | Some (r, db') \<Rightarrow> slots_at_risk xxh ops db' (slots_after xxh op db r S))"

definition tracked_call :: "(bytes \<Rightarrow> u64) \<Rightarrow> kv_op \<Rightarrow> database \<times> bytes set \<Rightarrow> (kv_result \<times> database \<times> bytes set) option" where
  "tracked_call xxh op s =
     map_option (\<lambda>(r, db'). (r, db', slots_after xxh op (fst s) r (snd s))) (db_call xxh op (fst s))"

lemma calls_tracked:
  "calls (tracked_call xxh) ops (db, S) =
     map_option (\<lambda>(rs, db'). (rs, db', slots_at_risk xxh ops db S)) (calls (db_call xxh) ops db)"
proof (induction ops arbitrary: db S)
  case (Cons op ops)
  then show ?case
    by (cases "db_call xxh op db") (auto simp: tracked_call_def option.map_comp comp_def case_prod_unfold)
qed simp

definition robust_rep :: "(bytes \<Rightarrow> u64) \<Rightarrow> database \<times> bytes set \<Rightarrow> tree option \<Rightarrow> doubt \<Rightarrow> bool" where
  "robust_rep xxh s t m \<longleftrightarrow> robust xxh (db_pool (fst s)) t (fst m) (snd m) (snd s)"

interpretation resilient: stepwise_store "robust_rep xxh" "\<lambda>s. db_affords (fst s)" modest_op "tracked_call xxh" kv_doubt kv_doubts
  for xxh
proof
  fix s t m op n
  assume "robust_rep xxh s t m" "db_affords (fst s) t (Suc n)" "modest_op op"
  moreover obtain p S where s: "s = (\<lparr>db_pool = p\<rparr>, S)" by (metis database.cases prod.collapse)
  ultimately obtain r p' t' M' D' where "pool_call xxh op p = Some (r, p')" "kv_doubt op m r (M', D')"
    "robust xxh p' t' M' D' (slots_after xxh op \<lparr>db_pool = p\<rparr> r S)" "pool_affords p' t' n"
    using robust_call [of xxh p t "fst m" "snd m" S n op] by (auto simp: robust_rep_def db_affords_def)
  then show "\<exists>r s' t' m'. tracked_call xxh op s = Some (r, s') \<and> kv_doubt op m r m' \<and> robust_rep xxh s' t' m' \<and> db_affords (fst s') t' n"
    by (intro exI [of _ r] exI [of _ "(\<lparr>db_pool = p'\<rparr>, slots_after xxh op \<lparr>db_pool = p\<rparr> r S)"] exI [of _ t'] exI [of _ "(M', D')"])
      (simp add: s tracked_call_def db_call_pool robust_rep_def db_affords_def)
qed (fact kv_doubts.intros)+

text \<open>A new database, with any faults to come.\<close>

lemma new_start:
  assumes "creatable fs path" "valid_page_size (page_bytes ps)" "1 \<le> capacity"
    and "create_with_capacity xxh path ps capacity fs = (Inr db, fs')" "n \<le> 46000"
  shows "robust xxh (with_faults faults (db_pool db)) None Map.empty {} {replicate 4096 0}"
    and "pool_affords (with_faults faults (db_pool db)) None n"
proof -
  obtain db1 fs1 where new: "create_with_capacity xxh path ps capacity fs = (Inr db1, fs1)"
    "\<forall>fl. settled xxh (with_faults fl (db_pool db1)) None Map.empty"
    "f_durable (pool_file (db_pool db1)) = encoded_slot xxh (fresh_meta ps) @ replicate 4096 0"
    "p_active_slot (bp_pager (db_pool db1)) = 0" "bp_next_page_id (db_pool db1) = 2" "p_txn_id (bp_pager (db_pool db1)) = 0"
    by (rule new_settled [OF assms(1-3)])
  have eq: "db1 = db" using assms(4) new(1) by simp
  have "slice (f_durable (pool_file (db_pool db1))) (slot_pos (1 - 0)) 4096 = replicate 4096 0"
    by (simp add: new(3) slot_pos_def slice_append_right slice_def)
  then show "robust xxh (with_faults faults (db_pool db)) None Map.empty {} {replicate 4096 0}"
    using new(2,4) eq by (intro settled_robust) simp_all
  show "pool_affords (with_faults faults (db_pool db)) None n"
    using fresh_affords [OF _ _ assms(5)] new(5,6) eq by simp
qed

lemma new_robust:
  assumes "creatable fs path" "valid_page_size (page_bytes ps)" "1 \<le> capacity"
    and "create_with_capacity xxh path ps capacity fs = (Inr db, fs')" "list_all modest_op ops" "length ops \<le> 46000"
  obtains rs db' t M D where
    "calls (db_call xxh) ops \<lparr>db_pool = with_faults faults (db_pool db)\<rparr> = Some (rs, db')"
    "kv_doubts ops (Map.empty, {}) rs (M, D)"
    "robust xxh (db_pool db') t M D
       (slots_at_risk xxh ops \<lparr>db_pool = with_faults faults (db_pool db)\<rparr> {replicate 4096 0})"
proof -
  let ?p = "with_faults faults (db_pool db)"
  note start = new_start [OF assms(1-4,6), of faults]
  have "robust_rep xxh (\<lparr>db_pool = ?p\<rparr>, {replicate 4096 0}) None (Map.empty, {})" using start(1) by (simp add: robust_rep_def)
  moreover have "db_affords \<lparr>db_pool = ?p\<rparr> None (length ops + 0)" using start(2) by (simp add: db_affords_def)
  ultimately show thesis
    using resilient.session [of xxh "(\<lparr>db_pool = ?p\<rparr>, {replicate 4096 0})" None "(Map.empty, {})" ops 0] assms(5) that
    by (auto simp: calls_tracked robust_rep_def)
qed

section \<open>Claims\<close>

lemma robust_scan:
  assumes "robust xxh p t M D S"
  obtains entries after where "db_scan xxh \<lparr>db_pool = calm p\<rparr> = Some (Inr entries, after)" "lists_map entries M"
proof -
  from scan_represents [OF robust_represents [OF assms]] obtain entries p' where
    "btree_scan xxh (calm p) = Some (Inr entries, p')" "lists_map entries M" .
  then show thesis using that by (simp add: db_scan_def on_pool_def)
qed

lemma kv_try_insert:
  assumes "kv_tries bad [OpInsert key row, OpInsert key row] Map.empty rs M'" "row_fits row"
  shows "M' \<in> {Map.empty, [key \<mapsto> row]}"
  using assms by (fastforce elim!: kv_tries_ConsE kv_tries_NilE kv_tryE kv_insertE)

text \<open>
  C4: no I/O error takes the database down. Create a database and run any list of up to 46000 calls
  with small rows on it while the file fails whenever it likes (every schedule of failing and torn
  writes, reads and syncs): every call returns, with the answer of the map or with an I/O error and
  the map unchanged, and once the file works again a scan lists exactly the map the calls have built.
\<close>
lemma database_resilient:
  assumes "creatable fs path" "valid_page_size (page_bytes ps)" "1 \<le> capacity"
    and "create_with_capacity xxh path ps capacity fs = (Inr db, fs')"
    and "list_all modest_op ops" "length ops \<le> 46000"
  shows "\<exists>rs db' M' entries after.
    calls (db_call xxh) ops \<lparr>db_pool = with_faults faults (db_pool db)\<rparr> = Some (rs, db') \<and> kv_tries io_failure ops Map.empty rs M' \<and>
    db_scan xxh \<lparr>db_pool = calm (db_pool db')\<rparr> = Some (Inr entries, after) \<and> lists_map entries M'"
proof -
  from new_robust [OF assms(1-6), of faults] obtain rs db' t M D where
    run: "calls (db_call xxh) ops \<lparr>db_pool = with_faults faults (db_pool db)\<rparr> = Some (rs, db')"
      "kv_doubts ops (Map.empty, {}) rs (M, D)"
      "robust xxh (db_pool db') t M D
         (slots_at_risk xxh ops \<lparr>db_pool = with_faults faults (db_pool db)\<rparr> {replicate 4096 0})" .
  obtain entries after where "db_scan xxh \<lparr>db_pool = calm (db_pool db')\<rparr> = Some (Inr entries, after)" "lists_map entries M"
    by (rule robust_scan [OF run(3)])
  with run(1) kv_doubts_tries [OF run(2)] show ?thesis by auto
qed

text \<open>Two inserts on a file whose third write is torn after nine bytes.\<close>

lemma database_resilient_witness:
  "\<exists>db fs' rs db' M' entries after.
     create_with_capacity (\<lambda>_. 0) ''db'' DEFAULT_PAGE_SIZE 1 empty_fs = (Inr db, fs') \<and>
     calls (db_call (\<lambda>_. 0)) [OpInsert 1 sample_row, OpInsert 1 sample_row]
       \<lparr>db_pool = with_faults [None, None, Some 9] (db_pool db)\<rparr> = Some (rs, db') \<and>
     M' \<in> {Map.empty, [1 \<mapsto> sample_row]} \<and>
     db_scan (\<lambda>_. 0) \<lparr>db_pool = calm (db_pool db')\<rparr> = Some (Inr entries, after) \<and> lists_map entries M'"
proof -
  let ?ops = "[OpInsert 1 sample_row, OpInsert 1 sample_row]"
  obtain db fs' where c: "create_with_capacity (\<lambda>_. 0) ''db'' DEFAULT_PAGE_SIZE 1 empty_fs = (Inr db, fs')"
    by (rule created_database [OF creatable_empty default_page_size, of 1]) simp_all
  have m: "list_all modest_op ?ops" using sample_row_modest by (simp add: modest_op_def)
  from database_resilient [OF creatable_empty default_page_size _ c m, of "[None, None, Some 9]"]
  obtain rs db' M' entries after where
    r: "calls (db_call (\<lambda>_. 0)) ?ops \<lparr>db_pool = with_faults [None, None, Some 9] (db_pool db)\<rparr> = Some (rs, db')"
      "kv_tries io_failure ?ops Map.empty rs M'"
      "db_scan (\<lambda>_. 0) \<lparr>db_pool = calm (db_pool db')\<rparr> = Some (Inr entries, after)" "lists_map entries M'" by auto
  with c kv_try_insert [OF r(2) sample_row_modest(3)] show ?thesis by blast
qed

text \<open>
  C5: the database survives a crash after any number of I/O errors. Create a database, run any list
  of up to 46000 calls with small rows on it while the file fails whenever it likes, and lose the
  process and the machine: if no torn combination of the meta slots written since the last
  transaction passes for a slot, the file opens again, with any cache capacity, to the map the calls
  have built or to the one that a write which failed since the last successful one would have made.
\<close>
lemma database_recovers:
  assumes "creatable fs path" "valid_page_size (page_bytes ps)" "1 \<le> capacity"
    and "create_with_capacity xxh path ps capacity fs = (Inr db, fs')"
    and "list_all modest_op ops" "length ops \<le> 46000"
    and "calls (db_call xxh) ops \<lparr>db_pool = with_faults faults (db_pool db)\<rparr> = Some (rs, db')"
    and "torn_proof xxh (slots_at_risk xxh ops \<lparr>db_pool = with_faults faults (db_pool db)\<rparr> {replicate 4096 0})"
    and "crash_image (pool_file (db_pool db')) c"
  shows "\<exists>M D. kv_doubts ops (Map.empty, {}) rs (M, D) \<and> (\<exists>M' \<in> insert M D. recovers xxh path c M')"
proof -
  from new_robust [OF assms(1-6), of faults] obtain rs1 db1 t M D where
    run: "calls (db_call xxh) ops \<lparr>db_pool = with_faults faults (db_pool db)\<rparr> = Some (rs1, db1)"
      "kv_doubts ops (Map.empty, {}) rs1 (M, D)"
      "robust xxh (db_pool db1) t M D
         (slots_at_risk xxh ops \<lparr>db_pool = with_faults faults (db_pool db)\<rparr> {replicate 4096 0})" .
  have "rs1 = rs" "db1 = db'" using run(1) assms(7) by simp_all
  with run(2) robust_recovers [OF run(3) assms(8)] assms(9) show ?thesis by blast
qed

text \<open>An insert whose third I/O call tears a write after nine bytes, then a lookup; the crash loses what is unsynced.\<close>

lemma slots_after_insert:
  "\<exists>m. slots_after xxh op db r {replicate 4096 0} \<subseteq> {replicate 4096 0, encoded_slot xxh m}"
  by (auto simp: slots_after_def slot_tried_def split: option.split sum.split)

lemma slots_after_get: "slots_after xxh (OpGet key) db r S = S"
  by (auto simp: slots_after_def slot_tried_def succeeds_def op_writes_def split: option.split sum.split)

lemma torn_proof_new: "S \<subseteq> {replicate 4096 0, encoded_slot nonzero_hash m} \<Longrightarrow> torn_proof nonzero_hash S"
  by (rule torn_proof_subset [OF torn_proof_pair [OF torn_detected_nonzero]]) simp_all

lemma torn_proof_insert_get:
  "torn_proof nonzero_hash (slots_at_risk nonzero_hash [OpInsert key row, OpGet key'] db {replicate 4096 0})"
proof (cases "db_call nonzero_hash (OpInsert key row) db")
  case None
  then show ?thesis by (intro torn_proof_new [of _ undefined]) simp
next
  case (Some y)
  obtain r db' where y: "y = (r, db')" by fastforce
  have "slots_at_risk nonzero_hash [OpInsert key row, OpGet key'] db {replicate 4096 0} =
      slots_after nonzero_hash (OpInsert key row) db r {replicate 4096 0}"
    using Some y by (simp add: slots_after_get split: option.split)
  then show ?thesis using slots_after_insert [of nonzero_hash "OpInsert key row" db r] torn_proof_new by auto
qed

lemma kv_doubts_insert_get:
  assumes "kv_doubts [OpInsert key row, OpGet key] (Map.empty, {}) rs (M, D)" "row_fits row" "M' \<in> insert M D"
  shows "M' \<in> {Map.empty, [key \<mapsto> row]}"
  using assms
  by (fastforce elim!: kv_doubts_ConsE kv_doubts_NilE kv_doubtE kv_insertE kv_getE
      simp: would_be_def succeeds_def op_writes_def split: if_splits)

lemma database_recovers_witness:
  "\<exists>db fs' rs db' M'.
     create_with_capacity nonzero_hash ''db'' DEFAULT_PAGE_SIZE 1 empty_fs = (Inr db, fs') \<and>
     calls (db_call nonzero_hash) [OpInsert 1 sample_row, OpGet 1]
       \<lparr>db_pool = with_faults [None, None, Some 9] (db_pool db)\<rparr> = Some (rs, db') \<and>
     M' \<in> {Map.empty, [1 \<mapsto> sample_row]} \<and>
     recovers nonzero_hash ''db'' (f_durable (pool_file (db_pool db'))) M'"
proof -
  let ?ops = "[OpInsert 1 sample_row, OpGet 1]" and ?fl = "[None, None, Some 9]"
  obtain db fs' where c: "create_with_capacity nonzero_hash ''db'' DEFAULT_PAGE_SIZE 1 empty_fs = (Inr db, fs')"
    by (rule created_database [OF creatable_empty default_page_size, of 1]) simp_all
  have m: "list_all modest_op ?ops" using sample_row_modest by (simp add: modest_op_def)
  obtain rs db' where r: "calls (db_call nonzero_hash) ?ops \<lparr>db_pool = with_faults ?fl (db_pool db)\<rparr> = Some (rs, db')"
    by (rule new_robust [OF creatable_empty default_page_size _ c m, of ?fl]) simp_all
  from database_recovers [OF creatable_empty default_page_size _ c m _ r torn_proof_insert_get crash_image_lost] obtain M D M' where
    d: "kv_doubts ?ops (Map.empty, {}) rs (M, D)" "M' \<in> insert M D"
      "recovers nonzero_hash ''db'' (f_durable (pool_file (db_pool db'))) M'" by auto
  with c r kv_doubts_insert_get [OF d(1) sample_row_modest(3) d(2)] show ?thesis by blast
qed

end
