(* ===== verification/Damage.thy ===== *)
theory Damage
  imports Recovery
begin

text \<open>
  Damage of the file on disk: pages whose bytes have changed since they were written, or are gone.
  A lookup or a scan of such a file is compared with the one on the file as it was: they read the
  same pages until one does not verify, and that one ends the call. So the interpretation
  \<open>damaged\<close> of \<open>reading\<close> carries over what is known of the undamaged database.
\<close>

section \<open>Pages that verify\<close>

text \<open>The body of a page and its checksum make the page.\<close>

lemma verified_page:
  assumes "8 \<le> length buf" "verify_checksum xxh buf = Inr ()"
  shows "buf = page_body buf @ to_be_bytes 8 (xxh (page_body buf))"
proof -
  let ?n = "length buf - 8"
  have "u64_at buf ?n = xxh (page_body buf)" using assms by (simp add: verify_checksum_long split: if_splits)
  moreover have "slice buf ?n 8 = drop ?n buf" using assms(1) by (simp add: slice_def)
  moreover have "to_be_bytes 8 (from_be_bytes (drop ?n buf) :: u64) = drop ?n buf"
    using to_from_be_bytes [where 'a = 64, of "drop ?n buf"] assms(1) by simp
  ultimately show ?thesis by (metis append_take_drop_id page_body_def u64_at_def)
qed

text \<open>The errors that report that a page could not be read.\<close>

definition read_failure :: "pinax_error \<Rightarrow> bool" where
  "read_failure e \<longleftrightarrow> io_failure e \<or> (case e of Fatal (Corruption _ _ _) \<Rightarrow> True | _ \<Rightarrow> False)"

lemma read_data_page_error: "read_data_page xxh pid pg = (Inl e, pg') \<Longrightarrow> read_failure e"
  by (auto simp: read_data_page_def pager_io_def io_at_def spure_def read_failure_def io_failure_def
      elim!: sbind_cases split: sum.splits prod.splits)

section \<open>Damaged files\<close>

text \<open>Every page of \<open>pg'\<close> that verifies is the page of \<open>pg\<close>.\<close>

definition decayed :: "(bytes \<Rightarrow> u64) \<Rightarrow> pager \<Rightarrow> pager \<Rightarrow> bool" where
  "decayed xxh pg pg' \<longleftrightarrow> same_pager pg pg' \<and>
     (\<forall>pid. disk_page xxh pg' pid = None \<or> disk_page xxh pg' pid = disk_page xxh pg pid)"

lemma same_pagers: "same_pager pg pg' \<Longrightarrow> same_pager pg pg1 \<Longrightarrow> same_pager pg' pg1' \<Longrightarrow> same_pager pg1 pg1'"
  unfolding same_pager_def by (metis pager.update_convs(1) pager.surjective pager.ext_inject)

lemma decayed_cong:
  assumes "decayed xxh pg pg'" "same_pager pg pg1" "contents (p_file pg1) = contents (p_file pg)"
    and "same_pager pg' pg1'" "contents (p_file pg1') = contents (p_file pg')"
  shows "decayed xxh pg1 pg1'"
proof -
  have "same_pager pg1 pg1'"
    using same_pagers [OF _ assms(2,4)] assms(1) by (simp add: decayed_def)
  then show ?thesis
    using assms(1) disk_page_cong [OF assms(2,3)] disk_page_cong [OF assms(4,5)] by (simp add: decayed_def)
qed

text \<open>A read of the damaged file that succeeds reads what was there.\<close>

lemma read_decayed:
  assumes "decayed xxh pg pg'" "read_data_page xxh pid pg' = (Inr buf, pg1')" "fault_free (p_file pg)"
    and "valid_page_size (page_bytes (p_page_size pg))"
  obtains f where "read_data_page xxh pid pg = (Inr buf, pg\<lparr>p_file := f\<rparr>)" "fault_free f"
    "contents f = contents (p_file pg)"
proof -
  note R = read_data_page_result(5) [OF assms(2), of buf, OF refl]
  have ps: "p_page_size pg' = p_page_size pg" using assms(1) same_pager_sel(1) by (auto simp: decayed_def)
  have d: "disk_page xxh pg pid = Some (page_body buf)" using R assms(1) unfolding decayed_def by (metis option.distinct(1))
  from assms(3) d obtain f where f: "fault_free f" "read_data_page xxh pid pg = (Inr (page_at pg pid), pg\<lparr>p_file := f\<rparr>)"
    "page_body (page_at pg pid) = page_body buf" by (rule read_data_page_disk)
  note R' = read_data_page_result [OF f(2)]
  have len: "8 \<le> bytes_usize (p_page_size pg)" using valid_page_size_bounds(1) [OF assms(4)] by simp
  have "page_at pg pid = buf"
    using verified_page [of buf xxh] verified_page [of "page_at pg pid" xxh] R R'(5) f(3) len ps by simp
  then show thesis using that [of f] f R'(2) by simp
qed

text \<open>The damaged file under the same cache; nothing is written, so the cache has no dirty page.\<close>

lemma read_stays_fault_free:
  "read_data_page xxh pid pg = (r, pg') \<Longrightarrow> fault_free (p_file pg) \<Longrightarrow> fault_free (p_file pg')"
  using io_tick_fields(4) [of "p_file pg" "fst (io_tick (p_file pg))" "snd (io_tick (p_file pg))"]
  by (auto simp: read_data_page_def pager_io_def io_at_def read_exact_at_def spure_def
      elim!: sbind_cases split: prod.splits option.splits)

interpretation damaged_pool: twin_pagers read_failure "\<lambda>_. False" xxh
    "\<lambda>pg' pg. decayed xxh pg pg' \<and> fault_free (p_file pg) \<and> valid_page_size (page_bytes (p_page_size pg))" "{}" for xxh
proof
  fix s t s' t' :: pager and pid and r r0 :: "bytes presult"
  assume P: "decayed xxh t s \<and> fault_free (p_file t) \<and> valid_page_size (page_bytes (p_page_size t))"
    and s: "read_data_page xxh pid s = (r, s')" and t: "read_data_page xxh pid t = (r0, t')"
  have "decayed xxh t' s'" using P decayed_cong read_data_page_result(1,2) [OF s] read_data_page_result(1,2) [OF t] by blast
  moreover have "valid_page_size (page_bytes (p_page_size t'))"
    using P same_pager_sel(1) [OF read_data_page_result(1) [OF t]] by simp
  moreover have "failed read_failure r \<or> r0 = r"
  proof (cases r)
    case (Inl e)
    then show ?thesis using read_data_page_error s by simp
  next
    case (Inr buf)
    with P s obtain f where "read_data_page xxh pid t = (Inr buf, t\<lparr>p_file := f\<rparr>)" by (blast elim: read_decayed)
    then show ?thesis using t Inr by simp
  qed
  ultimately show "(decayed xxh t' s' \<and> fault_free (p_file t') \<and> valid_page_size (page_bytes (p_page_size t'))) \<and>
      (failed read_failure r \<or> r0 = r)"
    using P read_stays_fault_free [OF t] by blast
qed simp

text \<open>The pool \<open>p\<close> on the damaged file is a twin of \<open>q\<close>, which has only looked at pages since \<open>q0\<close>.\<close>

definition reads_from :: "(bytes \<Rightarrow> u64) \<Rightarrow> pool \<Rightarrow> pool \<Rightarrow> pool \<Rightarrow> bool" where
  "reads_from xxh q0 p q \<longleftrightarrow> looked_at xxh q0 q \<and> damaged_pool.twins xxh p q"

lemma looked_atI:
  assumes "store_inv xxh p" "store_ok xxh p'" "commit_ready xxh (bp_pager p')" "fault_free (pool_file p')"
    and "pool_frame p p'" "pool_view xxh p \<subseteq>\<^sub>m pool_view xxh p'"
  shows "looked_at xxh p p'"
  using assms pool_frame_sel(4) [OF assms(5)]
  by (auto simp: looked_at_def store.extends_def store_inv_def pool_frame_def store_frame_def map_le_def dom_def
      store_view_def restrict_map_def)

lemma store_read:
  assumes "store_inv xxh p" "pool_read xxh pid p = (r, p')" "fault_free (pool_file p')"
  shows "looked_at xxh p p'"
proof -
  have s: "store_ok xxh p" "pool_inv xxh p" "commit_ready xxh (bp_pager p)"
    using assms(1) by (simp_all add: store_inv_def store_ok_def)
  note R = pool_read_inv [OF s(2) assms(2)]
  obtain pg where pg: "read_data_page xxh pid (bp_pager p) = (r, pg)" "p' = p\<lparr>bp_pager := pg\<rparr>"
    using assms(2) by (auto simp: pool_read_def split: prod.splits)
  have "store_ok xxh p'" using s(1) R(1) pg(2) by (simp add: store_ok_def)
  moreover have "commit_ready xxh (bp_pager p')" using ready_stable.read_keeps [OF s(3) pg(1)] pg(2) by simp
  ultimately show ?thesis using looked_atI [OF assms(1) _ _ assms(3) R(2)] R(3) by simp
qed

lemma store_got:
  assumes inv: "store_inv xxh p" and r: "pool_get xxh pid p = (r, p')" and free: "fault_free (pool_file p')"
  shows "looked_at xxh p p'"
proof -
  have s: "store_ok xxh p" "pool_inv xxh p" "commit_ready xxh (bp_pager p)" "fault_free (pool_file p)"
    using inv by (simp_all add: store_inv_def store_ok_def)
  show ?thesis
  proof (cases r)
    case (Inr buf)
    have "commit_ready xxh (bp_pager p')" using ready_stable.pool_get_safe [OF _ r] s(3) by simp
    then show ?thesis
      using looked_atI [OF inv store_ok_get [OF s(1) r] _ free] pool_get_inv [OF s(2) r] Inr by blast
  next
    case (Inl e)
    then have None: "map_of (bp_entries p) pid = None" using r by (auto simp: pool_get_def split: option.splits)
    obtain r1 p1 where rd: "pool_read xxh pid p = (r1, p1)" by fastforce
    have p1: "fault_free (pool_file p1)" "pid \<notin> set (bp_dirty p1)"
      using rd s(4) read_stays_fault_free pool_wf_dirty [OF s(2) None] by (auto simp: pool_read_def split: prod.splits)
    have "r1 \<noteq> Inr buf" for buf
    proof
      assume "r1 = Inr buf"
      obtain p2 where "insert_cached xxh pid buf False p1 = (Inr (), p2)"
        by (rule insert_cached_fault_free [OF pool_read_inv(1) [OF s(2) rd] p1(2,1)])
      then show False using r Inl None rd \<open>r1 = Inr buf\<close> by (simp add: pool_get_def sbind_def spure_def)
    qed
    then obtain e1 where "r1 = Inl e1" by (cases r1) auto
    then have "p' = p1" using r None rd by (simp add: pool_get_def sbind_def)
    then show ?thesis using store_read [OF inv rd p1(1)] by simp
  qed
qed

lemma looked_at_trans: "looked_at xxh p q \<Longrightarrow> looked_at xxh q r \<Longrightarrow> looked_at xxh p r"
  using store.extends_trans by (auto simp: looked_at_def)

lemma reads_from_get:
  assumes R: "reads_from xxh q0 p q" and g: "pool_get xxh pid p = (r, p')"
  shows "\<exists>q'. reads_from xxh q0 p' q' \<and> (\<not> failed read_failure r \<longrightarrow> pool_get xxh pid q = (r, q'))"
proof -
  have q: "looked_at xxh q0 q" "damaged_pool.twins xxh p q" using R by (simp_all add: reads_from_def)
  then have inv: "store_inv xxh q" by (simp add: looked_at_def store.extends_def)
  have step: "reads_from xxh q0 p' q'" if "damaged_pool.twins xxh p' q'" "fault_free (pool_file q') \<Longrightarrow> looked_at xxh q q'" for q'
    using that looked_at_trans [OF q(1)] by (simp add: reads_from_def damaged_pool.twins_def)
  from q(2) g show ?thesis
  proof (cases rule: damaged_pool.twins_get)
    case (1 q')
    then show ?thesis using step store_got [OF inv] by blast
  next
    case (unread r0 q')
    then show ?thesis using step store_read [OF inv] by blast
  qed (simp add: failed_def split: sum.splits)
qed

interpretation damaged: comparison read_failure "\<lambda>_. reads_from xxh q0" for xxh q0
proof
  fix p q
  assume R: "reads_from xxh q0 p q"
  then have q: "looked_at xxh q0 q" "damaged_pool.twins xxh p q" by (simp_all add: reads_from_def)
  then have "decayed xxh (bp_pager q) (bp_pager p)" "bp_dirty q = []" by (auto elim!: damaged_pool.twinsE)
  then have "same_pager (bp_pager q) (bp_pager p)" by (simp add: decayed_def)
  from same_pager_sel(1,5) [OF this] show "pool_page_size q = pool_page_size p" "pool_root_page_id q = pool_root_page_id p"
    by (simp_all add: pool_page_size_def pool_root_page_id_def)
  have "decayed xxh (bp_pager q) (bp_pager q)" by (simp add: decayed_def)
  with \<open>bp_dirty q = []\<close> show "reads_from xxh q0 q q" using q by (simp add: reads_from_def damaged_pool.twins_def)
qed

interpretation damaged_reading: reading read_failure "\<lambda>_. reads_from xxh q0" xxh for xxh q0
  by unfold_locales (simp add: damaged.follows_def reads_from_get)

section \<open>Lookups and scans\<close>

lemma reading_call:
  assumes R: "reads_from xxh q0 p q" and rep: "represents xxh q0 t M" and reads: "\<not> op_writes op"
  obtains r p' q' where "pool_call xxh op p = Some (r, p')" "reads_from xxh q0 p' q'" "failed read_failure r \<or> kv_step op M r M"
proof -
  have "represents xxh q t M" using represents_looked_at [OF rep] R by (simp add: reads_from_def)
  moreover have "db_accepts xxh \<lparr>db_pool = q\<rparr> t op" using reads by (cases op) (simp_all add: db_accepts_def op_writes_def)
  ultimately obtain r0 p0 M0 where c: "pool_call xxh op q = Some (r0, p0)" and step: "kv_step op M r0 M0"
    using db_call_law [of xxh "\<lparr>db_pool = q\<rparr>" t M op] by (auto simp: db_call_pool)
  have "M0 = M" using step reads by (cases op) (auto simp: op_writes_def elim: kv_getE kv_scanE)
  with step have step: "kv_step op M r0 M" by simp
  have "damaged.ret xxh q0 0 (pool_call xxh op) (pool_call xxh op)"
    using damaged_reading.tracks_reading [OF reads] by (simp add: damaged.like_def)
  from damaged.retE [OF this R c] obtain r p' q' where
    "pool_call xxh op p = Some (r, p')" "reads_from xxh q0 p' q'" "\<not> failed read_failure r \<longrightarrow> (r0, p0) = (r, q')" by blast
  then show thesis using that step by blast
qed

lemma reading_calls:
  assumes "reads_from xxh q0 p q" "represents xxh q0 t M" "list_all (\<lambda>op. \<not> op_writes op) ops"
  shows "\<exists>rs db'. calls (db_call xxh) ops \<lparr>db_pool = p\<rparr> = Some (rs, db') \<and>
    list_all2 (\<lambda>op r. failed read_failure r \<or> kv_step op M r M) ops rs"
  using assms(1,3)
proof (induction ops arbitrary: p q)
  case (Cons op ops)
  from reading_call [OF Cons.prems(1) assms(2), of op] Cons.prems(2) obtain r p' q' where
    r: "pool_call xxh op p = Some (r, p')" "reads_from xxh q0 p' q'" "failed read_failure r \<or> kv_step op M r M" by auto
  from Cons.IH [OF r(2)] Cons.prems(2) obtain rs db' where "calls (db_call xxh) ops \<lparr>db_pool = p'\<rparr> = Some (rs, db')"
    "list_all2 (\<lambda>op r. failed read_failure r \<or> kv_step op M r M) ops rs" by auto
  moreover have "db_call xxh op \<lparr>db_pool = p\<rparr> = Some (r, \<lparr>db_pool = p'\<rparr>)" using r(1) by (simp add: db_call_pool)
  ultimately show ?case using r(3) by (intro exI [of _ "r # rs"] exI [of _ db']) simp
qed simp

section \<open>Claims\<close>

text \<open>
  C6: damage is never served. Replace the file of a settled database by any other, with any I/O
  faults to come, in which every page that verifies is the page that was there: pages may be
  altered, lost or cut off. Any sequence of lookups and scans then returns, and each of them
  gives the answer of the map or reports a checksum failure or an I/O error.
\<close>
lemma damage_detected:
  assumes "settled xxh p t M" "decayed xxh (bp_pager p) pg" "list_all (\<lambda>op. \<not> op_writes op) ops"
  shows "\<exists>rs db'. calls (db_call xxh) ops \<lparr>db_pool = p\<lparr>bp_pager := pg\<rparr>\<rparr> = Some (rs, db') \<and>
    list_all2 (\<lambda>op r. failed read_failure r \<or> kv_step op M r M) ops rs"
proof -
  have rep: "represents xxh (calm p) t M" "bp_dirty p = []" using assms(1) by (simp_all add: settled_def)
  have "decayed xxh (calm_pager (bp_pager p)) pg"
    by (rule decayed_cong [OF assms(2) _ _ same_pager_refl refl]) (simp_all add: calm_pager_def calm_file_def contents_def)
  moreover have "valid_page_size (page_bytes (p_page_size (bp_pager p)))"
    using settled_inv [OF assms(1)] by (simp add: pager_inv_def)
  ultimately have "reads_from xxh (calm p) (p\<lparr>bp_pager := pg\<rparr>) (calm p)"
    using rep(2) represents_refl [OF rep(1)] by (simp add: reads_from_def damaged_pool.twins_def calm_def)
  from reading_calls [OF this rep(1) assms(3)] show ?thesis .
qed

text \<open>A database with one row, whose file is emptied: what is not in the cache is missed.\<close>

lemma sample_with_row:
  obtains p t where "settled nonzero_hash p (Some t) [1 \<mapsto> sample_row]"
proof -
  obtain p where p: "settled nonzero_hash p None Map.empty" "f_faults (pool_file p) = []"
    "db_accepts nonzero_hash \<lparr>db_pool = p\<rparr> None (OpInsert 1 sample_row)" by (rule faulty_sample)
  have "calm p = p" using p(2) by (simp add: calm_def calm_pager_def calm_file_def)
  then have rep: "represents nonzero_hash p None Map.empty" using p(1) by (simp add: settled_def)
  from db_call_law [of nonzero_hash "\<lparr>db_pool = p\<rparr>" None Map.empty "OpInsert 1 sample_row"] rep p(3) obtain r p' t' M' where
    r: "kv_step (OpInsert 1 sample_row) Map.empty r M'" "call_effect nonzero_hash (OpInsert 1 sample_row) p None r p' t' M'" by auto
  then have "r = Inr Done" "M' = [1 \<mapsto> sample_row]" using sample_row_modest by (auto elim: kv_insertE)
  then show thesis using r(2) that by (auto simp: call_effect_def op_writes_def dest: written_settled)
qed

lemma damage_detected_witness:
  "\<exists>p t pg r db'. settled nonzero_hash p (Some t) [1 \<mapsto> sample_row] \<and> contents (p_file pg) = [] \<and>
     calls (db_call nonzero_hash) [OpGet 1] \<lparr>db_pool = p\<lparr>bp_pager := pg\<rparr>\<rparr> = Some ([r], db') \<and>
     (r = Inr (Found (Some sample_row)) \<or> failed read_failure r)"
proof -
  obtain p t where p: "settled nonzero_hash p (Some t) [1 \<mapsto> sample_row]" by (rule sample_with_row)
  let ?pg = "(bp_pager p)\<lparr>p_file := after_crash [] []\<rparr>"
  have len: "0 < bytes_usize (p_page_size (bp_pager p))"
    using settled_inv [OF p] valid_page_size_bounds(1) [of "p_page_size (bp_pager p)"] by (simp add: pager_inv_def)
  have empty: "contents (p_file ?pg) = []" by (simp add: contents_def after_crash_def apply_writes_def)
  then have "disk_page nonzero_hash ?pg pid = None" for pid using len by (simp add: disk_page_def page_in_file_def)
  then have "decayed nonzero_hash (bp_pager p) ?pg" by (simp add: decayed_def)
  from damage_detected [OF p this, of "[OpGet 1]"] obtain rs db' where
    r: "calls (db_call nonzero_hash) [OpGet 1] \<lparr>db_pool = p\<lparr>bp_pager := ?pg\<rparr>\<rparr> = Some (rs, db')"
      "list_all2 (\<lambda>op r. failed read_failure r \<or> kv_step op [1 \<mapsto> sample_row] r [1 \<mapsto> sample_row]) [OpGet 1] rs"
    by (auto simp: op_writes_def)
  from r(2) obtain x where x: "rs = [x]" "failed read_failure x \<or> kv_step (OpGet 1) [1 \<mapsto> sample_row] x [1 \<mapsto> sample_row]"
    by (auto simp: list_all2_Cons1)
  then have "x = Inr (Found (Some sample_row)) \<or> failed read_failure x" by (auto elim: kv_getE)
  with p r(1) x(1) empty show ?thesis by blast
qed

end
