(* ===== verification/Rot.thy ===== *)
theory Rot
  imports Robust Damage
begin

text \<open>
  Sessions on a file that decays. While a database is in use, pages of its last transaction may
  turn bad between the calls. The run on the decaying file is compared with the one on a file that
  does not decay: as long as no bad page is read both do the same, writes and commits included, for
  no new page lies over an old one; a bad page that is read ends the call before its commit. So the
  interpretations \<open>rot_pool\<close> of \<open>twin_commits\<close> and \<open>rotting\<close> of \<open>writing\<close>
  carry the session under faults of \<open>Robust\<close> over to the decaying file.
\<close>

section \<open>Bad pages\<close>

text \<open>The bytes of the pages \<open>Dm\<close>.\<close>

definition spans :: "pager \<Rightarrow> u32 set \<Rightarrow> nat set" where
  "spans pg Dm = {i. \<exists>pid \<in> Dm. unat (file_offset pg pid) \<le> i \<and> i < unat (file_offset pg pid) + bytes_usize (p_page_size pg)}"

text \<open>\<open>pg'\<close> is \<open>pg\<close> but for the pages \<open>Dm\<close>, which do not verify.\<close>

definition rots :: "(bytes \<Rightarrow> u64) \<Rightarrow> u32 set \<Rightarrow> pager \<Rightarrow> pager \<Rightarrow> bool" where
  "rots xxh Dm pg pg' \<longleftrightarrow> same_pager pg pg' \<and> f_faults (p_file pg') = f_faults (p_file pg) \<and>
     length (contents (p_file pg')) = length (contents (p_file pg)) \<and>
     (\<forall>i. i \<notin> spans pg Dm \<longrightarrow> byte_at (contents (p_file pg')) i = byte_at (contents (p_file pg)) i) \<and>
     (\<forall>pid \<in> Dm. page_in_file pg' pid \<and> verify_checksum xxh (page_at pg' pid) \<noteq> Inr ())"

lemma rots_refl: "rots xxh {} pg pg"
  by (simp add: rots_def)

lemma slice_bytes:
  assumes "length c = length c'" "\<And>i. off \<le> i \<Longrightarrow> i < off + n \<Longrightarrow> byte_at c i = byte_at c' i"
  shows "slice c off n = slice c' off n"
proof (rule nth_equalityI)
  fix j
  assume "j < length (slice c off n)"
  then have j: "j < n" "off + j < length c" by (auto simp: slice_def)
  then show "slice c off n ! j = slice c' off n ! j"
    using assms(1) assms(2) [of "off + j"] by (simp add: slice_def byte_at_def)
qed (simp add: slice_def assms(1))

text \<open>Two pages are at the same place or apart.\<close>

lemma pages_apart:
  assumes "valid_page_size (page_bytes (p_page_size pg))" "file_offset pg pid \<noteq> file_offset pg pid'"
  shows "unat (file_offset pg pid) + bytes_usize (p_page_size pg) \<le> unat (file_offset pg pid') \<or>
    unat (file_offset pg pid') + bytes_usize (p_page_size pg) \<le> unat (file_offset pg pid)"
proof -
  let ?n = "bytes_usize (p_page_size pg)"
  have "unat pid - 2 \<noteq> unat pid' - 2"
    using assms(2) unat_file_offset [OF assms(1)] by (metis word_unat_eq_iff)
  then consider "Suc (unat pid - 2) \<le> unat pid' - 2" | "Suc (unat pid' - 2) \<le> unat pid - 2" by linarith
  then have "Suc (unat pid - 2) * ?n \<le> (unat pid' - 2) * ?n \<or> Suc (unat pid' - 2) * ?n \<le> (unat pid - 2) * ?n"
    by (cases; metis mult_le_mono1)
  then show ?thesis by (auto simp: unat_file_offset [OF assms(1)])
qed

lemma rots_slice:
  assumes "rots xxh Dm pg pg'"
    and "\<And>pid. pid \<in> Dm \<Longrightarrow> off + n \<le> unat (file_offset pg pid) \<or> unat (file_offset pg pid) + bytes_usize (p_page_size pg) \<le> off"
  shows "slice (contents (p_file pg')) off n = slice (contents (p_file pg)) off n"
proof (rule slice_bytes)
  fix i
  assume "off \<le> i" "i < off + n"
  then have "i \<notin> spans pg Dm" using assms(2) by (fastforce simp: spans_def)
  then show "byte_at (contents (p_file pg')) i = byte_at (contents (p_file pg)) i" using assms(1) by (simp add: rots_def)
qed (use assms(1) in \<open>simp add: rots_def\<close>)

lemma rots_apart:
  assumes "rots xxh Dm pg pg'" "valid_page_size (page_bytes (p_page_size pg))"
    and "\<And>d. d \<in> Dm \<Longrightarrow> file_offset pg d \<noteq> file_offset pg pid"
  shows "page_at pg' pid = page_at pg pid"
proof -
  have "same_pager pg pg'" using assms(1) by (simp add: rots_def)
  then have "file_offset pg' = file_offset pg" "p_page_size pg' = p_page_size pg"
    by (simp_all add: fun_eq_iff file_offset_def same_pager_sel)
  moreover have "slice (contents (p_file pg')) (unat (file_offset pg pid)) (bytes_usize (p_page_size pg)) =
      slice (contents (p_file pg)) (unat (file_offset pg pid)) (bytes_usize (p_page_size pg))"
    using pages_apart [OF assms(2)] assms(3) by (intro rots_slice [OF assms(1)]) blast
  ultimately show ?thesis by (simp add: page_at_def)
qed

text \<open>More pages turn bad.\<close>

lemma distinct_offsets:
  assumes "valid_page_size (page_bytes (p_page_size pg))" "2 \<le> unat pid" "2 \<le> unat pid'" "pid \<noteq> pid'"
  shows "file_offset pg pid \<noteq> file_offset pg pid'"
proof
  assume "file_offset pg pid = file_offset pg pid'"
  then have "unat (file_offset pg pid) = unat (file_offset pg pid')" by simp
  then have "(unat pid - 2) * bytes_usize (p_page_size pg) = (unat pid' - 2) * bytes_usize (p_page_size pg)"
    unfolding unat_file_offset [OF assms(1)] by simp
  moreover have "0 < bytes_usize (p_page_size pg)" using valid_page_size_bounds(1) [OF assms(1)] by simp
  ultimately have "unat pid = unat pid'" using assms(2,3) by simp
  then show False using assms(4) by (simp add: word_unat_eq_iff)
qed

lemma rots_more:
  assumes R: "rots xxh Dm pg pg'" "rots xxh Dm' pg' pg''" and valid: "valid_page_size (page_bytes (p_page_size pg))"
    and data: "\<forall>pid \<in> Dm \<union> Dm'. 2 \<le> unat pid"
  shows "rots xxh (Dm \<union> Dm') pg pg''"
proof -
  have same: "same_pager pg pg'" "same_pager pg' pg''" using R by (simp_all add: rots_def)
  then have off: "file_offset pg' = file_offset pg" "p_page_size pg' = p_page_size pg"
    by (simp_all add: fun_eq_iff file_offset_def same_pager_sel)
  have "page_in_file pg'' d \<and> verify_checksum xxh (page_at pg'' d) \<noteq> Inr ()" if d: "d \<in> Dm \<union> Dm'" for d
  proof (cases "d \<in> Dm'")
    case False
    have "page_at pg'' d = page_at pg' d"
      using False data d distinct_offsets [of pg'] valid off by (intro rots_apart [OF R(2)]) auto
    moreover have "page_in_file pg'' d = page_in_file pg' d"
      using R(2) same_pager_sel(1) [OF same(2)] by (simp add: page_in_file_def file_offset_def rots_def)
    ultimately show ?thesis using R(1) d False by (simp add: rots_def)
  qed (use R(2) in \<open>simp add: rots_def\<close>)
  moreover have "spans pg' Dm' = spans pg Dm'" by (simp add: spans_def off)
  ultimately show ?thesis using R same_pager_trans [OF same] by (auto simp: rots_def spans_def)
qed

section \<open>The pager on a decaying file\<close>

text \<open>What the calls on two files with the same faults to come have in common.\<close>

lemma tick_alike:
  assumes "f_faults f' = f_faults f" "io_tick f' = (x, g')"
  obtains g where "io_tick f = (x, g)" "f_faults g' = f_faults g" "contents g' = contents f'" "contents g = contents f"
  using assms by (auto simp: io_tick_def contents_def split: list.splits)

lemma write_alike:
  assumes "f_faults f' = f_faults f" "write_all_at bs off f' = (r, g')"
  obtains g bs' where "write_all_at bs off f = (r, g)" "f_faults g' = f_faults g" "length bs' \<le> length bs"
    "contents g' = overwrite (contents f') off bs'" "contents g = overwrite (contents f) off bs'"
proof -
  obtain x h' where t': "io_tick f' = (x, h')" by fastforce
  obtain h where h: "io_tick f = (x, h)" "f_faults h' = f_faults h" "contents h' = contents f'" "contents h = contents f"
    by (rule tick_alike [OF assms(1) t'])
  show thesis
    using assms(2) t' h
      that [of "push_write off (case x of None \<Rightarrow> bs | Some k \<Rightarrow> take k bs) h" "case x of None \<Rightarrow> bs | Some k \<Rightarrow> take k bs"]
    by (auto simp: write_all_at_def push_write_def split: option.splits) (auto simp: contents_def push_write_def)
qed

lemma sync_alike:
  assumes "f_faults f' = f_faults f" "file_sync f' = (r, g')"
  obtains g where "file_sync f = (r, g)" "f_faults g' = f_faults g" "contents g' = contents f'" "contents g = contents f"
proof -
  obtain x h' where t': "io_tick f' = (x, h')" by fastforce
  obtain h where h: "io_tick f = (x, h)" "f_faults h' = f_faults h" "contents h' = contents f'" "contents h = contents f"
    by (rule tick_alike [OF assms(1) t'])
  show thesis
    using assms(2) t' h that [of "case x of None \<Rightarrow> h\<lparr>f_durable := contents h, f_pending := []\<rparr> | Some _ \<Rightarrow> h"]
    by (auto simp: file_sync_def split: option.splits) (auto simp: contents_def)
qed

lemma read_alike:
  assumes "f_faults f' = f_faults f" "length (contents f') = length (contents f)"
    and "read_exact_at n off f' = (r, g')" "read_exact_at n off f = (r0, g)"
  shows "f_faults g' = f_faults g" "slice (contents f') off n = slice (contents f) off n \<Longrightarrow> r0 = r"
proof -
  obtain x h' where t': "io_tick f' = (x, h')" by fastforce
  obtain h where h: "io_tick f = (x, h)" "f_faults h' = f_faults h" "contents h' = contents f'" "contents h = contents f"
    by (rule tick_alike [OF assms(1) t'])
  show "f_faults g' = f_faults g" "slice (contents f') off n = slice (contents f) off n \<Longrightarrow> r0 = r"
    using assms(2-4) t' h by (auto simp: read_exact_at_def get_range_def slice_def split: option.splits if_splits)
qed

text \<open>Some pages of the last transaction, with ids below \<open>c\<close>, are bad in \<open>s\<close> and good in \<open>t\<close>.\<close>

definition rotten :: "(bytes \<Rightarrow> u64) \<Rightarrow> u32 \<Rightarrow> pager \<Rightarrow> pager \<Rightarrow> bool" where
  "rotten xxh c s t \<longleftrightarrow> valid_page_size (page_bytes (p_page_size t)) \<and> p_active_slot t \<in> {0, 1} \<and>
     (\<exists>Dm. (\<forall>pid \<in> Dm. 2 \<le> unat pid \<and> pid < c) \<and> rots xxh Dm t s)"

lemma rottenE:
  assumes "rotten xxh c s t"
  obtains Dm where "valid_page_size (page_bytes (p_page_size t))" "p_active_slot t \<in> {0, 1}"
    "\<forall>pid \<in> Dm. 2 \<le> unat pid \<and> pid < c" "rots xxh Dm t s"
  using assms unfolding rotten_def by blast

text \<open>The contents stay as they are, or both files get the same bytes somewhere else.\<close>

lemma rots_same:
  assumes "rots xxh Dm t s" "same_pager t t'" "same_pager s s'" "f_faults (p_file s') = f_faults (p_file t')"
    and "contents (p_file s') = contents (p_file s)" "contents (p_file t') = contents (p_file t)"
  shows "rots xxh Dm t' s'"
proof -
  have eq: "file_offset t' = file_offset t" "p_page_size t' = p_page_size t" "file_offset s' = file_offset s" "p_page_size s' = p_page_size s"
    using assms(2,3) by (simp_all add: fun_eq_iff file_offset_def same_pager_sel)
  then have "page_in_file s' = page_in_file s" "page_at s' = page_at s" "spans t' Dm = spans t Dm"
    by (simp_all add: fun_eq_iff page_in_file_def page_at_def spans_def assms(5))
  moreover have "same_pager t' s'" using same_pagers [OF _ assms(2,3)] assms(1) by (simp add: rots_def)
  ultimately show ?thesis using assms(1,4-6) by (simp add: rots_def)
qed

lemma rots_write:
  assumes "rots xxh Dm t s" "same_pager t t'" "same_pager s s'" "f_faults (p_file s') = f_faults (p_file t')"
    and "contents (p_file s') = overwrite (contents (p_file s)) off bs" "contents (p_file t') = overwrite (contents (p_file t)) off bs"
    and apart: "\<And>pid. pid \<in> Dm \<Longrightarrow> off + length bs \<le> unat (file_offset t pid) \<or> unat (file_offset t pid) + bytes_usize (p_page_size t) \<le> off"
  shows "rots xxh Dm t' s'"
proof -
  have ts: "same_pager t s" using assms(1) by (simp add: rots_def)
  have eq: "file_offset t' = file_offset t" "p_page_size t' = p_page_size t" "file_offset s' = file_offset t" "p_page_size s' = p_page_size t"
    "file_offset s = file_offset t" "p_page_size s = p_page_size t"
    using assms(2,3) ts by (simp_all add: fun_eq_iff file_offset_def same_pager_sel)
  have "same_pager t' s'" using ts assms(2,3) by (rule same_pagers)
  moreover have "page_in_file s' pid \<and> page_at s' pid = page_at s pid" if "pid \<in> Dm" for pid
  proof -
    have "page_in_file s pid" using assms(1) that by (simp add: rots_def)
    then show ?thesis
      using apart [OF that] slice_overwrite_other [of "unat (file_offset t pid)" "bytes_usize (p_page_size t)" off bs "contents (p_file s)"]
      by (auto simp: page_in_file_def page_at_def eq assms(5) length_overwrite)
  qed
  ultimately show ?thesis
    using assms(1,4-6) by (auto simp: rots_def spans_def eq byte_at_overwrite length_overwrite)
qed

lemma rotten_write:
  assumes "rotten xxh c s t" "pager_io (write_all_at bs off) s = (r, s')"
    and "\<And>pid. 2 \<le> unat pid \<Longrightarrow> pid < c \<Longrightarrow> off + length bs \<le> unat (file_offset t pid) \<or> unat (file_offset t pid) + bytes_usize (p_page_size t) \<le> off"
  shows "\<exists>t'. rotten xxh c s' t' \<and> pager_io (write_all_at bs off) t = (r, t')"
proof -
  obtain Dm where D: "valid_page_size (page_bytes (p_page_size t))" "p_active_slot t \<in> {0, 1}"
    "\<forall>pid \<in> Dm. 2 \<le> unat pid \<and> pid < c" "rots xxh Dm t s" by (rule rottenE [OF assms(1)])
  obtain r1 g' where w: "write_all_at bs off (p_file s) = (r1, g')" by fastforce
  have "f_faults (p_file s) = f_faults (p_file t)" "p_path s = p_path t" using D(4) same_pager_sel by (auto simp: rots_def)
  from write_alike [OF this(1) w] obtain g bs' where g: "write_all_at bs off (p_file t) = (r1, g)" "f_faults g' = f_faults g"
    "length bs' \<le> length bs" "contents g' = overwrite (contents (p_file s)) off bs'" "contents g = overwrite (contents (p_file t)) off bs'" .
  have s': "s' = s\<lparr>p_file := g'\<rparr>" using assms(2) w by (auto simp: pager_io_def io_at_def split: sum.splits)
  have "rots xxh Dm (t\<lparr>p_file := g\<rparr>) s'"
    using assms(3) D(3) g by (intro rots_write [OF D(4), of _ _ off bs']) (fastforce simp: s' same_pager_def)+
  then have "rotten xxh c s' (t\<lparr>p_file := g\<rparr>)" using D(1-3) by (auto simp: rotten_def)
  moreover have "pager_io (write_all_at bs off) t = (r, t\<lparr>p_file := g\<rparr>)"
    using assms(2) w g(1) \<open>p_path s = p_path t\<close> by (auto simp: pager_io_def io_at_def split: sum.splits)
  ultimately show ?thesis by blast
qed

lemma rotten_sync: "ssim bad (rotten xxh c) (pager_io file_sync)"
proof (rule ssimI)
  fix s t s' and r :: "unit presult"
  assume R: "rotten xxh c s t" and r: "pager_io file_sync s = (r, s')"
  obtain Dm where D: "valid_page_size (page_bytes (p_page_size t))" "p_active_slot t \<in> {0, 1}"
    "\<forall>pid \<in> Dm. 2 \<le> unat pid \<and> pid < c" "rots xxh Dm t s" by (rule rottenE [OF R])
  obtain r1 g' where w: "file_sync (p_file s) = (r1, g')" by fastforce
  have "f_faults (p_file s) = f_faults (p_file t)" "p_path s = p_path t" using D(4) same_pager_sel by (auto simp: rots_def)
  from sync_alike [OF this(1) w] obtain g where g: "file_sync (p_file t) = (r1, g)" "f_faults g' = f_faults g"
    "contents g' = contents (p_file s)" "contents g = contents (p_file t)" .
  have s': "s' = s\<lparr>p_file := g'\<rparr>" using r w by (auto simp: pager_io_def io_at_def split: sum.splits)
  have "rots xxh Dm (t\<lparr>p_file := g\<rparr>) s'" using g by (intro rots_same [OF D(4)]) (simp_all add: s' same_pager_def)
  then have "rotten xxh c s' (t\<lparr>p_file := g\<rparr>)" using D(1-3) by (auto simp: rotten_def)
  moreover have "pager_io file_sync t = (r, t\<lparr>p_file := g\<rparr>)"
    using r w g(1) \<open>p_path s = p_path t\<close> by (auto simp: pager_io_def io_at_def split: sum.splits)
  ultimately show "\<exists>t'. rotten xxh c s' t' \<and> (\<not> failed bad r \<longrightarrow> pager_io file_sync t = (r, t'))" by blast
qed

lemma rotten_read:
  assumes R: "rotten xxh c s t" and s: "read_data_page xxh pid s = (r, s')" and t: "read_data_page xxh pid t = (r0, t')"
  shows "rotten xxh c s' t' \<and> (failed read_failure r \<or> r0 = r)"
proof -
  obtain Dm where D: "valid_page_size (page_bytes (p_page_size t))" "p_active_slot t \<in> {0, 1}"
    "\<forall>pid \<in> Dm. 2 \<le> unat pid \<and> pid < c" "rots xxh Dm t s" by (rule rottenE [OF R])
  have same: "same_pager t s" using D(4) by (simp add: rots_def)
  have eq: "file_offset s = file_offset t" "p_page_size s = p_page_size t" "p_path s = p_path t"
    using same same_pager_sel by (auto simp: fun_eq_iff file_offset_def)
  have faults: "f_faults (p_file s) = f_faults (p_file t)" "length (contents (p_file s)) = length (contents (p_file t))"
    using D(4) by (simp_all add: rots_def)
  note Rs = read_data_page_result [OF s] and Rt = read_data_page_result [OF t]
  let ?off = "unat (file_offset t pid)" and ?n = "bytes_usize (p_page_size t)"
  obtain r1 g' where rs: "read_exact_at ?n ?off (p_file s) = (r1, g')" by fastforce
  obtain r2 g where rt: "read_exact_at ?n ?off (p_file t) = (r2, g)" by fastforce
  note A = read_alike [OF faults rs rt]
  have files: "p_file s' = g'" "p_file t' = g"
    using s t rs rt by (auto simp: read_data_page_def sbind_def spure_def pager_io_def io_at_def eq split: sum.splits)
  have "rots xxh Dm t' s'" using rots_same [OF D(4) Rt(1) Rs(1) _ Rs(2) Rt(2)] A(1) files by simp
  then have "rotten xxh c s' t'" using D(1-3) same_pager_sel [OF Rt(1)] by (auto simp: rotten_def)
  moreover have "failed read_failure r \<or> r0 = r"
  proof (cases "\<exists>d \<in> Dm. file_offset t d = file_offset t pid")
    case True
    then obtain d where d: "d \<in> Dm" "file_offset t d = file_offset t pid" by blast
    then have "page_at s pid = page_at s d" by (simp add: page_at_def eq)
    moreover have "verify_checksum xxh (page_at s d) \<noteq> Inr ()" using D(4) d(1) by (simp add: rots_def)
    ultimately have "disk_page xxh s pid = None" by (simp add: disk_page_def)
    then show ?thesis using Rs(5) read_data_page_error s by (cases r) auto
  next
    case False
    then have "page_at s pid = page_at t pid" using D(1) by (intro rots_apart [OF D(4)]) auto
    then have "r2 = r1" using A(2) by (simp add: page_at_def eq)
    then have "r0 = r" using s t rs rt
      by (auto simp: read_data_page_def sbind_def spure_def pager_io_def io_at_def eq split: sum.splits)
    then show ?thesis ..
  qed
  ultimately show ?thesis ..
qed

text \<open>The fields of the pager that say nothing of the pages.\<close>

lemma rotten_update:
  assumes "rotten xxh c s t" "slot \<in> {0, 1}"
  shows "rotten xxh c (s\<lparr>p_active_slot := slot, p_txn_id := p_txn_id s + 1, p_root_page_id := root, p_page_count := count\<rparr>)
    (t\<lparr>p_active_slot := slot, p_txn_id := p_txn_id t + 1, p_root_page_id := root, p_page_count := count\<rparr>)"
    (is "rotten xxh c ?s ?t")
proof -
  have eq: "file_offset ?s = file_offset s" "file_offset ?t = file_offset t" by (simp_all add: fun_eq_iff file_offset_def)
  have "same_pager ?t ?s" if "same_pager t s" using that same_pager_sel [OF that] by (cases s, cases t) (simp add: same_pager_def)
  then show ?thesis using assms by (auto simp: rotten_def rots_def spans_def page_in_file_def page_at_def eq)
qed

text \<open>Meta slots are below every page, and a new page is above the bad ones.\<close>

lemma rotten_commit: "ssim bad (rotten xxh c) (pager_commit xxh root count)"
  unfolding pager_commit_def sync_data_def
proof (rule ssim_sbind [OF rotten_sync], rule ssim_at)
  fix u :: unit and s t
  assume R: "rotten xxh c s t"
  then have same: "same_pager t s" and act: "p_active_slot t \<in> {0, 1}" by (auto simp: rotten_def rots_def)
  let ?slot = "1 - p_active_slot t"
  let ?content = "\<lparr>mc_page_size = p_page_size t, mc_txn_id = p_txn_id t + 1, mc_root_page_id = root, mc_page_count = count\<rparr>"
  let ?off = "unat (ucast ?slot * META_SLOT_LEN :: u64)"
  let ?m = "sbind (pager_io (write_all_at (encoded_slot xxh ?content) ?off)) (\<lambda>_.
     sbind (pager_io file_sync) (\<lambda>_ pg.
       (Inr (), pg\<lparr>p_active_slot := ?slot, p_txn_id := p_txn_id pg + 1, p_root_page_id := root, p_page_count := count\<rparr>)))"
  have "?off + 4096 \<le> 8192" using act by (auto simp: meta_consts page_consts)
  then have slot_write: "ssim bad (rotten xxh c) (pager_io (write_all_at (encoded_slot xxh ?content) ?off))"
    using rotten_write by (intro ssimI) (fastforce elim: rottenE simp: unat_file_offset)
  have flip: "?slot \<in> {0, 1}" using u8_slot_flip [OF act] by blast
  have "ssim bad (rotten xxh c) (\<lambda>pg. (Inr (), pg\<lparr>p_active_slot := ?slot, p_txn_id := p_txn_id pg + 1,
      p_root_page_id := root, p_page_count := count\<rparr>))"
    unfolding ssim_def using rotten_update [OF _ flip] by auto
  then have "ssim bad (rotten xxh c) ?m" by (intro ssim_sbind slot_write rotten_sync)
  then show "\<exists>m. ssim bad (rotten xxh c) m \<and>
      (let target_slot = 1 - p_active_slot s;
           content = \<lparr>mc_page_size = p_page_size s, mc_txn_id = p_txn_id s + 1, mc_root_page_id = root, mc_page_count = count\<rparr>
       in sbind (spure (encode_meta_slot xxh content)) (\<lambda>slot_buf.
          let offset = ucast target_slot * META_SLOT_LEN :: u64
          in sbind (pager_io (write_all_at slot_buf (unat offset))) (\<lambda>_.
             sbind (pager_io file_sync) (\<lambda>_ pg.
               (Inr (), pg\<lparr>p_active_slot := target_slot, p_txn_id := p_txn_id pg + 1,
                           p_root_page_id := root, p_page_count := count\<rparr>)))) s) = m s \<and>
      (let target_slot = 1 - p_active_slot t;
           content = \<lparr>mc_page_size = p_page_size t, mc_txn_id = p_txn_id t + 1, mc_root_page_id = root, mc_page_count = count\<rparr>
       in sbind (spure (encode_meta_slot xxh content)) (\<lambda>slot_buf.
          let offset = ucast target_slot * META_SLOT_LEN :: u64
          in sbind (pager_io (write_all_at slot_buf (unat offset))) (\<lambda>_.
             sbind (pager_io file_sync) (\<lambda>_ pg.
               (Inr (), pg\<lparr>p_active_slot := target_slot, p_txn_id := p_txn_id pg + 1,
                           p_root_page_id := root, p_page_count := count\<rparr>)))) t) = m t"
    by (intro exI [of _ ?m]) (simp add: same_pager_sel [OF same] Let_def encode_meta_slot_Inr sbind_def spure_def)
qed

interpretation rot_pool: twin_commits read_failure "\<lambda>_. False" xxh "rotten xxh c" "{pid. c \<le> pid}" for xxh c
proof
  fix s t s' t' :: pager and pid buf buf' and r r0 :: "bytes presult" and r' :: "unit presult"
  assume R: "rotten xxh c s t"
  show "read_data_page xxh pid s = (r, s') \<Longrightarrow> read_data_page xxh pid t = (r0, t') \<Longrightarrow>
      rotten xxh c s' t' \<and> (failed read_failure r \<or> r0 = r)" by (rule rotten_read [OF R])
  assume pid: "pid \<in> {pid. c \<le> pid}" and w: "write_data_page xxh pid buf s = ((r', buf'), s')"
  show "\<exists>t'. rotten xxh c s' t' \<and> (failed (\<lambda>_. False) r' \<or> write_data_page xxh pid buf t = ((r', buf'), t'))"
  proof (cases "stamp_checksum xxh buf")
    case (Inl e)
    then show ?thesis using R w by (auto simp: write_data_page_def)
  next
    case (Inr sb)
    have same: "file_offset s = file_offset t" "valid_page_size (page_bytes (p_page_size t))"
      using R same_pager_sel(1) by (auto simp: rotten_def rots_def fun_eq_iff file_offset_def)
    have io: "pager_io (write_all_at sb (unat (file_offset t pid))) s = (r', s')" "buf' = sb"
      using w Inr by (auto simp: write_data_page_def same(1) split: prod.splits)
    have "unat (file_offset t d) + bytes_usize (p_page_size t) \<le> unat (file_offset t pid)" if "2 \<le> unat d" "d < c" for d
      using page_region_before [OF same(2) that(1), of pid] that(2) pid by (simp add: word_less_nat_alt word_le_nat_alt)
    then obtain t' where "rotten xxh c s' t'" "pager_io (write_all_at sb (unat (file_offset t pid))) t = (r', t')"
      using rotten_write [OF R io(1)] by blast
    then show ?thesis using Inr io(2) by (auto simp: write_data_page_def)
  qed
qed (simp_all add: sync_data_def rotten_sync rotten_commit)

section \<open>The tree on a decaying file\<close>

text \<open>
  The relation of the locale: the partner \<open>q\<close> is under the guard, with \<open>n\<close> page ids left, and
  the pool \<open>p\<close> is its twin on the decaying file.
\<close>

definition withers ::
    "(bytes \<Rightarrow> u64) \<Rightarrow> pager \<Rightarrow> u32 \<Rightarrow> bytes set \<Rightarrow> pager set \<Rightarrow> u32 \<Rightarrow> nat \<Rightarrow> pool \<Rightarrow> pool \<Rightarrow> bool" where
  "withers xxh pg0 n1 S C c n p q \<longleftrightarrow> guarded.stock xxh pg0 n1 S C n q \<and> c \<le> n1 \<and> rot_pool.twins xxh c p q"

lemma rot_twins_same:
  assumes "rot_pool.twins xxh c p q"
  shows "same_pager (bp_pager q) (bp_pager p)" "bp_next_page_id q = bp_next_page_id p" "bp_dirty q = bp_dirty p"
    "pool_page_size q = pool_page_size p" "pool_root_page_id q = pool_root_page_id p"
proof -
  have q: "rotten xxh c (bp_pager p) (bp_pager q)" "bp_next_page_id q = bp_next_page_id p" "bp_dirty q = bp_dirty p"
    using assms by (auto elim!: rot_pool.twinsE)
  then show "bp_next_page_id q = bp_next_page_id p" "bp_dirty q = bp_dirty p" by simp_all
  show same: "same_pager (bp_pager q) (bp_pager p)" using q(1) by (auto simp: rotten_def rots_def)
  from same_pager_sel(1,5) [OF same] show "pool_page_size q = pool_page_size p" "pool_root_page_id q = pool_root_page_id p"
    by (simp_all add: pool_page_size_def pool_root_page_id_def)
qed

interpretation rotting: comparison read_failure "withers xxh pg0 n1 S C c" for xxh pg0 n1 S C c
proof
  fix n k p q
  show "withers xxh pg0 n1 S C c (n + k) p q \<Longrightarrow> withers xxh pg0 n1 S C c n p q"
    using guarded.stock_less [of xxh pg0 n1 S C "n + k" q n] by (auto simp: withers_def)
  assume R: "withers xxh pg0 n1 S C c n p q"
  then have tw: "rot_pool.twins xxh c p q" by (simp add: withers_def)
  then show "pool_page_size q = pool_page_size p" "pool_root_page_id q = pool_root_page_id p" by (rule rot_twins_same)+
  have "rotten xxh c (bp_pager q) (bp_pager q)"
    using tw rots_refl [of xxh "bp_pager q"] by (auto simp: rot_pool.twins_def rotten_def intro!: exI [of _ "{}"])
  then show "withers xxh pg0 n1 S C c n q q"
    using R rot_twins_same(3) [OF tw] by (simp add: withers_def rot_pool.twins_def)
qed

interpretation rotting: writing read_failure "withers xxh pg0 n1 S C c" xxh "p_page_size pg0" for xxh pg0 n1 S C c
proof
  fix pid
  show "rotting.follows xxh pg0 n1 S C c 0 (pool_get xxh pid)"
    unfolding rotting.follows_def
  proof (intro allI impI)
    fix n p q p' and r :: "bytes presult"
    assume R: "withers xxh pg0 n1 S C c (n + 0) p q" and g: "pool_get xxh pid p = (r, p')"
    then have st: "guarded.stock xxh pg0 n1 S C n q" and c: "c \<le> n1" and tw: "rot_pool.twins xxh c p q" by (simp_all add: withers_def)
    from tw g show "\<exists>q'. withers xxh pg0 n1 S C c n p' q' \<and> (\<not> failed read_failure r \<longrightarrow> pool_get xxh pid q = (r, q'))"
    proof (cases rule: rot_pool.twins_get)
      case (1 q')
      then show ?thesis using guarded.stock_get [OF st] c by (auto simp: withers_def)
    next
      case (unread r0 q')
      then show ?thesis using guarded.stock_read [OF st] c by (auto simp: withers_def)
    qed (simp add: failed_def split: sum.splits)
  qed
next
  fix n p q pid buf p'
  assume R: "withers xxh pg0 n1 S C c n p q"
  then have so: "guarded.sound xxh pg0 n1 S C q" and tw: "rot_pool.twins xxh c p q"
    using guarded.stock_sound by (auto simp: withers_def)
  show "pool_page_size p = p_page_size pg0 \<and> valid_page_size (page_bytes (p_page_size pg0))"
    using guarded.sound_size [OF so] rot_twins_same(4) [OF tw] by simp
  assume g: "pool_get xxh pid p = (Inr buf, p')"
  from tw g show "length buf = bytes_usize (p_page_size pg0)"
    by (cases rule: rot_pool.twins_get) (use guarded.sound_get(3) [OF so] in auto)
next
  fix buf :: bytes
  assume len: "length buf = bytes_usize (p_page_size pg0)"
  show "rotting.follows xxh pg0 n1 S C c 1 (put_page xxh buf)"
    unfolding rotting.follows_def
  proof (intro allI impI)
    fix n p q p' and r :: "u32 presult"
    assume R: "withers xxh pg0 n1 S C c (n + 1) p q" and w: "put_page xxh buf p = (r, p')"
    then have st: "guarded.stock xxh pg0 n1 S C (n + 1) q" and c: "c \<le> n1" and tw: "rot_pool.twins xxh c p q"
      by (simp_all add: withers_def)
    have "n1 \<le> bp_next_page_id q" using guarded.stock_sound [OF st] by (simp add: guarded_sound)
    then have "bp_next_page_id p \<in> {pid. c \<le> pid}" using c rot_twins_same(2) [OF tw] by simp
    from tw this w obtain q' where q': "rot_pool.twins xxh c p' q'" "failed (\<lambda>_. False) r \<or> put_page xxh buf q = (r, q')"
      by (rule rot_pool.twins_put_page)
    then have "put_page xxh buf q = (r, q')" by (auto simp: failed_def split: sum.splits)
    then show "\<exists>q'. withers xxh pg0 n1 S C c n p' q' \<and> (\<not> failed read_failure r \<longrightarrow> put_page xxh buf q = (r, q'))"
      using guarded.stock_put [OF st len] c q'(1) by (auto simp: withers_def)
  qed
qed

section \<open>Calls\<close>

text \<open>The database in \<open>p\<close> is a twin of the one in \<open>q\<close>, but for bad pages of the last transaction.\<close>

definition ailing :: "(bytes \<Rightarrow> u64) \<Rightarrow> pool \<Rightarrow> pool \<Rightarrow> bool" where
  "ailing xxh p q \<longleftrightarrow> (\<exists>c. c \<le> p_page_count (bp_pager q) \<and> rot_pool.twins xxh c p q)"

lemma ailingI: "rot_pool.twins xxh c p q \<Longrightarrow> c \<le> p_page_count (bp_pager q) \<Longrightarrow> ailing xxh p q"
  unfolding ailing_def by blast

lemma tied_count:
  assumes "tied xxh q0 n1 T C q t M D"
  shows "p_page_count (bp_pager q) \<le> n1"
proof -
  have "bp_pager q0 \<in> C" using assms by (simp add: tied_def)
  then show ?thesis using tied_pager [OF assms] same_pager_sel(6) by (auto simp: guard_def)
qed

text \<open>The work of a call on both, and what the partner has done when the other meets a bad page.\<close>

lemma rot_work:
  assumes tied: "tied xxh q0 n1 T C q t M D" and tw: "rot_pool.twins xxh c p q" "c \<le> n1"
    and work: "rotting.tracks xxh (bp_pager q0) n1 T C c k work"
    and ids: "unat (bp_next_page_id q) + k < 2 ^ 32" and y: "work q = Some y"
  obtains r p1 q1 where "work p = Some (r, p1)" "rot_pool.twins xxh c p1 q1" "guarded.sound xxh (bp_pager q0) n1 T C q1"
    "unat (bp_next_page_id q1) \<le> unat (bp_next_page_id q) + k" "\<not> failed read_failure r \<longrightarrow> y = (r, q1)"
proof -
  let ?n = "2 ^ 32 - 1 - (unat (bp_next_page_id q) + k)"
  have "guarded.sound xxh (bp_pager q0) n1 T C q" using tied by (simp add: tied_def)
  then have "guarded.stock xxh (bp_pager q0) n1 T C (?n + k) q" using ids by (intro guarded_stock) simp_all
  then have R: "withers xxh (bp_pager q0) n1 T C c (?n + k) p q" using tw by (simp add: withers_def)
  have "rotting.ret xxh (bp_pager q0) n1 T C c k work work" using work by (simp add: rotting.like_def)
  from rotting.retE [OF this R y] obtain r p1 q1 where
    1: "work p = Some (r, p1)" "withers xxh (bp_pager q0) n1 T C c ?n p1 q1" "\<not> failed read_failure r \<longrightarrow> y = (r, q1)" .
  then have st: "guarded.stock xxh (bp_pager q0) n1 T C ?n q1" "rot_pool.twins xxh c p1 q1" by (simp_all add: withers_def)
  then have "unat (bp_next_page_id q1) + ?n < 2 ^ 32" by (simp add: guarded.stock_def)
  then show thesis using that 1(1,3) st(2) guarded.stock_sound [OF st(1)] ids by simp
qed

lemma rot_stop:
  assumes tied: "tied xxh q0 n1 T C q t M D" "T \<subseteq> S" and sound: "guarded.sound xxh (bp_pager q0) n1 T C q1"
    and aff: "pool_affords q t (Suc n)" and modest: "modest_op op"
    and ids: "unat (bp_next_page_id q1) \<le> unat (bp_next_page_id q) + (op_ids op + 2 * height_of t + 3)"
  shows "robust xxh q1 t M D S" "pool_affords q1 t n" "p_page_count (bp_pager q1) = p_page_count (bp_pager q)"
proof -
  have tied1: "tied xxh q0 n1 T C q1 t M D" using tied_grows [OF tied(1) sound subset_refl subset_refl] by simp
  then show "robust xxh q1 t M D S" using tied(2) by (rule robustI)
  have "p_txn_id (bp_pager q1) = p_txn_id (bp_pager q)"
    unfolding same_pager_sel(4) [OF tied_pager(2) [OF tied1]] same_pager_sel(4) [OF tied_pager(2) [OF tied(1)]] ..
  then show "pool_affords q1 t n" by (rule affords_spent [OF aff modest _ ids])
  show "p_page_count (bp_pager q1) = p_page_count (bp_pager q)"
    unfolding same_pager_sel(6) [OF tied_pager(2) [OF tied1]] same_pager_sel(6) [OF tied_pager(2) [OF tied(1)]] ..
qed

lemma commit_count:
  assumes "pool_inv xxh p" "p_active_slot (bp_pager p) \<in> {0, 1}" "pool_commit xxh root p = (r, p')"
  shows "p_page_count (bp_pager p') \<in> {p_page_count (bp_pager p), bp_next_page_id p}"
proof -
  obtain r1 p1 where fl: "flush_all_dirty xxh p = (r1, p1)" by fastforce
  have "p_page_count (bp_pager p1) = p_page_count (bp_pager p)" "bp_next_page_id p1 = bp_next_page_id p"
    using flush_all_dirty_inv(2) [OF assms(1) fl] same_pager_sel(6) by (auto simp: pool_frame_def)
  then show ?thesis using assms(3) fl
    by (auto simp: pool_commit_def sbind_def pager_commit_def sync_data_def pager_io_def Let_def spure_def
        split: sum.splits prod.splits)
qed

lemma rot_call:
  assumes rob: "robust xxh q t M D S" and ail: "ailing xxh p q" and aff: "pool_affords q t (Suc n)" and modest: "modest_op op"
  shows "\<exists>r p' q' t' M' D' S'. pool_call xxh op p = Some (r, p') \<and> kv_try read_failure op M r M' \<and>
    ailing xxh p' q' \<and> robust xxh q' t' M' D' S' \<and> pool_affords q' t' n" (is ?goal)
proof -
  obtain q0 n1 T C where tied: "tied xxh q0 n1 T C q t M D" "T \<subseteq> S" using rob unfolding robust_def by blast
  obtain c where c: "c \<le> p_page_count (bp_pager q)" and tw: "rot_pool.twins xxh c p q" using ail unfolding ailing_def by blast
  have cn: "c \<le> n1" using c tied_count [OF tied(1)] by simp
  let ?k = "op_ids op + 2 * height_of t + 3"
  have soundq: "guarded.sound xxh (bp_pager q0) n1 T C q" using tied(1) by (simp add: tied_def)
  from robust_call [OF rob aff modest] obtain r0 qe te Me De where
    e: "pool_call xxh op q = Some (r0, qe)" "kv_doubt op (M, D) r0 (Me, De)"
      "robust xxh qe te Me De (slots_after xxh op \<lparr>db_pool = q\<rparr> r0 S)" "pool_affords qe te n" by blast
  have answer: "kv_try read_failure op M r0 Me"
    using kv_doubt_try [OF e(2)] by (auto simp: read_failure_def elim!: kv_tryE intro: kv_try.intros)
  have stop: ?goal if "pool_call xxh op p = Some (Inl x, p1)" "read_failure x" "rot_pool.twins xxh c p1 q1"
    "guarded.sound xxh (bp_pager q0) n1 T C q1" "unat (bp_next_page_id q1) \<le> unat (bp_next_page_id q) + ?k" for x p1 q1
  proof -
    note s = rot_stop [OF tied that(4) aff modest that(5)]
    have "ailing xxh p1 q1" using ailingI [OF that(3)] c s(3) by simp
    then show ?thesis using that(1) kv_try.error [of read_failure x op M, OF that(2)] s(1,2) by blast
  qed
  have same: ?goal if "pool_call xxh op p = Some (r0, p1)" "rot_pool.twins xxh c p1 qe" "c \<le> p_page_count (bp_pager qe)" for p1
    using that(1) answer ailingI [OF that(2,3)] e(3,4) by blast
  have count: "c \<le> p_page_count (bp_pager q1)" if "guarded.sound xxh (bp_pager q0) n1 T C q1" for q1
  proof -
    have "same_pager (bp_pager q0) (bp_pager q1)" using that by (simp add: guarded_sound guard_def)
    then show ?thesis using c same_pager_sel(6) [OF tied_pager(2) [OF tied(1)]] same_pager_sel(6) by metis
  qed
  show ?thesis
  proof (cases "op_writes op")
    case False
    from rot_work [OF tied(1) tw cn rotting.tracks_reading [OF False] _ e(1)] obtain r p1 q1 where
      1: "pool_call xxh op p = Some (r, p1)" "rot_pool.twins xxh c p1 q1" "guarded.sound xxh (bp_pager q0) n1 T C q1"
        "unat (bp_next_page_id q1) \<le> unat (bp_next_page_id q) + 0" "\<not> failed read_failure r \<longrightarrow> (r0, qe) = (r, q1)"
      using unsigned_less [of "bp_next_page_id q"] by auto
    show ?thesis
    proof (cases "failed read_failure r")
      case True
      then obtain x where "r = Inl x" "read_failure x" by (cases r) auto
      then show ?thesis using stop [OF _ _ 1(2,3)] 1(1,4) by simp
    qed (use same 1 count [OF 1(3)] in auto)
  next
    case True
    have acc: "db_accepts xxh \<lparr>db_pool = calm q\<rparr> t op"
      using affords_accepts [of xxh "\<lparr>db_pool = calm q\<rparr>" t M n op] robust_represents [OF rob] aff modest
      by (simp add: db_rep_def db_affords_def)
    have ids: "unat (bp_next_page_id q) + ?k < 2 ^ 32" using db_accepts_ids [OF acc True] by (simp add: ids_left_def)
    have short: "short_paths xxh (height_of t) q"
      using guarded.short_calm [OF represents_short [OF robust_represents [OF rob]] soundq] .
    have "withers xxh (bp_pager q0) n1 T C c ?k p q" using guarded_stock [OF soundq ids] cn tw by (simp add: withers_def)
    then obtain work where w: "rotting.tracks xxh (bp_pager q0) n1 T C c ?k work"
      "pool_call xxh op p = committing xxh work p" "pool_call xxh op q = committing xxh work q"
      by (rule rotting.pool_call_work [OF short True])
    obtain y where y: "work q = Some y" using e(1) w(3) by (cases "work q") (simp_all add: committing_def dbind_def)
    obtain r p1 q1 where 1: "work p = Some (r, p1)" "rot_pool.twins xxh c p1 q1" "guarded.sound xxh (bp_pager q0) n1 T C q1"
      "unat (bp_next_page_id q1) \<le> unat (bp_next_page_id q) + ?k" "\<not> failed read_failure r \<longrightarrow> y = (r, q1)"
      by (rule rot_work [OF tied(1) tw cn w(1) ids y])
    show ?thesis
    proof (cases r)
      case (Inl x)
      have p: "pool_call xxh op p = Some (Inl x, p1)" using committing_Inl 1(1) Inl w(2) by simp
      show ?thesis
      proof (cases "read_failure x")
        case False
        then have "work q = Some (Inl x, q1)" using 1(5) Inl y by simp
        then have "r0 = Inl x" "qe = q1" using e(1) w(3) committing_Inl [of work q x q1 xxh] by simp_all
        then show ?thesis using same p 1(2) count [OF 1(3)] by simp
      qed (rule stop [OF p _ 1(2-4)])
    next
      case (Inr z)
      obtain root a where z: "z = (root, a)" by fastforce
      obtain rc pc where cp: "pool_commit xxh root p1 = (rc, pc)" by fastforce
      obtain qc where qc: "rot_pool.twins xxh c pc qc" "pool_commit xxh root q1 = (rc, qc)"
        by (rule ssimE [OF rot_pool.twins_commit 1(2) cp]) (simp add: failed_def split: sum.splits)
      have "work q = Some (Inr (root, a), q1)" "work p = Some (Inr (root, a), p1)" using 1(1,5) Inr z y by simp_all
      then have "pool_call xxh op p = Some (r0, pc)" "qe = qc"
        using committing_Inr [of work _ root a, OF _ cp] committing_Inr [of work _ root a, OF _ qc(2)] e(1) w(2,3) by auto
      moreover have "p_active_slot (bp_pager q1) \<in> {0, 1}" "pool_inv xxh q1" "n1 \<le> bp_next_page_id q1"
        using 1(3) guard_active [of xxh "bp_pager q0" n1 T C "bp_pager q1"] unfolding guarded_sound store_ok_def by blast+
      then have "c \<le> p_page_count (bp_pager qc)"
        using commit_count [OF _ _ qc(2)] count [OF 1(3)] cn by fastforce
      ultimately show ?thesis using same qc(1) by simp
    qed
  qed
qed

section \<open>Sessions\<close>

text \<open>
  A session on a decaying file: calls, and between them pages of the last transaction that turn bad.
\<close>

inductive decay_run :: "(bytes \<Rightarrow> u64) \<Rightarrow> database \<Rightarrow> kv_op list \<Rightarrow> kv_result list \<Rightarrow> database \<Rightarrow> bool"
  for xxh db0 where
  start: "decay_run xxh db0 [] [] db0"
| rot: "decay_run xxh db0 ops rs \<lparr>db_pool = p\<rparr> \<Longrightarrow> rots xxh Dm (bp_pager p) pg \<Longrightarrow>
    \<forall>pid \<in> Dm. 2 \<le> unat pid \<and> pid < p_page_count (bp_pager p) \<Longrightarrow> decay_run xxh db0 ops rs \<lparr>db_pool = p\<lparr>bp_pager := pg\<rparr>\<rparr>"
| call: "decay_run xxh db0 ops rs db \<Longrightarrow> db_call xxh op db = Some (r, db') \<Longrightarrow> decay_run xxh db0 (ops @ [op]) (rs @ [r]) db'"

lemma rot_ailing:
  assumes rob: "robust xxh q t M D S" and ail: "ailing xxh p q" and rot: "rots xxh Dm (bp_pager p) pg"
    and data: "\<forall>pid \<in> Dm. 2 \<le> unat pid \<and> pid < p_page_count (bp_pager p)"
  shows "ailing xxh (p\<lparr>bp_pager := pg\<rparr>) q"
proof -
  obtain c where c: "c \<le> p_page_count (bp_pager q)" and tw: "rot_pool.twins xxh c p q" using ail unfolding ailing_def by blast
  let ?c = "p_page_count (bp_pager q)"
  have same: "p_page_count (bp_pager p) = ?c" using same_pager_sel(6) [OF rot_twins_same(1) [OF tw]] .
  obtain q0 n1 T C where tied: "tied xxh q0 n1 T C q t M D" using rob unfolding robust_def by blast
  then have "\<forall>pid \<in> set (bp_dirty q). n1 \<le> pid" by (simp add: tied_def guarded_sound)
  then have dirty: "set (bp_dirty q) \<subseteq> {pid. ?c \<le> pid}" using tied_count [OF tied] by auto
  have q: "q = p\<lparr>bp_pager := bp_pager q\<rparr>" "rotten xxh c (bp_pager p) (bp_pager q)" using tw by (simp_all add: rot_pool.twins_def)
  obtain Dm0 where D: "valid_page_size (page_bytes (p_page_size (bp_pager q)))" "p_active_slot (bp_pager q) \<in> {0, 1}"
    "\<forall>pid \<in> Dm0. 2 \<le> unat pid \<and> pid < c" "rots xxh Dm0 (bp_pager q) (bp_pager p)" by (rule rottenE [OF q(2)])
  have "rots xxh (Dm0 \<union> Dm) (bp_pager q) pg" using D(3) data by (intro rots_more [OF D(4) rot D(1)]) auto
  moreover have "\<forall>pid \<in> Dm0 \<union> Dm. 2 \<le> unat pid \<and> pid < ?c" using D(3) data c same by auto
  ultimately have "rotten xxh ?c pg (bp_pager q)" using D(1,2) unfolding rotten_def by blast
  moreover have "q = p\<lparr>bp_pager := pg, bp_pager := bp_pager q\<rparr>" using q(1) by simp
  ultimately have "rot_pool.twins xxh ?c (p\<lparr>bp_pager := pg\<rparr>) q"
    using dirty rot_twins_same(3) [OF tw] by (simp add: rot_pool.twins_def)
  then show ?thesis by (rule ailingI) simp
qed

lemma robust_ailing:
  assumes "robust xxh q t M D S"
  shows "ailing xxh q q"
proof -
  obtain q0 n1 T C where tied: "tied xxh q0 n1 T C q t M D" using assms unfolding robust_def by blast
  have g: "guard xxh (bp_pager q0) n1 T C (bp_pager q)" by (rule tied_pager(1) [OF tied])
  then have "valid_page_size (page_bytes (p_page_size (bp_pager q)))" "p_active_slot (bp_pager q) \<in> {0, 1}"
    unfolding guard_def commit_ready_def by blast+
  then have "rotten xxh (p_page_count (bp_pager q)) (bp_pager q) (bp_pager q)"
    using rots_refl [of xxh "bp_pager q"] unfolding rotten_def by blast
  moreover have "\<forall>pid \<in> set (bp_dirty q). n1 \<le> pid" using tied by (simp add: tied_def guarded_sound)
  then have "set (bp_dirty q) \<subseteq> {pid. p_page_count (bp_pager q) \<le> pid}" using tied_count [OF tied] by auto
  ultimately show ?thesis by (intro ailingI [of xxh "p_page_count (bp_pager q)"]) (simp_all add: rot_pool.twins_def)
qed

lemma kv_tries_snoc:
  "kv_tries bad ops M rs M' \<Longrightarrow> kv_try bad op M' r M'' \<Longrightarrow> kv_tries bad (ops @ [op]) M (rs @ [r]) M''"
  by (induction rule: kv_tries.induct) (auto intro: kv_tries.intros)

text \<open>What holds after every such session of at most \<open>n\<close> calls.\<close>

definition endures :: "(bytes \<Rightarrow> u64) \<Rightarrow> nat \<Rightarrow> kv_op list \<Rightarrow> kv_result list \<Rightarrow> pool \<Rightarrow> (i64 \<rightharpoonup> row) \<Rightarrow> bool" where
  "endures xxh n ops rs p M \<longleftrightarrow> kv_tries read_failure ops Map.empty rs M \<and>
     (\<exists>q t D S. ailing xxh p q \<and> robust xxh q t M D S \<and> pool_affords q t (n - length ops))"

lemma endures_call:
  assumes "endures xxh n ops rs p M" "modest_op op" "length ops < n"
  shows "\<exists>r p' M'. pool_call xxh op p = Some (r, p') \<and> kv_try read_failure op M r M' \<and> endures xxh n (ops @ [op]) (rs @ [r]) p' M'"
proof -
  obtain q t D S where q: "kv_tries read_failure ops Map.empty rs M" "ailing xxh p q" "robust xxh q t M D S" "pool_affords q t (n - length ops)"
    using assms(1) unfolding endures_def by blast
  have "n - length ops = Suc (n - length (ops @ [op]))" using assms(3) by simp
  then have "pool_affords q t (Suc (n - length (ops @ [op])))" using q(4) by metis
  from rot_call [OF q(3,2) this assms(2)] show ?thesis
    using kv_tries_snoc [OF q(1)] unfolding endures_def by blast
qed

lemma decay_run_endures:
  assumes "decay_run xxh db0 ops rs db" "endures xxh n [] [] (db_pool db0) Map.empty" "list_all modest_op ops" "length ops \<le> n"
  shows "\<exists>M. endures xxh n ops rs (db_pool db) M"
  using assms
proof (induction rule: decay_run.induct)
  case (rot ops rs p Dm pg)
  then show ?case using rot_ailing unfolding endures_def by simp blast
next
  case (call ops rs db op r db')
  then obtain M where "endures xxh n ops rs (db_pool db) M" by auto
  then obtain r1 p' M' where 1: "pool_call xxh op (db_pool db) = Some (r1, p')" "endures xxh n (ops @ [op]) (rs @ [r1]) p' M'"
    using endures_call [of xxh n ops rs "db_pool db" M op] call.prems by auto
  then have "r1 = r" "p' = db_pool db'" using call.hyps(2) by (auto simp: db_call_pool)
  then show ?case using 1(2) by blast
qed blast

section \<open>Claims\<close>

text \<open>
  C7: a database endures a decaying file. Create a database and run any list of up to 46000 calls
  with small rows on it, while the file fails whenever it likes and, between the calls, any pages of
  the last transaction that are in the file turn bad, never to verify again. Every call so far has given the answer of the
  map, or has reported an I/O error or a checksum failure and left the map as it was; and any
  next call with a small row returns, and does so too.
\<close>
lemma database_endures:
  assumes "creatable fs path" "valid_page_size (page_bytes ps)" "1 \<le> capacity"
    and "create_with_capacity xxh path ps capacity fs = (Inr db, fs')"
    and "decay_run xxh \<lparr>db_pool = with_faults faults (db_pool db)\<rparr> ops rs db'"
    and "list_all modest_op ops" "length ops < 46000" "modest_op op"
  shows "\<exists>M r db'' M'. kv_tries read_failure ops Map.empty rs M \<and>
    db_call xxh op db' = Some (r, db'') \<and> kv_try read_failure op M r M'"
proof -
  let ?p = "with_faults faults (db_pool db)"
  note start = new_start [OF assms(1-4) order_refl, of faults]
  have "endures xxh 46000 [] [] ?p Map.empty"
    unfolding endures_def list.size diff_zero using start robust_ailing [OF start(1)] kv_tries.Nil by blast
  then obtain M where M: "endures xxh 46000 ops rs (db_pool db') M"
    using decay_run_endures [OF assms(5) _ assms(6), of 46000] assms(7) by auto
  from endures_call [OF M assms(8,7)] obtain r p' M' where
    "pool_call xxh op (db_pool db') = Some (r, p')" "kv_try read_failure op M r M'" by blast
  then show ?thesis using M unfolding endures_def
    by (intro exI [of _ M] exI [of _ r] exI [of _ "db'\<lparr>db_pool := p'\<rparr>"] exI [of _ M']) (simp add: db_call_pool)
qed

text \<open>A page that is overwritten with zeros but for the first byte goes bad.\<close>

lemma rots_page:
  assumes "page_in_file pg pid" "valid_page_size (page_bytes (p_page_size pg))"
  obtains pg' where "rots nonzero_hash {pid} pg pg'"
proof -
  let ?n = "bytes_usize (p_page_size pg)" and ?off = "unat (file_offset pg pid)"
  define k where "k = ?n - 9"
  then have n: "?n = Suc k + 8" using valid_page_size_bounds(1) [OF assms(2)] by simp
  let ?buf = "1 # replicate (k + 8) (0 :: u8)"
  let ?c = "overwrite (contents (p_file pg)) ?off ?buf"
  define pg' where "pg' = pg\<lparr>p_file := (p_file pg)\<lparr>f_durable := ?c, f_pending := []\<rparr>\<rparr>"
  have pg': "same_pager pg pg'" "f_faults (p_file pg') = f_faults (p_file pg)" "p_page_size pg' = p_page_size pg"
    "file_offset pg' = file_offset pg" "contents (p_file pg') = ?c"
    by (simp_all add: pg'_def same_pager_def fun_eq_iff file_offset_def contents_def)
  have "slice ?c ?off ?n = ?buf" using slice_overwrite_same [of "contents (p_file pg)" ?off ?buf] n by simp
  then have page: "page_at pg' pid = ?buf" by (simp add: page_at_def pg')
  have "page_body ?buf = 1 # replicate k 0" by (simp add: page_body_def take_Cons')
  then have "nonzero_hash (page_body ?buf) = 1" by (simp add: nonzero_hash_def nonzeros_zeros)
  moreover have "slice ?buf (Suc k) 8 = replicate 8 0" by (simp add: slice_def)
  then have "u64_at ?buf (Suc k) = from_be_bytes (replicate 8 0)" by (simp only: u64_at_def)
  moreover have "from_be_bytes (replicate 8 0) = (0 :: u64)" by code_simp
  ultimately have "verify_checksum nonzero_hash (page_at pg' pid) \<noteq> Inr ()" by (simp add: page verify_checksum_long)
  then have "rots nonzero_hash {pid} pg pg'"
    using assms(1) n by (auto simp: rots_def pg' page_in_file_def spans_def byte_at_overwrite length_overwrite)
  then show thesis by (rule that)
qed

text \<open>An insert, after which the root turns bad, and a lookup: its answer comes from the cache, or it is an error.\<close>

lemma kv_tries_insert:
  assumes "kv_tries bad [OpInsert key row] Map.empty [Inr Done] M" "row_fits row"
  shows "M = [key \<mapsto> row]"
  using assms by (fastforce elim!: kv_tries_ConsE kv_tries_NilE kv_tryE kv_insertE)

lemma database_endures_witness:
  "\<exists>db fs' p pg r db'. create_with_capacity nonzero_hash ''db'' DEFAULT_PAGE_SIZE 1 empty_fs = (Inr db, fs') \<and>
     db_call nonzero_hash (OpInsert 1 sample_row) \<lparr>db_pool = with_faults [] (db_pool db)\<rparr> = Some (Inr Done, \<lparr>db_pool = p\<rparr>) \<and>
     rots nonzero_hash {pool_root_page_id p} (bp_pager p) pg \<and>
     db_call nonzero_hash (OpGet 1) \<lparr>db_pool = p\<lparr>bp_pager := pg\<rparr>\<rparr> = Some (r, db') \<and>
     (r = Inr (Found (Some sample_row)) \<or> failed read_failure r)"
proof -
  let ?op = "OpInsert 1 sample_row"
  obtain db fs' where new: "create_with_capacity nonzero_hash ''db'' DEFAULT_PAGE_SIZE 1 empty_fs = (Inr db, fs')"
    "\<forall>fl. settled nonzero_hash (with_faults fl (db_pool db)) None Map.empty"
    "bp_next_page_id (db_pool db) = 2" "p_txn_id (bp_pager (db_pool db)) = 0"
    by (rule new_settled [OF creatable_empty default_page_size, where capacity = 1 and xxh = nonzero_hash and path = "''db''"])
      simp_all
  let ?p0 = "with_faults [] (db_pool db)"
  have "calm ?p0 = ?p0" by (simp add: calm_def calm_pager_def calm_file_def with_faults_def)
  then have rep: "represents nonzero_hash ?p0 None Map.empty" using new(2) by (metis settled_def)
  have "db_accepts nonzero_hash \<lparr>db_pool = ?p0\<rparr> None ?op"
    using sample_row_modest new(3,4) by (simp add: db_accepts_def room_for_def ids_left_def height_of_def small_consts)
  from db_call_law [of nonzero_hash "\<lparr>db_pool = ?p0\<rparr>" None Map.empty ?op] rep this obtain r0 p t M where
    p: "db_call nonzero_hash ?op \<lparr>db_pool = ?p0\<rparr> = Some (r0, \<lparr>db_pool = p\<rparr>)" "kv_step ?op Map.empty r0 M"
      "call_effect nonzero_hash ?op ?p0 None r0 p t M" by auto
  have r0: "r0 = Inr Done" using p(2) sample_row_modest(3) by (auto elim: kv_insertE)
  then obtain u where w: "represents nonzero_hash p (Some u) M" "bp_dirty p = []" "p_page_count (bp_pager p) = bp_next_page_id p"
    using p(3) by (auto simp: call_effect_def op_writes_def written_def)
  then have inv: "store_inv nonzero_hash p" and root: "pool_root_page_id p = root_id u" and "stored (store_view nonzero_hash p) u"
    by (simp_all add: represents_def tree_ok_def)
  then obtain b where "store_view nonzero_hash p (root_id u) = Some b" by (cases u) auto
  then have v: "root_id u < bp_next_page_id p" "pool_view nonzero_hash p (root_id u) = Some b" by (simp_all add: store_view_Some)
  have ok: "pool_inv nonzero_hash p" using inv by (simp add: store_inv_def store_ok_def)
  have data: "2 \<le> unat (root_id u)" using v(2) by (simp add: pool_view_def split: if_splits)
  from clean_view [OF ok w(2) v(2)] have "page_in_file (bp_pager p) (root_id u)" by (auto simp: disk_page_def split: if_splits)
  moreover have "valid_page_size (page_bytes (p_page_size (bp_pager p)))"
    using ok by (simp add: pool_inv_def pool_coherent_def pool_page_size_def)
  ultimately obtain pg where pg: "rots nonzero_hash {root_id u} (bp_pager p) pg" by (rule rots_page)
  have "decay_run nonzero_hash \<lparr>db_pool = ?p0\<rparr> ([] @ [?op]) ([] @ [Inr Done]) \<lparr>db_pool = p\<rparr>"
    using decay_run.call [OF decay_run.start] p(1) r0 by blast
  from decay_run.rot [OF this pg] have
    run: "decay_run nonzero_hash \<lparr>db_pool = ?p0\<rparr> [?op] [Inr Done] \<lparr>db_pool = p\<lparr>bp_pager := pg\<rparr>\<rparr>" using data v(1) w(3) by simp
  have "list_all modest_op [?op]" "modest_op (OpGet 1)" using sample_row_modest by (simp_all add: modest_op_def)
  from database_endures [OF creatable_empty default_page_size _ new(1) run this(1) _ this(2)] obtain M' r db' M'' where
    e: "kv_tries read_failure [?op] Map.empty [Inr Done] M'" "kv_try read_failure (OpGet 1) M' r M''"
      "db_call nonzero_hash (OpGet 1) \<lparr>db_pool = p\<lparr>bp_pager := pg\<rparr>\<rparr> = Some (r, db')" by auto
  have "M' = [1 \<mapsto> sample_row]" using kv_tries_insert [OF e(1)] sample_row_modest(3) .
  then have "r = Inr (Found (Some sample_row)) \<or> failed read_failure r" using e(2) by (auto elim!: kv_tryE kv_getE)
  with new(1) p(1) r0 pg e(3) root show ?thesis
    by (intro exI [of _ db] exI [of _ fs'] exI [of _ p] exI [of _ pg] exI [of _ r] exI [of _ db']) simp
qed

end
