(* ===== verification/Spec2Isabelle.thy ===== *)
theory Spec2Isabelle
  imports Lexis Messages Page_Claims Chain_Claims Lru Facade_Claims Error_Claims Robust Damage Rot
begin

text \<open>
  A verification of pinax, an embedded row store: one file of fixed-size pages that hold a
  copy-on-write B+tree from 64-bit keys to rows, and two meta slots of which the newer valid one
  names the current root. The sources are under \<open>src/crates\<close>; this theory imports the
  development and says what is in it.

  \<^bold>\<open>The program and its model.\<close> The crate \<open>lexis\<close> is the vocabulary of values
  and schemas; \<open>pinax\<close> stores rows of such values. From the bottom:

  \<^item> \<open>Lexis\<close> (with \<open>Utf8\<close>): the whole of \<open>lexis/src\<close>. Enums are datatypes,
    structs records, the \<open>TryFrom\<close> newtypes instances of the locale \<open>validated_newtype\<close>. An
    \<open>f64\<close> is its bit pattern, a Rust \<open>String\<close> its UTF-8 bytes.
  \<^item> \<open>Errors\<close>: \<open>error.rs\<close>. Every fallible function returns a sum with the error on the
    left; a method on \<open>&mut self\<close> returns the state on both sides. \<open>Messages\<close> holds the
    texts the errors and values display, as ASCII bytes; what the standard library prints for an
    \<open>f64\<close>, a path or an I/O error is a parameter.
  \<^item> \<open>Codec\<close>, \<open>Page\<close>, \<open>Row\<close>: \<open>codec.rs\<close>, \<open>page.rs\<close> and \<open>row.rs\<close>,
    integers at their width.
  \<^item> \<open>File_Model\<close>: the calls of \<open>std::fs\<close> the pager makes. A file is its stable bytes, its
    unsynced writes and a schedule of the I/O calls that are going to fail, a failing write leaving
    any prefix. A crash keeps for every byte the stable or some unsynced value
    (\<open>crash_image\<close>). So every error path of the code is a run of the model.
  \<^item> \<open>Pager\<close>: \<open>pager.rs\<close>, the file with its two meta slots; \<open>pager_commit\<close> is the
    transition from one transaction to the next.
  \<^item> \<open>Buffer_Pool\<close>: \<open>buffer_pool.rs\<close>, the cache with its recency queue and dirty set.
  \<^item> \<open>Layout\<close>, \<open>Overflow\<close>, \<open>Mutate\<close>, \<open>BTree\<close>: the four files of
    \<open>btree\<close>: slotted pages, overflow chains, the copying of the path from a leaf to the root,
    and the operations. Loops over pages that a malformed file may make endless are
    \<open>partial_function (option)\<close>, where \<open>None\<close> is a loop that does not return.
  \<^item> \<open>Database\<close>: \<open>database.rs\<close>, the facade.

  The third-party hash \<open>xxh3_64\<close> is the parameter \<open>xxh\<close> of every definition that stamps or
  verifies a page; nothing is assumed of it except where \<open>torn_safe\<close>,
  \<open>torn_detected\<close> or \<open>torn_proof\<close> says that a torn meta slot does not verify, and
  witnesses use a concrete hash (\<open>nonzero_hash\<close>) with that property.

  \<^bold>\<open>The abstract side.\<close> A store promises a finite map from keys to rows;
  \<open>Kv_Store.kv_step\<close> is its state machine, errors included. The interfaces are locales, each
  interpreted on the model: \<open>Page_Store.page_store\<close> is what the tree asks of the pool (read what
  was put, keep what is there), \<open>Kv_Store.kv_store\<close> the contract of one call,
  \<open>Session.stepwise_store\<close> that of a sequence of calls within a budget, which
  \<open>Session.kv_session\<close> gives for the map's own steps and \<open>Robust.resilient\<close> for steps that
  may be an I/O error and put the map of a failed call in doubt. \<open>Comparison.reading\<close> and
  \<open>Compare_Writes.writing\<close> compare a run of the tree with one on another pool, from the laws of a
  page read and a page write; \<open>Twins.twin_pagers\<close> and \<open>Twins.twin_commits\<close> compare two pools
  from the laws of the pager's calls, and are interpreted for the pool with no faults to come
  (\<open>Faults\<close>), an altered file (\<open>Damage\<close>) and a decaying one (\<open>Rot\<close>).
  \<open>Buffer_Pool.pager_stable\<close> and \<open>Stable_Ops.tree_stable\<close> state
  what calls keep of the pager on every path, under every fault, and what page ids they may use up;
  the second gives \<open>writing\<close> for the pool and the one with no faults to come. Between map
  and pages stands \<open>Tree_Rep.tree\<close>, a tree of page ids and cells:
  \<open>stored\<close> places it in the pages, \<open>bst\<close> routes its keys, \<open>level\<close> keeps its leaves at one depth, and \<open>Tree_Ops.represents\<close> ties pool, tree and map together.

  \<^bold>\<open>The groups of lemmas.\<close>
  \<^item> Pages: \<open>Layout\<close> and \<open>Node_Pages\<close> show that a slotted page is a list of cells
    (\<open>page_cells\<close>) and what every page operation does to the list.
  \<^item> Tree: \<open>Tree_Read\<close> follows lookup and scan, \<open>Tree_Write\<close> the change of a leaf,
    \<open>Tree_Propagate\<close> the way up with splits, \<open>Tree_Ops\<close> the operations up to the commit.
  \<^item> Facade without faults: \<open>Kv_Store\<close> and \<open>Session\<close> refine the map;
    \<open>Small_Rows\<close> shows that small rows always find room.
  \<^item> Faults and crashes: \<open>Comparison\<close> and \<open>Compare_Writes\<close> carry a relation between two
    pools through every operation of the tree, \<open>Twins\<close> through those of the pool,
    \<open>Faults\<close> shows for the pool that a run under faults is the faultless run or ends in an I/O error, \<open>Stable_Ops\<close> and \<open>Call_Work\<close> the same of
    operations and calls, and that they touch no committed page and take no more page ids than
    their cost, \<open>Crash\<close> and
    \<open>Recovery\<close> that whatever a crash leaves reopens to the map before or after the call,
    \<open>Durable\<close> that without faults it is the map after it, \<open>Guard\<close> what failed commits may
    leave in the file (pages of the transactions in doubt, bytes of the slots that were tried),
    \<open>Robust\<close> that after an I/O error the database stands for the map before the call and goes
    on, and that a crash later on finds that map or one in doubt. \<open>Damage\<close> compares a database
    with one whose file was altered: reads of it never serve a page that does not verify;
    \<open>Rot\<close> runs whole sessions, writes and I/O errors included, on a file whose pages turn bad.
  \<^item> Cache: \<open>Buffer_Pool\<close> and \<open>Pool_Claims\<close> keep it coherent with the file, \<open>Lru\<close>
    shows that its replacement is that of the least recently used page.
  \<^item> Claims that are about one component stand at the end of its theory or in
    \<open>Page_Claims\<close>, \<open>Chain_Claims\<close>, \<open>Pool_Claims\<close>, \<open>Lru\<close>, \<open>Facade_Claims\<close>,
    \<open>Robust\<close>, \<open>Damage\<close>, \<open>Rot\<close> and \<open>Error_Claims\<close>.

  \<^bold>\<open>Bounds.\<close> Page ids and transaction numbers are machine words; the code takes
  the next one by an addition that wraps, so the claims about writes ask for what the call may use:
  \<open>ids_left\<close> (a row's chain, two halves of a leaf, two pages per level and a root) and a
  transaction number that is not the last. A session of 46000 calls stays within
  \<open>2 ^ 32\<close> ids because a call of a row of at most \<open>SMALL_ROW\<close> = 252 bytes takes at most
  \<open>255 + 2 * height\<close> of them. Rows of any size are covered by \<open>room_for\<close>, which says that
  the leaf or both halves of its split take the cell: the split by count does not ensure it for
  large rows, as \<open>Page_Claims.split_refuses_row\<close> shows. Narrow arithmetic wraps as in a release
  build; where a debug build would panic, the claims exclude the case or name it. No fuel is used:
  loops that always end are total functions, and of the others the claims show that they return.

  \<^bold>\<open>Not modelled.\<close> The crate roots (module lists), the placeholder crates
  \<open>hypomnema\<close> and \<open>phylaxis\<close>, the tests, the source locations and backtraces in errors, the
  standard library's printing of an \<open>f64\<close>, a path or an I/O error (parameters of
  \<open>Messages\<close>), and the iteration order of \<open>HashSet\<close>: the dirty set is a list whose order the
  invariants leave open.
\<close>

end
